(* ===== verification/Prelude.thy ===== *)
theory Prelude
  imports Main "HOL-Library.Word" "HOL-Library.List_Lexorder" "HOL-Library.Sublist"
begin

text \<open>
  Shared vocabulary of the development: machine integers and byte strings, big-endian
  encodings and their order, the result type of fallible Rust code, decimal formatting, and the
  \<open>codec\<close> locale, which states once what an encoder and a decoder owe each other.
\<close>

section \<open>Types\<close>

type_synonym byte = "8 word"
type_synonym u16 = "16 word"
type_synonym u32 = "32 word"
type_synonym u64 = "64 word"
type_synonym i8 = "8 word"
type_synonym i16 = "16 word"
type_synonym i32 = "32 word"
type_synonym i64 = "64 word"
type_synonym bytes = "byte list"

named_theorems codec_simps \<open>decoding what an encoder wrote\<close>
named_theorems key_simps \<open>lengths, prefixes and equations of storage keys\<close>
named_theorems kv_simps \<open>reading a store after an update\<close>
named_theorems inv_intros \<open>every operation keeps its component's invariant\<close>

section \<open>Fallible computations\<close>

text \<open>
  Rust's \<open>Result<T, E>\<close> is the sum \<open>E + T\<close>, \<open>Inl\<close> the error.
  \<open>rbind\<close> is the \<open>?\<close> operator: it returns the error, or goes on with the value.
\<close>

definition rbind :: "'e + 'a \<Rightarrow> ('a \<Rightarrow> 'e + 'b) \<Rightarrow> 'e + 'b" where
  "rbind m f = (case m of Inl e \<Rightarrow> Inl e | Inr x \<Rightarrow> f x)"

lemma rbind_Inl [simp]: "rbind (Inl e) f = Inl e"
  by (simp add: rbind_def)

lemma rbind_Inr [simp]: "rbind (Inr x) f = f x"
  by (simp add: rbind_def)

lemma rbind_cong [fundef_cong]:
  "m = m' \<Longrightarrow> (\<And>x. m' = Inr x \<Longrightarrow> f x = g x) \<Longrightarrow> rbind m f = rbind m' g"
  by (auto simp: rbind_def split: sum.splits)

lemma rbind_eq_Inr [simp]: "rbind m f = Inr y \<longleftrightarrow> (\<exists>x. m = Inr x \<and> f x = Inr y)"
  by (auto simp: rbind_def split: sum.splits)

lemma rbind_eq_Inl: "rbind m f = Inl e \<longleftrightarrow> m = Inl e \<or> (\<exists>x. m = Inr x \<and> f x = Inl e)"
  by (auto simp: rbind_def split: sum.splits)

text \<open>\<open>Option::ok_or\<close>, and \<open>map_err\<close>.\<close>

definition ok_or :: "'e \<Rightarrow> 'a option \<Rightarrow> 'e + 'a" where
  "ok_or e m = (case m of None \<Rightarrow> Inl e | Some x \<Rightarrow> Inr x)"

lemma ok_or_simps [simp]: "ok_or e None = Inl e" "ok_or e (Some x) = Inr x"
  by (simp_all add: ok_or_def)

definition map_err :: "('e \<Rightarrow> 'f) \<Rightarrow> 'e + 'a \<Rightarrow> 'f + 'a" where
  "map_err f m = (case m of Inl e \<Rightarrow> Inl (f e) | Inr x \<Rightarrow> Inr x)"

lemma map_err_simps [simp]: "map_err f (Inl e) = Inl (f e)" "map_err f (Inr x) = Inr x"
  by (simp_all add: map_err_def)

lemma map_err_eq_Inr [simp]: "map_err f m = Inr x \<longleftrightarrow> m = Inr x"
  by (cases m) auto

section \<open>Decimal formatting\<close>

text \<open>What \<open>format!("{n}")\<close> prints for unsigned and signed integers.\<close>

fun dec_nat :: "nat \<Rightarrow> string" where
  "dec_nat n = (if n < 10 then [char_of (48 + n)] else dec_nat (n div 10) @ [char_of (48 + n mod 10)])"

declare dec_nat.simps [simp del]

definition dec_int :: "int \<Rightarrow> string" where
  "dec_int i = (if i < 0 then CHR ''-'' # dec_nat (nat (- i)) else dec_nat (nat i))"

text \<open>A Rust string literal or an ASCII string as its UTF-8 bytes.\<close>

definition ascii :: "string \<Rightarrow> bytes" where
  "ascii s = map (\<lambda>c. word_of_nat (of_char c)) s"

lemma ascii_simps [simp]: "ascii [] = []" "ascii (c # s) = word_of_nat (of_char c) # ascii s"
  by (simp_all add: ascii_def)

lemma length_ascii [simp]: "length (ascii s) = length s"
  by (simp add: ascii_def)

lemma unat_byte_of_char [simp]: "unat (word_of_nat (of_char c) :: byte) = of_char c"
  using of_char_mod_256 [of c] by (simp add: unat_of_nat del: of_char_mod_256)

lemma ascii_inj [simp]: "ascii s = ascii t \<longleftrightarrow> s = t"
proof -
  have "inj (\<lambda>c. word_of_nat (of_char c) :: byte)"
  proof (rule injI)
    fix c d :: char
    assume "(word_of_nat (of_char c) :: byte) = word_of_nat (of_char d)"
    then have "unat (word_of_nat (of_char c) :: byte) = unat (word_of_nat (of_char d) :: byte)"
      by simp
    then have "(of_char c :: nat) = of_char d"
      by simp
    then show "c = d" by simp
  qed
  then show ?thesis by (simp add: ascii_def)
qed

section \<open>Big-endian encodings\<close>

fun be_nat :: "nat \<Rightarrow> nat \<Rightarrow> bytes" where
  "be_nat 0 k = []"
| "be_nat (Suc n) k = word_of_nat (k div 256 ^ n) # be_nat n (k mod 256 ^ n)"

definition be_val :: "bytes \<Rightarrow> nat" where
  "be_val bs = foldl (\<lambda>a b. 256 * a + unat b) 0 bs"

text \<open>\<open>to_be_bytes\<close> and \<open>from_be_bytes\<close> at any width that is a multiple of eight.\<close>

definition be_bytes :: "'a::len word \<Rightarrow> bytes" where
  "be_bytes w = be_nat (LENGTH('a) div 8) (unat w)"

definition of_be :: "bytes \<Rightarrow> 'a::len word" where
  "of_be bs = word_of_nat (be_val bs)"

lemma length_be_nat [simp]: "length (be_nat n k) = n"
  by (induction n arbitrary: k) auto

lemma length_be_bytes [simp]: "length (be_bytes (w :: 'a::len word)) = LENGTH('a) div 8"
  by (simp add: be_bytes_def)

lemma be_nat_eq_Nil [simp]: "be_nat n k = [] \<longleftrightarrow> n = 0"
  by (cases n) auto

lemma be_nat_numeral:
  "be_nat (numeral v) k =
     word_of_nat (k div 256 ^ pred_numeral v) # be_nat (pred_numeral v) (k mod 256 ^ pred_numeral v)"
  by (simp add: numeral_eq_Suc)

lemma foldl_be: "foldl (\<lambda>a b. 256 * a + unat (b :: byte)) a bs = a * 256 ^ length bs + be_val bs"
proof (induction bs arbitrary: a)
  case Nil
  then show ?case by (simp add: be_val_def)
next
  case (Cons b bs)
  from Cons [of "256 * a + unat b"] Cons [of "unat b"] show ?case
    by (simp add: be_val_def algebra_simps)
qed

lemma be_val_simps [simp]:
  "be_val [] = 0"
  "be_val (b # bs) = unat b * 256 ^ length bs + be_val bs"
  using foldl_be [of "unat b" bs] by (simp_all add: be_val_def)

lemma be_val_bound: "be_val bs < 256 ^ length bs"
proof (induction bs)
  case Nil
  then show ?case by simp
next
  case (Cons b bs)
  have "unat b < 2 ^ LENGTH(8)" by (rule unsigned_less)
  then have "unat b + 1 \<le> 256" by simp
  then have "(unat b + 1) * 256 ^ length bs \<le> 256 * 256 ^ length bs"
    by (rule mult_le_mono1)
  moreover have "unat b * 256 ^ length bs + be_val bs < (unat b + 1) * 256 ^ length bs"
    using Cons.IH by (simp add: algebra_simps)
  ultimately have "unat b * 256 ^ length bs + be_val bs < 256 * 256 ^ length bs"
    by (rule less_le_trans [rotated])
  then show ?case by simp
qed

lemma unat_top_byte: "k < 256 ^ Suc n \<Longrightarrow> unat (word_of_nat (k div 256 ^ n) :: byte) = k div 256 ^ n"
  by (simp add: unat_of_nat less_mult_imp_div_less)

lemma be_val_be_nat [simp]: "k < 256 ^ n \<Longrightarrow> be_val (be_nat n k) = k"
proof (induction n arbitrary: k)
  case 0
  then show ?case by simp
next
  case (Suc n)
  have "k mod 256 ^ n < 256 ^ n" by simp
  then have "be_val (be_nat n (k mod 256 ^ n)) = k mod 256 ^ n" by (rule Suc.IH)
  then show ?case using unat_top_byte [OF Suc.prems] by (simp add: div_mult_mod_eq)
qed

lemma be_nat_be_val [simp]: "be_nat (length bs) (be_val bs) = bs"
proof (induction bs)
  case Nil
  then show ?case by simp
next
  case (Cons b bs)
  have "be_val bs < 256 ^ length bs" by (rule be_val_bound)
  then show ?case using Cons.IH by simp
qed

lemma be_nat_inj: "\<lbrakk>a < 256 ^ n; b < 256 ^ n; be_nat n a = be_nat n b\<rbrakk> \<Longrightarrow> a = b"
  by (metis be_val_be_nat)

lemma less_div_mod:
  fixes a b p :: nat
  shows "a < b \<longleftrightarrow> a div p < b div p \<or> a div p = b div p \<and> a mod p < b mod p"
proof -
  have a: "a = a div p * p + a mod p" and b: "b = b div p * p + b mod p"
    by simp_all
  consider "a div p < b div p" | "a div p = b div p" | "b div p < a div p"
    by linarith
  then show ?thesis
  proof cases
    case 1
    then have "a < b" using div_le_mono [of b a p] by linarith
    with 1 show ?thesis by simp
  next
    case 2
    then have "a div p * p = b div p * p" by simp
    with a b have "a < b \<longleftrightarrow> a mod p < b mod p" by linarith
    with 2 show ?thesis by simp
  next
    case 3
    then have "b < a" using div_le_mono [of a b p] by linarith
    with 3 show ?thesis by simp
  qed
qed

text \<open>Fixed-width big-endian encoding preserves order: the fact every key layout rests on.\<close>

lemma be_nat_less: "\<lbrakk>a < 256 ^ n; b < 256 ^ n\<rbrakk> \<Longrightarrow> be_nat n a < be_nat n b \<longleftrightarrow> a < b"
proof (induction n arbitrary: a b)
  case 0
  then show ?case by simp
next
  case (Suc n)
  let ?p = "256 ^ n :: nat"
  have ua: "unat (word_of_nat (a div ?p) :: byte) = a div ?p"
    and ub: "unat (word_of_nat (b div ?p) :: byte) = b div ?p"
    using Suc.prems by (simp_all only: unat_top_byte)
  have IH: "be_nat n (a mod ?p) < be_nat n (b mod ?p) \<longleftrightarrow> a mod ?p < b mod ?p"
    by (rule Suc.IH) simp_all
  have split: "a < b \<longleftrightarrow> a div ?p < b div ?p \<or> a div ?p = b div ?p \<and> a mod ?p < b mod ?p"
    by (rule less_div_mod)
  show ?case
    by (simp add: IH split word_less_nat_alt ua ub word_unat_eq_iff)
qed

lemma unat_of_nat_small: "n < 2 ^ LENGTH('a) \<Longrightarrow> unat (word_of_nat n :: 'a::len word) = n"
  by (simp add: unat_of_nat)

text \<open>
  At a width of whole bytes. \<open>width_ok\<close> holds of every integer type the program stores.
\<close>

definition width_ok :: "'a::len itself \<Rightarrow> bool" where
  "width_ok _ \<longleftrightarrow> LENGTH('a) mod 8 = 0"

lemma width_ok_simps [simp]:
  "width_ok TYPE(8)" "width_ok TYPE(16)" "width_ok TYPE(32)" "width_ok TYPE(64)"
  by (simp_all add: width_ok_def)

lemma width_power:
  assumes "width_ok TYPE('a::len)"
  shows "(256 :: nat) ^ (LENGTH('a) div 8) = 2 ^ LENGTH('a)"
proof -
  from assms have "8 * (LENGTH('a) div 8) = LENGTH('a)" by (auto simp: width_ok_def)
  moreover have "(256 :: nat) ^ (LENGTH('a) div 8) = 2 ^ (8 * (LENGTH('a) div 8))"
    by (simp add: power_mult)
  ultimately show ?thesis by simp
qed

lemma unat_width_bound:
  assumes "width_ok TYPE('a)"
  shows "unat (w :: 'a::len word) < 256 ^ (LENGTH('a) div 8)"
  unfolding width_power [OF assms] by (rule unsigned_less)

lemma of_be_be_bytes [simp]:
  "width_ok TYPE('a) \<Longrightarrow> of_be (be_bytes (w :: 'a::len word)) = w"
  by (simp add: of_be_def be_bytes_def unat_width_bound)

lemma be_bytes_inj [simp]:
  assumes "width_ok TYPE('a)"
  shows "be_bytes (a :: 'a::len word) = be_bytes b \<longleftrightarrow> a = b"
proof
  assume "be_bytes a = be_bytes b"
  then have "(of_be (be_bytes a) :: 'a word) = of_be (be_bytes b)" by simp
  then show "a = b" by (simp only: of_be_be_bytes [OF assms])
qed simp

lemma be_bytes_less [simp]:
  "width_ok TYPE('a) \<Longrightarrow> be_bytes (a :: 'a::len word) < be_bytes b \<longleftrightarrow> a < b"
  by (simp add: be_bytes_def be_nat_less unat_width_bound word_less_nat_alt)

lemma be_bytes_le [simp]:
  "width_ok TYPE('a) \<Longrightarrow> be_bytes (a :: 'a::len word) \<le> be_bytes b \<longleftrightarrow> a \<le> b"
  by (simp add: le_less)

lemma unat_of_be:
  assumes "width_ok TYPE('a)" and "length bs = LENGTH('a) div 8"
  shows "unat (of_be bs :: 'a::len word) = be_val bs"
proof -
  have "be_val bs < 2 ^ LENGTH('a)"
    using be_val_bound [of bs] width_power [OF assms(1)] assms(2) by simp
  then show ?thesis by (simp add: of_be_def unat_of_nat)
qed

lemma be_bytes_of_be:
  assumes "width_ok TYPE('a)" and "length bs = LENGTH('a) div 8"
  shows "be_bytes (of_be bs :: 'a::len word) = bs"
  using be_nat_be_val [of bs] by (simp add: be_bytes_def unat_of_be [OF assms] assms(2))

section \<open>Lexicographic order of byte strings\<close>

lemma append_less_same_length:
  fixes a b x y :: "'a::linorder list"
  shows "length a = length b \<Longrightarrow> a @ x < b @ y \<longleftrightarrow> a < b \<or> a = b \<and> x < y"
  by (induction a b rule: list_induct2) auto

lemma append_less_common [simp]:
  fixes p x y :: "'a::linorder list"
  shows "p @ x < p @ y \<longleftrightarrow> x < y"
  by (induction p) auto

lemma append_le_common [simp]:
  fixes p x y :: "'a::linorder list"
  shows "p @ x \<le> p @ y \<longleftrightarrow> x \<le> y"
  by (induction p) auto

lemma le_append [simp]: "p \<le> p @ (x :: 'a::linorder list)"
  by (induction p) auto

lemma prefix_le: "prefix p k \<Longrightarrow> p \<le> (k :: 'a::linorder list)"
  by (auto simp: prefix_def)

text \<open>The strings that start with \<open>p\<close> are contiguous in the order: from \<open>p\<close> on,
  once a string without the prefix is met, no later one has it.\<close>

lemma prefix_convex:
  fixes p k l :: "'a::linorder list"
  shows "\<lbrakk>p \<le> k; k \<le> l; prefix p l\<rbrakk> \<Longrightarrow> prefix p k"
proof (induction p arbitrary: k l)
  case Nil
  then show ?case by simp
next
  case (Cons a p)
  from Cons.prems(3) obtain l' where l: "l = a # l'" and pl: "prefix p l'"
    by (cases l) auto
  from Cons.prems(1) obtain b k' where k: "k = b # k'"
    by (cases k) auto
  from Cons.prems(1,2) k l have ab: "a = b" by auto
  with Cons.prems(1,2) k l have "p \<le> k'" "k' \<le> l'" by auto
  with pl have "prefix p k'" by (rule Cons.IH [rotated -1])
  with ab k show ?case by simp
qed

text \<open>The successor of a prefix bounds exactly the strings that start with it.\<close>

lemma byte_less_Suc: "c \<noteq> 255 \<Longrightarrow> b < (c :: byte) + 1 \<longleftrightarrow> b \<le> c"
proof -
  assume "c \<noteq> 255"
  then have "unat c \<noteq> 255" by (simp add: word_unat_eq_iff)
  moreover have "unat c < 256" using unsigned_less [of c] by simp
  ultimately have "unat (c + 1) = unat c + 1" by (simp add: unat_word_ariths)
  then show ?thesis by (simp add: word_less_nat_alt word_le_nat_alt less_Suc_eq_le)
qed

lemma prefix_window:
  assumes "c \<noteq> (255 :: byte)"
  shows "p @ [c] \<le> k \<and> k < p @ [c + 1] \<longleftrightarrow> prefix (p @ [c]) k"
proof (induction p arbitrary: k)
  case Nil
  show ?case
  proof (cases k)
    case (Cons b k')
    have "c < b \<Longrightarrow> \<not> b < c + 1" using byte_less_Suc [OF assms, of b] by simp
    moreover have "c < c + 1" using byte_less_Suc [OF assms, of c] by simp
    ultimately show ?thesis using Cons by auto
  qed simp
next
  case (Cons a p)
  show ?case
  proof (cases k)
    case (Cons b k')
    with Cons.IH [of k'] show ?thesis by auto
  qed simp
qed

section \<open>Codecs\<close>

text \<open>
  An encoder writes a value in front of the rest of the output; its decoder takes a value off the
  front of the input and hands the rest back, or fails. \<open>ok\<close> says which values the encoder
  may be asked to write.
\<close>

fun dec_list :: "(bytes \<Rightarrow> 'e + ('a \<times> bytes)) \<Rightarrow> nat \<Rightarrow> bytes \<Rightarrow> 'e + ('a list \<times> bytes)" where
  "dec_list dec 0 cur = Inr ([], cur)"
| "dec_list dec (Suc n) cur =
     rbind (dec cur) (\<lambda>(x, cur). rbind (dec_list dec n cur) (\<lambda>(xs, cur). Inr (x # xs, cur)))"

definition enc_list :: "('a \<Rightarrow> bytes) \<Rightarrow> 'a list \<Rightarrow> bytes" where
  "enc_list enc xs = concat (map enc xs)"

lemma enc_list_simps [simp]:
  "enc_list enc [] = []"
  "enc_list enc (x # xs) = enc x @ enc_list enc xs"
  by (simp_all add: enc_list_def)

locale codec =
  fixes enc :: "'a \<Rightarrow> bytes"
    and dec :: "bytes \<Rightarrow> 'e + ('a \<times> bytes)"
    and ok :: "'a \<Rightarrow> bool"
  assumes dec_enc: "ok a \<Longrightarrow> dec (enc a @ rest) = Inr (a, rest)"
begin

lemma dec_enc_all: "ok a \<Longrightarrow> dec (enc a) = Inr (a, [])"
  using dec_enc [of a "[]"] by simp

lemma enc_append_inj: "\<lbrakk>ok a; ok b; enc a @ r = enc b @ s\<rbrakk> \<Longrightarrow> a = b \<and> r = s"
  by (metis dec_enc prod.inject sum.inject(2))

lemma enc_inj: "\<lbrakk>ok a; ok b; enc a = enc b\<rbrakk> \<Longrightarrow> a = b"
  by (metis enc_append_inj)

lemma enc_prefix_free: "\<lbrakk>ok a; ok b; prefix (enc a) (enc b)\<rbrakk> \<Longrightarrow> a = b"
  by (metis append_Nil2 enc_append_inj prefixE)

lemma dec_enc_list:
  "list_all ok xs \<Longrightarrow> dec_list dec (length xs) (enc_list enc xs @ rest) = Inr (xs, rest)"
  by (induction xs) (simp_all add: dec_enc)

end

end
