(* ===== verification/Keys.thy ===== *)
theory Keys
  imports Prelude
begin

text \<open>
  Storage keys: \<open>kv/src/error.rs\<close>, \<open>kv/src/keyenc.rs\<close> and \<open>kv/src/key.rs\<close>. A key is a byte string;
  rows live under \<open>/<table>/1/<rowid>\<close>, everything else under the reserved table 0. The lemmas say
  that key order is the order of (table, rowid), that a decoder accepts exactly the keys its encoder
  writes, and that no two entries of different kinds share a key.

  A Rust \<open>&str\<close> is its UTF-8 bytes. The \<open>zerocopy\<close> types \<open>big_endian::U32\<close> and \<open>U64\<close> are the
  big-endian representation of the integer.
\<close>

section \<open>Errors\<close>

datatype kv_error = CorruptRow string | Io string

section \<open>Key components\<close>

definition put_u32 :: "bytes \<Rightarrow> u32 \<Rightarrow> bytes" where
  "put_u32 out v = out @ be_bytes v"

definition put_u64 :: "bytes \<Rightarrow> u64 \<Rightarrow> bytes" where
  "put_u64 out v = out @ be_bytes v"

definition take_u32 :: "bytes \<Rightarrow> kv_error + (u32 \<times> bytes)" where
  "take_u32 cur =
     (if length cur < 4 then Inl (CorruptRow ''truncated u32 key component'')
      else Inr (of_be (take 4 cur), drop 4 cur))"

definition take_u64 :: "bytes \<Rightarrow> kv_error + (u64 \<times> bytes)" where
  "take_u64 cur =
     (if length cur < 8 then Inl (CorruptRow ''truncated u64 key component'')
      else Inr (of_be (take 8 cur), drop 8 cur))"

section \<open>Key construction\<close>

definition INDEX_PRIMARY :: u32 where
  "INDEX_PRIMARY = 1"

definition table_prefix :: "u32 \<Rightarrow> bytes" where
  "table_prefix table_id = put_u32 (put_u32 [] table_id) INDEX_PRIMARY"

definition row_key :: "u32 \<Rightarrow> u64 \<Rightarrow> bytes" where
  "row_key table_id rowid = put_u64 (table_prefix table_id) rowid"

definition SYSTEM_TABLE_ID :: u32 where
  "SYSTEM_TABLE_ID = 0"

definition system_prefix :: "string \<Rightarrow> bytes" where
  "system_prefix tag = put_u32 [] SYSTEM_TABLE_ID @ ascii tag @ ascii ''/''"

definition catalog_key :: "bytes \<Rightarrow> bytes" where
  "catalog_key table_name = system_prefix ''catalog'' @ table_name"

definition seq_key :: "u32 \<Rightarrow> bytes" where
  "seq_key table_id = put_u32 (system_prefix ''seq'') table_id"

definition meta_next_table_id_key :: bytes where
  "meta_next_table_id_key = system_prefix ''meta'' @ ascii ''next_table_id''"

definition fdw_key :: "bytes \<Rightarrow> bytes" where
  "fdw_key name = system_prefix ''fdw'' @ name"

definition server_key :: "bytes \<Rightarrow> bytes" where
  "server_key name = system_prefix ''fsrv'' @ name"

definition user_mapping_key :: "bytes \<Rightarrow> bytes \<Rightarrow> bytes" where
  "user_mapping_key user server = system_prefix ''umap'' @ user @ [0] @ server"

definition server_prefix :: bytes where
  "server_prefix = system_prefix ''fsrv''"

definition meta_range_map_key :: bytes where
  "meta_range_map_key = system_prefix ''meta'' @ ascii ''range_map''"

definition next_xid_key :: bytes where
  "next_xid_key = system_prefix ''meta'' @ ascii ''next_xid''"

definition meta_next_global_xid_key :: bytes where
  "meta_next_global_xid_key = system_prefix ''meta'' @ ascii ''next_global_xid''"

definition clog_scan_lo_key :: bytes where
  "clog_scan_lo_key = system_prefix ''meta'' @ ascii ''clog_scan_lo''"

definition clog_prefix :: bytes where
  "clog_prefix = system_prefix ''clog''"

definition clog_scan_end :: bytes where
  "clog_scan_end = butlast clog_prefix @ [last clog_prefix + 1]"

definition clog_key :: "u64 \<Rightarrow> bytes" where
  "clog_key xid = put_u64 (system_prefix ''clog'') xid"

section \<open>Key decoding\<close>

definition clog_xid_of :: "bytes \<Rightarrow> u64 option" where
  "clog_xid_of key =
     (if length key \<noteq> length clog_prefix + 8 \<or> take (length clog_prefix) key \<noteq> clog_prefix then None
      else (case take_u64 (drop (length clog_prefix) key) of
              Inl _ \<Rightarrow> None
            | Inr (x, _) \<Rightarrow> Some x))"

definition table_rowid_of :: "bytes \<Rightarrow> (u32 \<times> u64) option" where
  "table_rowid_of key =
     (case take_u32 key of
        Inl _ \<Rightarrow> None
      | Inr (t, cur) \<Rightarrow>
          (case take_u32 cur of
             Inl _ \<Rightarrow> None
           | Inr (idx, cur) \<Rightarrow>
               if t = SYSTEM_TABLE_ID \<or> idx \<noteq> INDEX_PRIMARY then None
               else (case take_u64 cur of
                       Inl _ \<Rightarrow> None
                     | Inr (rowid, _) \<Rightarrow> Some (t, rowid))))"

definition rowid_of :: "u32 \<Rightarrow> bytes \<Rightarrow> kv_error + u64" where
  "rowid_of table_id key =
     rbind (take_u32 key) (\<lambda>(t, cur).
     rbind (take_u32 cur) (\<lambda>(idx, cur).
       if t \<noteq> table_id \<or> idx \<noteq> INDEX_PRIMARY
       then Inl (CorruptRow ''key does not belong to this table index'')
       else rbind (take_u64 cur) (\<lambda>(r, _). Inr r)))"

section \<open>Component lemmas\<close>

lemmas key_defs =
  put_u32_def put_u64_def INDEX_PRIMARY_def SYSTEM_TABLE_ID_def table_prefix_def row_key_def
  system_prefix_def catalog_key_def seq_key_def meta_next_table_id_key_def fdw_key_def server_key_def
  user_mapping_key_def server_prefix_def meta_range_map_key_def next_xid_key_def
  meta_next_global_xid_key_def clog_scan_lo_key_def clog_prefix_def clog_key_def

lemma be_bytes_u32_0 [simp]: "be_bytes (0 :: u32) = [0, 0, 0, 0]"
  by (simp add: be_bytes_def be_nat_numeral)

lemma be_bytes_u32_1 [simp]: "be_bytes (1 :: u32) = [0, 0, 0, 1]"
  by (simp add: be_bytes_def be_nat_numeral)

lemma take_u32_be [codec_simps]: "take_u32 (be_bytes v @ rest) = Inr (v, rest)"
  by (simp add: take_u32_def)

lemma take_u64_be [codec_simps]: "take_u64 (be_bytes v @ rest) = Inr (v, rest)"
  by (simp add: take_u64_def)

interpretation u32c: codec "put_u32 []" take_u32 "\<lambda>_. True"
  by unfold_locales (simp add: put_u32_def codec_simps)

interpretation u64c: codec "put_u64 []" take_u64 "\<lambda>_. True"
  by unfold_locales (simp add: put_u64_def codec_simps)

lemma take_u32_eq_Inr: "take_u32 cur = Inr (v, rest) \<longleftrightarrow> cur = be_bytes v @ rest"
proof
  assume a: "take_u32 cur = Inr (v, rest)"
  then have len: "4 \<le> length cur" and v: "v = of_be (take 4 cur)" and r: "rest = drop 4 cur"
    by (auto simp: take_u32_def split: if_splits)
  have "be_bytes (of_be (take 4 cur) :: u32) = take 4 cur"
    by (rule be_bytes_of_be) (use len in simp_all)
  then show "cur = be_bytes v @ rest" by (simp add: v r)
qed (simp add: codec_simps)

lemma take_u64_eq_Inr: "take_u64 cur = Inr (v, rest) \<longleftrightarrow> cur = be_bytes v @ rest"
proof
  assume a: "take_u64 cur = Inr (v, rest)"
  then have len: "8 \<le> length cur" and v: "v = of_be (take 8 cur)" and r: "rest = drop 8 cur"
    by (auto simp: take_u64_def split: if_splits)
  have "be_bytes (of_be (take 8 cur) :: u64) = take 8 cur"
    by (rule be_bytes_of_be) (use len in simp_all)
  then show "cur = be_bytes v @ rest" by (simp add: v r)
qed (simp add: codec_simps)

lemma row_key_append: "row_key t r = be_bytes t @ be_bytes INDEX_PRIMARY @ be_bytes r"
  by (simp add: key_defs del: be_bytes_u32_1)

lemma length_row_key [key_simps]: "length (row_key t r) = 16"
  by (simp add: row_key_append)

lemma length_table_prefix [key_simps]: "length (table_prefix t) = 8"
  by (simp add: key_defs)

lemma row_key_table_prefix: "row_key t r = table_prefix t @ be_bytes r"
  by (simp add: row_key_append table_prefix_def put_u32_def)

lemma clog_key_prefix: "clog_key x = clog_prefix @ be_bytes x"
  by (simp add: clog_key_def clog_prefix_def put_u64_def)

lemma length_clog_prefix [key_simps]: "length clog_prefix = 9"
  by (simp add: key_defs)

lemma table_prefix_inj [key_simps]: "table_prefix t = table_prefix u \<longleftrightarrow> t = u"
  by (simp add: table_prefix_def put_u32_def)

lemma table_prefix_row_key [key_simps]: "prefix (table_prefix t) (row_key u r @ s) \<longleftrightarrow> t = u"
proof
  assume "prefix (table_prefix t) (row_key u r @ s)"
  then obtain z where "table_prefix u @ (be_bytes r @ s) = table_prefix t @ z"
    by (auto simp: row_key_table_prefix elim!: prefixE)
  then have "table_prefix u = table_prefix t"
    by (rule append_eq_append_conv [THEN iffD1, THEN conjunct1, rotated]) (simp add: key_simps)
  then show "t = u" by (simp add: key_simps)
qed (simp add: row_key_table_prefix prefix_def)

section \<open>Order and decoding of keys\<close>

text \<open>Byte order on row keys is the order of (table id, rowid): a range scan of the store walks
  the rows of one table in rowid order and never mixes tables.\<close>

theorem row_key_order: "row_key t r < row_key u s \<longleftrightarrow> t < u \<or> t = u \<and> r < s"
  by (simp add: row_key_append append_less_same_length)

text \<open>\<open>rowid_of\<close> accepts exactly the keys of the given table's primary index (a row key with any
  suffix, as version keys have one) and returns their rowid; every other key is an error.\<close>

theorem rowid_of_iff: "rowid_of t k = Inr r \<longleftrightarrow> prefix (row_key t r) k"
proof -
  have "rowid_of t k = Inr r \<longleftrightarrow> (\<exists>s. k = be_bytes t @ be_bytes INDEX_PRIMARY @ be_bytes r @ s)"
    by (auto simp: rowid_of_def take_u32_eq_Inr take_u64_eq_Inr split: prod.splits if_splits)
  then show ?thesis by (simp add: prefix_def row_key_append)
qed

lemma table_rowid_of_eq:
  "table_rowid_of k = Some (t, r) \<longleftrightarrow> t \<noteq> SYSTEM_TABLE_ID \<and> prefix (row_key t r) k"
proof -
  have "table_rowid_of k = Some (t, r) \<longleftrightarrow>
    t \<noteq> SYSTEM_TABLE_ID \<and> (\<exists>s. k = be_bytes t @ be_bytes INDEX_PRIMARY @ be_bytes r @ s)"
    by (auto simp: table_rowid_of_def take_u32_eq_Inr take_u64_eq_Inr codec_simps
             split: sum.splits prod.splits if_splits)
  then show ?thesis by (simp add: prefix_def row_key_append)
qed

lemma clog_xid_of_eq: "clog_xid_of k = Some x \<longleftrightarrow> k = clog_key x"
proof
  assume a: "clog_xid_of k = Some x"
  then have pre: "take (length clog_prefix) k = clog_prefix"
    and len: "length k = length clog_prefix + 8"
    and tk: "\<exists>r. take_u64 (drop (length clog_prefix) k) = Inr (x, r)"
    by (auto simp: clog_xid_of_def split: if_splits sum.splits)
  from tk obtain r where d: "drop (length clog_prefix) k = be_bytes x @ r"
    by (auto simp: take_u64_eq_Inr)
  then have "length (drop (length clog_prefix) k) = 8 + length r" by simp
  with len have "r = []" by simp
  with d pre show "k = clog_key x"
    by (metis append_Nil2 append_take_drop_id clog_key_prefix)
next
  assume "k = clog_key x"
  moreover have "take_u64 (be_bytes x) = Inr (x, [])"
    using take_u64_be [of x "[]"] by simp
  ultimately show "clog_xid_of k = Some x"
    by (simp add: clog_xid_of_def clog_key_prefix)
qed

lemma clog_prefix_snoc: "clog_prefix = [0, 0, 0, 0] @ ascii ''clog'' @ [0x2F]"
  by (simp add: key_defs)

lemma clog_scan_end_snoc: "clog_scan_end = [0, 0, 0, 0] @ ascii ''clog'' @ [0x2F + 1]"
  by (simp add: clog_scan_end_def clog_prefix_snoc)

text \<open>The scan window from \<open>clog_prefix\<close> to \<open>clog_scan_end\<close> contains exactly the keys under
  \<open>/0/clog/\<close>, \<open>clog_xid_of\<close> decodes exactly the keys \<open>clog_key\<close> writes, and clog keys are ordered by
  transaction id.\<close>

theorem clog_window:
  "(clog_prefix \<le> k \<and> k < clog_scan_end \<longleftrightarrow> prefix clog_prefix k)
   \<and> (clog_xid_of k = Some x \<longleftrightarrow> k = clog_key x)
   \<and> (clog_key x < clog_key y \<longleftrightarrow> x < y)"
proof (intro conjI)
  have "(0x2F :: byte) \<noteq> 255" by simp
  from prefix_window [OF this, of "[0, 0, 0, 0] @ ascii ''clog''" k]
  show "clog_prefix \<le> k \<and> k < clog_scan_end \<longleftrightarrow> prefix clog_prefix k"
    by (simp only: clog_prefix_snoc clog_scan_end_snoc append_assoc)
  show "clog_xid_of k = Some x \<longleftrightarrow> k = clog_key x" by (rule clog_xid_of_eq)
  show "clog_key x < clog_key y \<longleftrightarrow> x < y" by (simp add: clog_key_prefix)
qed

section \<open>Key namespaces\<close>

text \<open>
  Every kind of entry the store holds, as data. \<open>key_bytes\<close> is its key.
\<close>

datatype storage_key =
    RowKey u32 u64
  | CatalogKey bytes
  | SeqKey u32
  | FdwKey bytes
  | ServerKey bytes
  | UserMappingKey bytes bytes
  | ClogKey u64
  | NextTableIdKey
  | RangeMapKey
  | NextXidKey
  | NextGlobalXidKey
  | ClogScanLoKey

fun key_bytes :: "storage_key \<Rightarrow> bytes" where
  "key_bytes (RowKey t r) = row_key t r"
| "key_bytes (CatalogKey n) = catalog_key n"
| "key_bytes (SeqKey t) = seq_key t"
| "key_bytes (FdwKey n) = fdw_key n"
| "key_bytes (ServerKey n) = server_key n"
| "key_bytes (UserMappingKey u s) = user_mapping_key u s"
| "key_bytes (ClogKey x) = clog_key x"
| "key_bytes NextTableIdKey = meta_next_table_id_key"
| "key_bytes RangeMapKey = meta_range_map_key"
| "key_bytes NextXidKey = next_xid_key"
| "key_bytes NextGlobalXidKey = meta_next_global_xid_key"
| "key_bytes ClogScanLoKey = clog_scan_lo_key"

text \<open>A user name with a NUL byte would make \<open>/0/umap/<user>\0<server>\<close> ambiguous.\<close>

fun key_ok :: "storage_key \<Rightarrow> bool" where
  "key_ok (UserMappingKey u s) = (0 \<notin> set u)"
| "key_ok _ = True"

lemma nul_split:
  assumes "(0 :: byte) \<notin> set u" and "0 \<notin> set u'" and "u @ 0 # s = u' @ 0 # s'"
  shows "u = u' \<and> s = s'"
  using assms
proof (induction u arbitrary: u')
  case Nil
  then show ?case by (cases u') auto
next
  case (Cons a u)
  then show ?case by (cases u') auto
qed

lemma row_key_not_system:
  "row_key t r \<noteq> [0, 0, 0, 0] @ c # s" if "c \<noteq> 0"
proof
  assume a: "row_key t r = [0, 0, 0, 0] @ c # s"
  have "be_bytes t @ be_bytes INDEX_PRIMARY @ be_bytes r = [0, 0, 0, 0] @ c # s"
    using a by (simp only: row_key_append)
  then have "be_bytes INDEX_PRIMARY @ be_bytes r = c # s"
    by (rule append_eq_append_conv [THEN iffD1, THEN conjunct2, rotated]) simp
  with that show False by (simp add: INDEX_PRIMARY_def)
qed

lemma system_key_bytes:
  "catalog_key n = [0, 0, 0, 0] @ ascii ''catalog/'' @ n"
  "seq_key t = [0, 0, 0, 0] @ ascii ''seq/'' @ be_bytes t"
  "fdw_key n = [0, 0, 0, 0] @ ascii ''fdw/'' @ n"
  "server_key n = [0, 0, 0, 0] @ ascii ''fsrv/'' @ n"
  "user_mapping_key u s = [0, 0, 0, 0] @ ascii ''umap/'' @ u @ 0 # s"
  "clog_key x = [0, 0, 0, 0] @ ascii ''clog/'' @ be_bytes x"
  "meta_next_table_id_key = [0, 0, 0, 0] @ ascii ''meta/next_table_id''"
  "meta_range_map_key = [0, 0, 0, 0] @ ascii ''meta/range_map''"
  "next_xid_key = [0, 0, 0, 0] @ ascii ''meta/next_xid''"
  "meta_next_global_xid_key = [0, 0, 0, 0] @ ascii ''meta/next_global_xid''"
  "clog_scan_lo_key = [0, 0, 0, 0] @ ascii ''meta/clog_scan_lo''"
  by (simp_all add: key_defs)

lemma row_key_inj: "row_key t r = row_key u s \<longleftrightarrow> t = u \<and> r = s"
  by (simp add: row_key_append)

fun is_row_key :: "storage_key \<Rightarrow> bool" where
  "is_row_key (RowKey _ _) = True"
| "is_row_key _ = False"

lemma system_key_shape:
  "\<not> is_row_key k \<Longrightarrow> \<exists>c s. key_bytes k = [0, 0, 0, 0] @ c # s \<and> c \<noteq> 0"
  by (cases k) (auto simp: system_key_bytes)

lemma key_bytes_inj: "\<lbrakk>key_ok a; key_ok b; key_bytes a = key_bytes b\<rbrakk> \<Longrightarrow> a = b"
proof (cases "is_row_key a"; cases "is_row_key b")
  assume "key_bytes a = key_bytes b" "is_row_key a" "is_row_key b"
  then show ?thesis by (cases a; cases b) (auto simp: row_key_inj)
next
  assume eq: "key_bytes a = key_bytes b" and ra: "is_row_key a" and rb: "\<not> is_row_key b"
  then show ?thesis using system_key_shape [OF rb] row_key_not_system by (cases a) auto
next
  assume eq: "key_bytes a = key_bytes b" and ra: "\<not> is_row_key a" and rb: "is_row_key b"
  then show ?thesis using system_key_shape [OF ra] row_key_not_system by (cases b) (simp_all, metis)
next
  assume ok: "key_ok a" "key_ok b" and eq: "key_bytes a = key_bytes b"
    and r: "\<not> is_row_key a" "\<not> is_row_key b"
  then show ?thesis by (cases a; cases b) (auto simp: system_key_bytes dest: nul_split)
qed



end
