(* ===== verification/KvStore.thy ===== *)
theory KvStore
  imports Keys
begin

text \<open>
  The key-value store: \<open>kv/src/store.rs\<close>. \<open>MemKv\<close> is a \<open>BTreeMap\<close> from keys to values behind one
  lock; the model is the map's contents in key order, a list of pairs whose keys strictly increase.
  The locale \<open>kv_store\<close> is the \<open>Kv\<close> trait with the laws its clients rely on, interpreted on
  \<open>MemKv\<close>. A poisoned lock is not modelled.
\<close>

section \<open>The standard library's \<open>BTreeMap\<close>\<close>

type_synonym ('k, 'v) btree = "('k \<times> 'v) list"

fun bt_insert :: "'k::linorder \<Rightarrow> 'v \<Rightarrow> ('k, 'v) btree \<Rightarrow> ('k, 'v) btree" where
  "bt_insert k v [] = [(k, v)]"
| "bt_insert k v ((k', v') # m) =
     (if k < k' then (k, v) # (k', v') # m
      else if k = k' then (k, v) # m
      else (k', v') # bt_insert k v m)"

definition bt_remove :: "'k \<Rightarrow> ('k, 'v) btree \<Rightarrow> ('k, 'v) btree" where
  "bt_remove k m = filter (\<lambda>(k', _). k' \<noteq> k) m"

definition bt_range_from :: "'k::linorder \<Rightarrow> ('k, 'v) btree \<Rightarrow> ('k, 'v) btree" where
  "bt_range_from start m = dropWhile (\<lambda>(k, _). k < start) m"

text \<open>\<open>range(start..end)\<close> panics when \<open>start > end\<close>: \<open>None\<close>.\<close>

definition bt_range :: "'k::linorder \<Rightarrow> 'k \<Rightarrow> ('k, 'v) btree \<Rightarrow> ('k, 'v) btree option" where
  "bt_range start fin m =
     (if fin < start then None
      else Some (takeWhile (\<lambda>(k, _). k < fin) (bt_range_from start m)))"

definition bt_ok :: "('k::linorder, 'v) btree \<Rightarrow> bool" where
  "bt_ok m \<longleftrightarrow> sorted_wrt (<) (map fst m)"

lemma bt_ok_simps [simp]:
  "bt_ok []"
  "bt_ok ((k, v) # m) \<longleftrightarrow> (\<forall>k' \<in> fst ` set m. k < k') \<and> bt_ok m"
  by (auto simp: bt_ok_def)

lemma fst_bt_insert [simp]: "fst ` set (bt_insert k v m) = insert k (fst ` set m)"
  by (induction k v m rule: bt_insert.induct) auto

lemma bt_ok_insert [inv_intros]: "bt_ok m \<Longrightarrow> bt_ok (bt_insert k v m)"
  by (induction k v m rule: bt_insert.induct) auto

lemma bt_ok_filter [inv_intros]: "bt_ok m \<Longrightarrow> bt_ok (filter P m)"
  by (induction m) (auto)

lemma bt_ok_remove [inv_intros]: "bt_ok m \<Longrightarrow> bt_ok (bt_remove k m)"
  by (simp add: bt_remove_def bt_ok_filter)

lemma bt_ok_distinct: "bt_ok m \<Longrightarrow> distinct (map fst m)"
  by (simp add: bt_ok_def strict_sorted_iff)

lemma map_of_bt_insert [kv_simps]: "map_of (bt_insert k v m) = (map_of m)(k \<mapsto> v)"
  by (induction k v m rule: bt_insert.induct) (auto simp: fun_eq_iff)

lemma map_of_bt_remove [kv_simps]: "map_of (bt_remove k m) = (map_of m)(k := None)"
  by (induction m) (auto simp: bt_remove_def fun_eq_iff)

lemma bt_range_from_filter:
  "bt_ok m \<Longrightarrow> bt_range_from start m = filter (\<lambda>(k, _). start \<le> k) m"
proof (induction m)
  case (Cons p m)
  obtain k v where p: "p = (k, v)" by force
  show ?case
  proof (cases "k < start")
    case True
    with Cons p show ?thesis by (auto simp: bt_range_from_def)
  next
    case False
    with Cons.prems p have "\<forall>(k, _) \<in> set m. start \<le> k" by fastforce
    then have "filter (\<lambda>(k, _). start \<le> k) m = m" by (auto simp: filter_id_conv)
    with False p show ?thesis by (auto simp: bt_range_from_def)
  qed
qed (simp add: bt_range_from_def)

lemma takeWhile_filter_sorted:
  assumes "bt_ok m" and "\<And>k l v w. \<lbrakk>(k, v) \<in> set m; (l, w) \<in> set m; k < l; P (l, w)\<rbrakk> \<Longrightarrow> P (k, v)"
  shows "takeWhile P m = filter P m"
  using assms
proof (induction m)
  case (Cons p m)
  obtain k v where p: "p = (k, v)" by force
  show ?case
  proof (cases "P p")
    case True
    have "takeWhile P m = filter P m"
      using Cons.prems by (intro Cons.IH) (auto simp: p)
    with True show ?thesis by simp
  next
    case False
    have "\<forall>q \<in> set m. \<not> P q"
    proof
      fix q assume q: "q \<in> set m"
      obtain l w where lw: "q = (l, w)" by force
      from Cons.prems(1) p q lw have "k < l" by force
      with Cons.prems(2) [of k v l w] False p q lw show "\<not> P q" by auto
    qed
    with False show ?thesis by (simp add: filter_False)
  qed
qed simp

text \<open>A list of pairs in strictly increasing key order is determined by its elements.\<close>

lemma sorted_pairs_unique:
  fixes xs ys :: "('k :: linorder \<times> 'v) list"
  assumes "sorted_wrt (<) (map fst xs)" and "sorted_wrt (<) (map fst ys)" and "set xs = set ys"
  shows "xs = ys"
  using assms by (intro map_sorted_distinct_set_unique [of fst]) (auto simp: strict_sorted_iff distinct_map inj_on_def)

section \<open>\<open>MemKv\<close>\<close>

datatype write_op = Put bytes bytes | Delete bytes

type_synonym mem_kv = "(bytes, bytes) btree"

definition kv_new :: mem_kv where
  "kv_new = []"

definition kv_get :: "mem_kv \<Rightarrow> bytes \<Rightarrow> bytes option" where
  "kv_get m key = map_of m key"

definition kv_put :: "mem_kv \<Rightarrow> bytes \<Rightarrow> bytes \<Rightarrow> mem_kv" where
  "kv_put m key val = bt_insert key val m"

definition kv_delete :: "mem_kv \<Rightarrow> bytes \<Rightarrow> mem_kv" where
  "kv_delete m key = bt_remove key m"

definition scan_prefix :: "mem_kv \<Rightarrow> bytes \<Rightarrow> (bytes \<times> bytes) list" where
  "scan_prefix m p = takeWhile (\<lambda>(k, _). prefix p k) (bt_range_from p m)"

definition scan_range :: "mem_kv \<Rightarrow> bytes \<Rightarrow> bytes \<Rightarrow> (bytes \<times> bytes) list option" where
  "scan_range m start fin = bt_range start fin m"

fun apply_write :: "mem_kv \<Rightarrow> write_op \<Rightarrow> mem_kv" where
  "apply_write m (Put key val) = bt_insert key val m"
| "apply_write m (Delete key) = bt_remove key m"

definition write_batch :: "mem_kv \<Rightarrow> write_op list \<Rightarrow> mem_kv" where
  "write_batch m ops = foldl apply_write m ops"

definition kv_ok :: "mem_kv \<Rightarrow> bool" where
  "kv_ok m \<longleftrightarrow> bt_ok m"

text \<open>The abstract effect of a batch on the map from keys to values.\<close>

fun op_effect :: "(bytes \<rightharpoonup> bytes) \<Rightarrow> write_op \<Rightarrow> (bytes \<rightharpoonup> bytes)" where
  "op_effect f (Put key val) = f(key \<mapsto> val)"
| "op_effect f (Delete key) = f(key := None)"

fun op_key :: "write_op \<Rightarrow> bytes" where
  "op_key (Put key _) = key"
| "op_key (Delete key) = key"

lemma op_effect_frame: "k \<notin> op_key ` set ops \<Longrightarrow> foldl op_effect f ops k = f k"
proof (induction ops arbitrary: f)
  case (Cons w ops)
  then show ?case by (cases w) auto
qed simp

section \<open>The \<open>Kv\<close> trait\<close>

text \<open>
  What every store promises: reads see the last write to a key, a batch has the effect of its
  operations in order, scans return exactly the stored pairs of the asked range in key order. The
  trait says nothing about a range that ends before it starts.
\<close>

locale kv_store =
  fixes get :: "'s \<Rightarrow> bytes \<Rightarrow> bytes option"
    and put :: "'s \<Rightarrow> bytes \<Rightarrow> bytes \<Rightarrow> 's"
    and delete :: "'s \<Rightarrow> bytes \<Rightarrow> 's"
    and scanp :: "'s \<Rightarrow> bytes \<Rightarrow> (bytes \<times> bytes) list"
    and scanr :: "'s \<Rightarrow> bytes \<Rightarrow> bytes \<Rightarrow> (bytes \<times> bytes) list option"
    and batch :: "'s \<Rightarrow> write_op list \<Rightarrow> 's"
    and ok :: "'s \<Rightarrow> bool"
  assumes get_put: "ok m \<Longrightarrow> get (put m k v) = (get m)(k \<mapsto> v)"
    and get_delete: "ok m \<Longrightarrow> get (delete m k) = (get m)(k := None)"
    and get_batch: "ok m \<Longrightarrow> get (batch m ops) = foldl op_effect (get m) ops"
    and ok_put: "ok m \<Longrightarrow> ok (put m k v)"
    and ok_delete: "ok m \<Longrightarrow> ok (delete m k)"
    and ok_batch: "ok m \<Longrightarrow> ok (batch m ops)"
    and scanp_set: "ok m \<Longrightarrow> set (scanp m p) = {(k, v). get m k = Some v \<and> prefix p k}"
    and scanp_sorted: "ok m \<Longrightarrow> sorted_wrt (<) (map fst (scanp m p))"
    and scanr_total: "\<lbrakk>ok m; a \<le> b\<rbrakk> \<Longrightarrow> \<exists>xs. scanr m a b = Some xs"
    and scanr_set: "\<lbrakk>ok m; a \<le> b; scanr m a b = Some xs\<rbrakk> \<Longrightarrow>
          set xs = {(k, v). get m k = Some v \<and> a \<le> k \<and> k < b}"
    and scanr_sorted: "\<lbrakk>ok m; a \<le> b; scanr m a b = Some xs\<rbrakk> \<Longrightarrow> sorted_wrt (<) (map fst xs)"
begin

lemma get_batch_frame: "\<lbrakk>ok m; k \<notin> op_key ` set ops\<rbrakk> \<Longrightarrow> get (batch m ops) k = get m k"
  by (simp add: get_batch op_effect_frame)

lemma get_batch_append: "ok m \<Longrightarrow> get (batch m (ops @ ops')) = foldl op_effect (get (batch m ops)) ops'"
  by (simp add: get_batch)

lemma get_batch_put [kv_simps]: "ok m \<Longrightarrow> get (batch m (ops @ [Put k v])) k = Some v"
  by (simp add: get_batch)

lemma scanp_ext:
  assumes "ok m" and "ok m'" and "\<And>k. prefix p k \<Longrightarrow> get m k = get m' k"
  shows "scanp m p = scanp m' p"
proof -
  have "set (scanp m p) = set (scanp m' p)"
    using assms(3) by (auto simp: scanp_set [OF assms(1)] scanp_set [OF assms(2)])
  then show ?thesis
    using scanp_sorted [OF assms(1)] scanp_sorted [OF assms(2)] by (intro sorted_pairs_unique)
qed

lemma scanp_batch_frame:
  assumes "ok m" and "\<forall>w \<in> set ops. \<not> prefix p (op_key w)"
  shows "scanp (batch m ops) p = scanp m p"
proof (rule scanp_ext [OF ok_batch [OF assms(1)] assms(1)])
  fix k assume "prefix p k"
  with assms(2) have "k \<notin> op_key ` set ops" by auto
  then show "get (batch m ops) k = get m k" by (rule get_batch_frame [OF assms(1)])
qed

lemma scanp_Nil_iff: "ok m \<Longrightarrow> scanp m p = [] \<longleftrightarrow> (\<forall>k. prefix p k \<longrightarrow> get m k = None)"
  using scanp_set [of m p] by (auto simp flip: set_empty2)

end

lemma kv_get_put: "kv_get (kv_put m k v) = (kv_get m)(k \<mapsto> v)"
  by (simp add: kv_get_def kv_put_def kv_simps fun_eq_iff)

lemma kv_get_delete: "kv_get (kv_delete m k) = (kv_get m)(k := None)"
  by (simp add: kv_get_def kv_delete_def kv_simps fun_eq_iff)

lemma kv_get_apply_write: "kv_get (apply_write m w) = op_effect (kv_get m) w"
  by (cases w) (simp_all add: kv_get_def kv_simps fun_eq_iff)

lemma write_batch_simps [simp]:
  "write_batch m [] = m"
  "write_batch m (w # ops) = write_batch (apply_write m w) ops"
  "write_batch m (ops @ ops') = write_batch (write_batch m ops) ops'"
  by (simp_all add: write_batch_def)

lemma kv_get_batch: "kv_get (write_batch m ops) = foldl op_effect (kv_get m) ops"
  by (induction ops arbitrary: m) (simp_all add: kv_get_apply_write)

lemma kv_ok_apply_write [inv_intros]: "kv_ok m \<Longrightarrow> kv_ok (apply_write m w)"
  by (cases w) (simp_all add: kv_ok_def inv_intros)

lemma kv_ok_batch [inv_intros]: "kv_ok m \<Longrightarrow> kv_ok (write_batch m ops)"
  by (induction ops arbitrary: m) (simp_all add: inv_intros)

lemma kv_ok_new [inv_intros, simp]: "kv_ok kv_new"
  by (simp add: kv_ok_def kv_new_def)

lemma kv_ok_put [inv_intros]: "kv_ok m \<Longrightarrow> kv_ok (kv_put m k v)"
  by (simp add: kv_ok_def kv_put_def inv_intros)

lemma kv_ok_delete [inv_intros]: "kv_ok m \<Longrightarrow> kv_ok (kv_delete m k)"
  by (simp add: kv_ok_def kv_delete_def inv_intros)

lemma kv_get_set: "kv_ok m \<Longrightarrow> kv_get m k = Some v \<longleftrightarrow> (k, v) \<in> set m"
  by (simp add: kv_ok_def kv_get_def bt_ok_distinct)

lemma scan_prefix_filter:
  assumes "kv_ok m"
  shows "scan_prefix m p = filter (\<lambda>(k, _). prefix p k) m"
proof -
  have ok: "bt_ok (filter (\<lambda>(k, _). p \<le> k) m)"
    using assms by (simp add: kv_ok_def bt_ok_filter)
  have "takeWhile (\<lambda>(k, _). prefix p k) (filter (\<lambda>(k, _). p \<le> k) m)
      = filter (\<lambda>(k, _). prefix p k) (filter (\<lambda>(k, _). p \<le> k) m)"
    using prefix_convex less_imp_le by (intro takeWhile_filter_sorted [OF ok]) fastforce
  also have "\<dots> = filter (\<lambda>(k, _). prefix p k) m"
    by (auto simp: prefix_le intro: filter_cong)
  finally show ?thesis
    using assms by (simp add: scan_prefix_def bt_range_from_filter kv_ok_def)
qed

lemma scan_range_filter:
  assumes "kv_ok m" and "a \<le> b"
  shows "scan_range m a b = Some (filter (\<lambda>(k, _). a \<le> k \<and> k < b) m)"
proof -
  have ok: "bt_ok (filter (\<lambda>(k, _). a \<le> k) m)"
    using assms by (simp add: kv_ok_def bt_ok_filter)
  have "takeWhile (\<lambda>(k, _). k < b) (filter (\<lambda>(k, _). a \<le> k) m)
      = filter (\<lambda>(k, _). k < b) (filter (\<lambda>(k, _). a \<le> k) m)"
    by (intro takeWhile_filter_sorted [OF ok]) auto
  also have "\<dots> = filter (\<lambda>(k, _). a \<le> k \<and> k < b) m"
    by (auto intro: filter_cong)
  finally show ?thesis
    using assms by (simp add: scan_range_def bt_range_def bt_range_from_filter kv_ok_def)
qed

lemma bt_ok_sorted_filter: "kv_ok m \<Longrightarrow> sorted_wrt (<) (map fst (filter P m))"
  using bt_ok_filter [of m P] by (simp add: kv_ok_def bt_ok_def)

interpretation memkv: kv_store kv_get kv_put kv_delete scan_prefix scan_range write_batch kv_ok
proof
  show "\<exists>xs. scan_range m a b = Some xs" if "kv_ok m" "a \<le> b" for m a b
    using that by (simp add: scan_range_filter)
  fix m a b xs
  assume m: "kv_ok m" and "a \<le> b" and xs: "scan_range m a b = Some xs"
  with m xs have eq: "xs = filter (\<lambda>(k, _). a \<le> k \<and> k < b) m" by (simp add: scan_range_filter)
  show "set xs = {(k, v). kv_get m k = Some v \<and> a \<le> k \<and> k < b}"
    using m by (auto simp: eq kv_get_set)
  show "sorted_wrt (<) (map fst xs)"
    using m by (simp add: eq bt_ok_sorted_filter)
qed (auto simp: kv_get_put kv_get_delete kv_get_batch scan_prefix_filter kv_get_set bt_ok_sorted_filter
       intro: inv_intros)

text \<open>C37. A batch is all of its operations in order: after \<open>write_batch\<close> every key reads as the last
  operation on it left it, and a key no operation names reads as before. Prefix scans return exactly
  the stored pairs whose key has the prefix, in strictly increasing key order.\<close>

theorem memkv_refines_map:
  assumes "kv_ok m"
  shows "kv_ok (write_batch m ops)
    \<and> kv_get (write_batch m ops) = foldl op_effect (kv_get m) ops
    \<and> set (scan_prefix (write_batch m ops) p)
        = {(k, v). foldl op_effect (kv_get m) ops k = Some v \<and> prefix p k}
    \<and> sorted_wrt (<) (map fst (scan_prefix (write_batch m ops) p))"
  using assms
  by (simp add: kv_get_batch memkv.scanp_set memkv.scanp_sorted kv_ok_batch)

theorem memkv_refines_map_witness:
  "kv_ok kv_new
   \<and> set (scan_prefix (write_batch kv_new [Put [1, 2] [7], Put [1] [8], Put [3] [9], Delete [1, 2]]) [1]) = {([1], [8])}"
proof -
  have "kv_get kv_new = Map.empty" by (simp add: kv_get_def kv_new_def fun_eq_iff)
  then show ?thesis
    using memkv_refines_map [OF kv_ok_new, of "[Put [1, 2] [7], Put [1] [8], Put [3] [9], Delete [1, 2]]" "[1]"]
    by (auto split: if_splits)
qed

end
