(* ===== verification/RustStd.thy ===== *)
theory RustStd
  imports Prelude "HOL-Library.Signed_Division"
begin

text \<open>
  The parts of Rust's standard library the program's text handling uses: decimal digits and their
  value, \<open>str::trim\<close>, UTF-8 validation, \<open>{:?}\<close> formatting, IEEE-754 comparison of \<open>f64\<close> bit
  patterns. A string is its UTF-8 bytes; an error message is a \<open>string\<close> whose characters are those
  bytes.
\<close>

section \<open>Strings\<close>

definition chars_of :: "bytes \<Rightarrow> string" where
  "chars_of bs = map (\<lambda>b. char_of (unat b)) bs"

lemma chars_of_ascii [simp]: "chars_of (ascii s) = s"
  by (simp add: chars_of_def ascii_def comp_def)

lemma ascii_append [simp]: "ascii (s @ t) = ascii s @ ascii t"
  by (simp add: ascii_def)

text \<open>The UTF-8 encodings of the characters with Unicode property \<open>White_Space\<close>.\<close>

definition whitespace :: "bytes list" where
  "whitespace =
     [[0x09], [0x0A], [0x0B], [0x0C], [0x0D], [0x20], [0xC2, 0x85], [0xC2, 0xA0], [0xE1, 0x9A, 0x80],
      [0xE2, 0x80, 0x80], [0xE2, 0x80, 0x81], [0xE2, 0x80, 0x82], [0xE2, 0x80, 0x83], [0xE2, 0x80, 0x84],
      [0xE2, 0x80, 0x85], [0xE2, 0x80, 0x86], [0xE2, 0x80, 0x87], [0xE2, 0x80, 0x88], [0xE2, 0x80, 0x89],
      [0xE2, 0x80, 0x8A], [0xE2, 0x80, 0xA8], [0xE2, 0x80, 0xA9], [0xE2, 0x80, 0xAF], [0xE2, 0x81, 0x9F],
      [0xE3, 0x80, 0x80]]"

text \<open>\<open>ws\<close> is the character at the front of \<open>s\<close>, where it is one of those given.\<close>

definition front_char :: "bytes list \<Rightarrow> bytes \<Rightarrow> bytes option" where
  "front_char cs s = find (\<lambda>w. w \<noteq> [] \<and> prefix w s) cs"

lemma front_char_Some: "front_char cs s = Some w \<Longrightarrow> w \<noteq> [] \<and> prefix w s \<and> w \<in> set cs"
  by (auto simp: front_char_def find_Some_iff)

function strip_front :: "bytes list \<Rightarrow> bytes \<Rightarrow> bytes" where
  "strip_front cs s =
     (case front_char cs s of None \<Rightarrow> s | Some w \<Rightarrow> strip_front cs (drop (length w) s))"
  by pat_completeness auto
termination
  by (relation "measure (\<lambda>(_, s). length s)")
     (auto dest!: front_char_Some simp: prefix_def)

declare strip_front.simps [simp del]

definition trim_start :: "bytes \<Rightarrow> bytes" where
  "trim_start s = strip_front whitespace s"

definition trim_end :: "bytes \<Rightarrow> bytes" where
  "trim_end s = rev (strip_front (map rev whitespace) (rev s))"

definition trim :: "bytes \<Rightarrow> bytes" where
  "trim s = trim_end (trim_start s)"

lemma strip_front_id: "front_char cs s = None \<Longrightarrow> strip_front cs s = s"
  by (simp add: strip_front.simps)

text \<open>A byte that neither starts nor ends a whitespace character.\<close>

definition solid :: "byte \<Rightarrow> bool" where
  "solid b \<longleftrightarrow> b \<notin> hd ` set whitespace \<and> b \<notin> last ` set whitespace"

lemma whitespace_nonempty: "w \<in> set whitespace \<Longrightarrow> w \<noteq> []"
  by (auto simp: whitespace_def)

lemma trim_solid:
  assumes "s \<noteq> []" and "solid (hd s)" and "solid (last s)"
  shows "trim s = s"
proof -
  have "front_char whitespace s = None"
    using assms(1,2) whitespace_nonempty
    by (auto simp: front_char_def find_None_iff solid_def prefix_def hd_append)
  then have front: "trim_start s = s" by (simp add: trim_start_def strip_front_id)
  have "front_char (map rev whitespace) (rev s) = None"
  proof -
    have "\<not> prefix (rev w) (rev s)" if w: "w \<in> set whitespace" for w
    proof
      assume "prefix (rev w) (rev s)"
      then obtain z where "rev s = rev w @ z" by (auto simp: prefix_def)
      then have "s = rev z @ w" by (metis rev_append rev_rev_ident)
      with w whitespace_nonempty have "last s = last w" by auto
      with assms(3) w show False by (auto simp: solid_def)
    qed
    then show ?thesis by (auto simp: front_char_def find_None_iff)
  qed
  then show ?thesis by (simp add: trim_def front trim_end_def strip_front_id)
qed

section \<open>Decimal digits\<close>

definition is_digit :: "byte \<Rightarrow> bool" where
  "is_digit b \<longleftrightarrow> 0x30 \<le> b \<and> b \<le> 0x39"

definition digits_val :: "bytes \<Rightarrow> nat" where
  "digits_val bs = foldl (\<lambda>a b. 10 * a + (unat b - 48)) 0 bs"

lemma digits_val_snoc [simp]:
  "digits_val [] = 0" "digits_val (bs @ [b]) = 10 * digits_val bs + (unat b - 48)"
  by (simp_all add: digits_val_def)

text \<open>The bytes of \<open>format!("{n}")\<close>.\<close>

definition dec_bytes :: "nat \<Rightarrow> bytes" where
  "dec_bytes n = ascii (dec_nat n)"

lemma dec_bytes_simps:
  "dec_bytes n = (if n < 10 then [word_of_nat (48 + n)] else dec_bytes (n div 10) @ [word_of_nat (48 + n mod 10)])"
proof (cases "n < 10")
  case True
  then show ?thesis by (simp add: dec_bytes_def dec_nat.simps [of n] of_char_of take_bit_eq_mod)
next
  case False
  have "(48 + n mod 10) < 256" by (simp add: trans_less_add1)
  then have "(of_char (char_of (48 + n mod 10) :: char) :: nat) = 48 + n mod 10"
    by (simp add: of_char_of)
  then show ?thesis using False by (simp add: dec_bytes_def dec_nat.simps [of n])
qed

lemma unat_digit: "d < 10 \<Longrightarrow> unat (word_of_nat (48 + d) :: byte) = 48 + d"
  by (simp only: unat_of_nat) simp

lemma is_digit_unat: "is_digit b \<longleftrightarrow> 48 \<le> unat b \<and> unat b \<le> 57"
  by (simp add: is_digit_def word_le_nat_alt)

lemma dec_bytes_props:
  "digits_val (dec_bytes n) = n \<and> dec_bytes n \<noteq> [] \<and> list_all is_digit (dec_bytes n)"
proof (induction n rule: less_induct)
  case (less n)
  show ?case
  proof (cases "n < 10")
    case True
    then have u: "unat (word_of_nat (48 + n) :: byte) = 48 + n" by (rule unat_digit)
    from True have d: "dec_bytes n = [] @ [word_of_nat (48 + n)]" by (simp add: dec_bytes_simps)
    have "digits_val (dec_bytes n) = n"
      unfolding d digits_val_snoc u by simp
    moreover have "is_digit (word_of_nat (48 + n))"
      unfolding is_digit_unat u using True by simp
    ultimately show ?thesis by (simp add: d)
  next
    case False
    then have IH: "digits_val (dec_bytes (n div 10)) = n div 10" "list_all is_digit (dec_bytes (n div 10))"
      using less [of "n div 10"] by auto
    have u: "unat (word_of_nat (48 + n mod 10) :: byte) = 48 + n mod 10" by (rule unat_digit) simp
    from False have d: "dec_bytes n = dec_bytes (n div 10) @ [word_of_nat (48 + n mod 10)]"
      by (simp add: dec_bytes_simps [of n])
    have "digits_val (dec_bytes n) = n"
      unfolding d digits_val_snoc u IH by simp
    moreover have "is_digit (word_of_nat (48 + n mod 10))"
      unfolding is_digit_unat u by simp
    ultimately show ?thesis using IH by (simp add: d)
  qed
qed

lemmas digits_val_dec_bytes [simp] = dec_bytes_props [THEN conjunct1]
  and dec_bytes_nonempty [simp] = dec_bytes_props [THEN conjunct2, THEN conjunct1]
  and dec_bytes_digits [simp] = dec_bytes_props [THEN conjunct2, THEN conjunct2]

lemma digits_val_append: "digits_val (xs @ ys) = digits_val xs * 10 ^ length ys + digits_val ys"
proof (induction ys rule: rev_induct)
  case (snoc y ys)
  have "digits_val (xs @ ys @ [y]) = 10 * digits_val (xs @ ys) + (unat y - 48)"
    by (metis append.assoc digits_val_snoc(2))
  with snoc show ?case by (simp add: algebra_simps)
qed simp

lemma digits_val_zeros: "digits_val (replicate n 0x30 @ ys) = digits_val ys"
proof -
  have "digits_val (replicate n (0x30 :: byte)) = 0"
  proof (induction n)
    case (Suc n)
    have "replicate (Suc n) (0x30 :: byte) = replicate n 0x30 @ [0x30]"
      by (simp add: replicate_append_same)
    with Suc show ?case by (simp del: replicate.simps)
  qed simp
  then show ?thesis by (simp add: digits_val_append)
qed

lemma dec_bytes_inj [simp]: "dec_bytes a = dec_bytes b \<longleftrightarrow> a = b"
  by (metis digits_val_dec_bytes)

lemma digit_solid: "is_digit b \<Longrightarrow> solid b"
  by (auto simp: is_digit_unat solid_def whitespace_def)

section \<open>UTF-8 validation\<close>

definition cont :: "byte \<Rightarrow> bool" where
  "cont b \<longleftrightarrow> 0x80 \<le> b \<and> b \<le> 0xBF"

text \<open>\<open>from_utf8\<close> accepts exactly the well-formed byte sequences of the Unicode standard: no
  overlong form, no surrogate, nothing above \<open>U+10FFFF\<close>.\<close>

fun utf8_ok :: "bytes \<Rightarrow> bool" where
  "utf8_ok [] = True"
| "utf8_ok [b] = (b < 0x80)"
| "utf8_ok [b, c] =
     (if b < 0x80 then utf8_ok [c] else 0xC2 \<le> b \<and> b \<le> 0xDF \<and> cont c)"
| "utf8_ok [b, c, d] =
     (if b < 0x80 then utf8_ok [c, d]
      else if 0xC2 \<le> b \<and> b \<le> 0xDF then cont c \<and> utf8_ok [d]
      else if b = 0xE0 then 0xA0 \<le> c \<and> c \<le> 0xBF \<and> cont d
      else if b = 0xED then 0x80 \<le> c \<and> c \<le> 0x9F \<and> cont d
      else 0xE1 \<le> b \<and> b \<le> 0xEF \<and> cont c \<and> cont d)"
| "utf8_ok (b # c # d # e # r) =
     (if b < 0x80 then utf8_ok (c # d # e # r)
      else if 0xC2 \<le> b \<and> b \<le> 0xDF then cont c \<and> utf8_ok (d # e # r)
      else if b = 0xE0 then 0xA0 \<le> c \<and> c \<le> 0xBF \<and> cont d \<and> utf8_ok (e # r)
      else if b = 0xED then 0x80 \<le> c \<and> c \<le> 0x9F \<and> cont d \<and> utf8_ok (e # r)
      else if 0xE1 \<le> b \<and> b \<le> 0xEF then cont c \<and> cont d \<and> utf8_ok (e # r)
      else if b = 0xF0 then 0x90 \<le> c \<and> c \<le> 0xBF \<and> cont d \<and> cont e \<and> utf8_ok r
      else if b = 0xF4 then 0x80 \<le> c \<and> c \<le> 0x8F \<and> cont d \<and> cont e \<and> utf8_ok r
      else 0xF1 \<le> b \<and> b \<le> 0xF3 \<and> cont c \<and> cont d \<and> cont e \<and> utf8_ok r)"

lemma utf8_ascii_Cons: "b < 0x80 \<Longrightarrow> utf8_ok (b # r) = utf8_ok r"
proof -
  assume b: "b < 0x80"
  consider "r = []" | c where "r = [c]" | c d where "r = [c, d]" | c d e r' where "r = c # d # e # r'"
    by (metis neq_Nil_conv)
  then show ?thesis using b by cases auto
qed

lemma utf8_all_ascii: "list_all (\<lambda>b. b < 0x80) r \<Longrightarrow> utf8_ok r"
  by (induction r) (simp_all add: utf8_ascii_Cons)

section \<open>Debug formatting\<close>

text \<open>\<open>{b:?}\<close> of a byte slice.\<close>

fun comma_sep :: "string list \<Rightarrow> string" where
  "comma_sep [] = []"
| "comma_sep [x] = x"
| "comma_sep (x # y # xs) = x @ '', '' @ comma_sep (y # xs)"

definition fmt_bytes_debug :: "bytes \<Rightarrow> string" where
  "fmt_bytes_debug bs = ''['' @ comma_sep (map (dec_nat \<circ> unat) bs) @ '']''"

text \<open>
  \<open>{s:?}\<close> of a string: escapes as in \<open>str::escape_debug\<close>. Exact for ASCII; bytes of other
  characters are copied.
\<close>

fun hex_nat :: "nat \<Rightarrow> string" where
  "hex_nat n = (if n < 16 then [''0123456789abcdef'' ! n] else hex_nat (n div 16) @ [''0123456789abcdef'' ! (n mod 16)])"

declare hex_nat.simps [simp del]

definition escape_byte :: "byte \<Rightarrow> string" where
  "escape_byte b =
     (if b = 0x00 then [CHR 0x5C, CHR ''0'']
      else if b = 0x09 then [CHR 0x5C, CHR ''t'']
      else if b = 0x0A then [CHR 0x5C, CHR ''n'']
      else if b = 0x0D then [CHR 0x5C, CHR ''r'']
      else if b = 0x22 then [CHR 0x5C, CHR 0x22]
      else if b = 0x5C then [CHR 0x5C, CHR 0x5C]
      else if b < 0x20 \<or> b = 0x7F then [CHR 0x5C, CHR ''u'', CHR ''{''] @ hex_nat (unat b) @ [CHR ''}'']
      else [char_of (unat b)])"

definition fmt_str_debug :: "bytes \<Rightarrow> string" where
  "fmt_str_debug s = [CHR 0x22] @ concat (map escape_byte s) @ [CHR 0x22]"

section \<open>Floats\<close>

text \<open>An \<open>f64\<close> is its IEEE-754 bit pattern.\<close>

type_synonym f64 = "64 word"

definition f64_is_nan :: "f64 \<Rightarrow> bool" where
  "f64_is_nan f \<longleftrightarrow> 0x7FF0000000000000 < unat f mod 2 ^ 63"

definition f64_is_zero :: "f64 \<Rightarrow> bool" where
  "f64_is_zero f \<longleftrightarrow> unat f mod 2 ^ 63 = 0"

definition f64_eq :: "f64 \<Rightarrow> f64 \<Rightarrow> bool" where
  "f64_eq a b \<longleftrightarrow> \<not> f64_is_nan a \<and> \<not> f64_is_nan b \<and> (a = b \<or> f64_is_zero a \<and> f64_is_zero b)"

end
