(* ===== verification/PgTypes.thy ===== *)
theory PgTypes
  imports RustStd
begin

text \<open>
  The type layer: \<open>pgtypes/src/error.rs\<close>, \<open>pgtypes/src/datum.rs\<close> and the \<open>Interval\<close> of
  \<open>pgtypes/src/datetime.rs\<close>. Date and time values belong to the \<open>jiff\<close> library and are elements of
  a type variable; what the code calls of \<open>jiff\<close> and of \<open>bigdecimal\<close> is the record \<open>ext\<close>, which
  every definition that uses it takes as an argument. The lemmas say that grouping equality of values
  is an equivalence and agrees with hashing.
\<close>

section \<open>Errors\<close>

datatype type_error =
    Overflow
  | DivisionByZero
  | InvalidText string string
  | TypeMismatch string
  | InvalidEscape
  | CannotCast string string
  | Domain string string
  | InvalidDatetimeFormat string string
  | DatetimeFieldOverflow string

fun type_error_display :: "type_error \<Rightarrow> string" where
  "type_error_display Overflow = ''integer out of range''"
| "type_error_display DivisionByZero = ''division by zero''"
| "type_error_display (InvalidText t v) = ''invalid input syntax for type '' @ t @ '': '' @ [CHR 0x22] @ v @ [CHR 0x22]"
| "type_error_display (TypeMismatch m) = m"
| "type_error_display InvalidEscape = ''LIKE pattern must not end with escape character''"
| "type_error_display (CannotCast from to) = ''cannot cast type '' @ from @ '' to '' @ to"
| "type_error_display (Domain _ m) = m"
| "type_error_display (InvalidDatetimeFormat t v) = ''invalid input syntax for type '' @ t @ '': '' @ [CHR 0x22] @ v @ [CHR 0x22]"
| "type_error_display (DatetimeFieldOverflow v) = ''date/time field value out of range: '' @ [CHR 0x22] @ v @ [CHR 0x22]"

fun sqlstate :: "type_error \<Rightarrow> string" where
  "sqlstate Overflow = ''22003''"
| "sqlstate DivisionByZero = ''22012''"
| "sqlstate (InvalidText _ _) = ''22P02''"
| "sqlstate (TypeMismatch _) = ''42804''"
| "sqlstate InvalidEscape = ''22025''"
| "sqlstate (CannotCast _ _) = ''42846''"
| "sqlstate (Domain st _) = st"
| "sqlstate (InvalidDatetimeFormat _ _) = ''22007''"
| "sqlstate (DatetimeFieldOverflow _) = ''22008''"

section \<open>Column types\<close>

record typmod =
  precision :: u16
  scale :: u16

datatype column_type =
    TBool
  | TInt4
  | TInt8
  | TText
  | TFloat8
  | TNumeric "typmod option"
  | TDate
  | TTime
  | TTimestamp
  | TTimestamptz
  | TInterval
  | TBytea

definition ascii_lower :: "byte \<Rightarrow> byte" where
  "ascii_lower b = (if 0x41 \<le> b \<and> b \<le> 0x5A then b + 0x20 else b)"

definition from_sql_name :: "bytes \<Rightarrow> column_type option" where
  "from_sql_name name =
     (let n = map ascii_lower name in
      if n \<in> {ascii ''int4'', ascii ''integer'', ascii ''int''} then Some TInt4
      else if n \<in> {ascii ''int8'', ascii ''bigint''} then Some TInt8
      else if n = ascii ''text'' then Some TText
      else if n \<in> {ascii ''bool'', ascii ''boolean''} then Some TBool
      else if n \<in> {ascii ''float8'', ascii ''float'', ascii ''double precision''} then Some TFloat8
      else if n \<in> {ascii ''numeric'', ascii ''decimal''} then Some (TNumeric None)
      else if n = ascii ''date'' then Some TDate
      else if n \<in> {ascii ''time'', ascii ''time without time zone''} then Some TTime
      else if n \<in> {ascii ''timestamp'', ascii ''timestamp without time zone''} then Some TTimestamp
      else if n \<in> {ascii ''timestamptz'', ascii ''timestamp with time zone''} then Some TTimestamptz
      else if n = ascii ''interval'' then Some TInterval
      else if n = ascii ''bytea'' then Some TBytea
      else None)"

fun type_oid :: "column_type \<Rightarrow> u32" where
  "type_oid TBool = 16"
| "type_oid TInt8 = 20"
| "type_oid TInt4 = 23"
| "type_oid TText = 25"
| "type_oid TFloat8 = 701"
| "type_oid (TNumeric _) = 1700"
| "type_oid TDate = 1082"
| "type_oid TTime = 1083"
| "type_oid TTimestamp = 1114"
| "type_oid TTimestamptz = 1184"
| "type_oid TInterval = 1186"
| "type_oid TBytea = 17"

fun type_name :: "column_type \<Rightarrow> string" where
  "type_name TBool = ''boolean''"
| "type_name TInt8 = ''bigint''"
| "type_name TInt4 = ''integer''"
| "type_name TText = ''text''"
| "type_name TFloat8 = ''double precision''"
| "type_name (TNumeric _) = ''numeric''"
| "type_name TDate = ''date''"
| "type_name TTime = ''time without time zone''"
| "type_name TTimestamp = ''timestamp without time zone''"
| "type_name TTimestamptz = ''timestamp with time zone''"
| "type_name TInterval = ''interval''"
| "type_name TBytea = ''bytea''"

fun type_size :: "column_type \<Rightarrow> int" where
  "type_size TBool = 1"
| "type_size TInt8 = 8"
| "type_size TInt4 = 4"
| "type_size TText = -1"
| "type_size TFloat8 = 8"
| "type_size (TNumeric _) = -1"
| "type_size TDate = 4"
| "type_size TTime = 8"
| "type_size TTimestamp = 8"
| "type_size TTimestamptz = 8"
| "type_size TInterval = 16"
| "type_size TBytea = -1"

fun is_numeric :: "column_type \<Rightarrow> bool" where
  "is_numeric (TNumeric _) = True"
| "is_numeric _ = False"

section \<open>Intervals\<close>

record interval =
  months :: i32
  days :: i32
  micros :: i64

definition USECS_PER_DAY :: int where
  "USECS_PER_DAY = 86400000000"

text \<open>The \<open>i128\<close> arithmetic cannot overflow: the result is below \<open>2 ^ 80\<close> in absolute value.\<close>

definition canonical_micros :: "interval \<Rightarrow> int" where
  "canonical_micros iv = (sint (months iv) * 30 + sint (days iv)) * USECS_PER_DAY + sint (micros iv)"

definition interval_eq :: "interval \<Rightarrow> interval \<Rightarrow> bool" where
  "interval_eq a b \<longleftrightarrow> canonical_micros a = canonical_micros b"

definition interval_less :: "interval \<Rightarrow> interval \<Rightarrow> bool" where
  "interval_less a b \<longleftrightarrow> canonical_micros a < canonical_micros b"

section \<open>Third-party values\<close>

text \<open>A \<open>BigDecimal\<close> is \<open>mantissa * 10 ^ - exponent\<close>, as \<open>as_bigint_and_exponent\<close> returns it.\<close>

record bigdecimal =
  mant :: int
  expo :: int

text \<open>\<open>==\<close> on \<open>BigDecimal\<close> compares values, not representations.\<close>

definition bd_eq :: "bigdecimal \<Rightarrow> bigdecimal \<Rightarrow> bool" where
  "bd_eq a b \<longleftrightarrow>
     mant a * 10 ^ nat (expo b - expo a) = mant b * 10 ^ nat (expo a - expo b)"

text \<open>
  The calls into \<open>jiff\<close> and \<open>bigdecimal\<close>:
  \<^item> \<open>date_days d\<close>: \<open>d.since((Unit::Day, 2000-01-01))\<close>, its days;
  \<^item> \<open>date_of_second s\<close>: \<open>Timestamp::from_second(s)\<close>, then its UTC date;
  \<^item> \<open>time_hour\<close>, \<open>time_minute\<close>, \<open>time_second\<close>, \<open>time_subsec\<close>: the accessors of \<open>civil::Time\<close>;
  \<^item> \<open>time_new\<close>: \<open>Time::new(hour, minute, second, nanosecond)\<close>;
  \<^item> \<open>datetime_micros ts\<close>: \<open>ts.since((Unit::Microsecond, 2000-01-01T00:00:00))\<close>, its microseconds;
  \<^item> \<open>datetime_of_micros m\<close>: \<open>Timestamp::from_microsecond(m)\<close>, then its UTC datetime;
  \<^item> \<open>ts_as_micros\<close>, \<open>ts_of_micros\<close>: \<open>Timestamp::as_microsecond\<close> and \<open>from_microsecond\<close>;
  \<^item> \<open>bd_from_str\<close>, \<open>bd_with_scale\<close>, \<open>bd_normalized\<close>: \<open>BigDecimal::from_str\<close>, \<open>with_scale\<close> and
    the text of \<open>normalized\<close>.
\<close>

record 'j ext =
  date_days :: "'j \<Rightarrow> i32"
  date_of_second :: "i64 \<Rightarrow> 'j option"
  time_hour :: "'j \<Rightarrow> i8"
  time_minute :: "'j \<Rightarrow> i8"
  time_second :: "'j \<Rightarrow> i8"
  time_subsec :: "'j \<Rightarrow> i32"
  time_new :: "i8 \<Rightarrow> i8 \<Rightarrow> i8 \<Rightarrow> i32 \<Rightarrow> 'j option"
  datetime_micros :: "'j \<Rightarrow> i64"
  datetime_of_micros :: "i64 \<Rightarrow> 'j option"
  ts_as_micros :: "'j \<Rightarrow> i64"
  ts_of_micros :: "i64 \<Rightarrow> 'j option"
  bd_from_str :: "bytes \<Rightarrow> bigdecimal option"
  bd_with_scale :: "bigdecimal \<Rightarrow> int \<Rightarrow> bigdecimal"
  bd_normalized :: "bigdecimal \<Rightarrow> bytes"

section \<open>Values\<close>

datatype 'j datum =
    Null
  | Bool bool
  | Int4 i32
  | Int8 i64
  | Text bytes
  | Float8 f64
  | Numeric bigdecimal
  | Date 'j
  | Time 'j
  | Timestamp 'j
  | Timestamptz 'j
  | Interval interval
  | Bytea bytes

text \<open>\<open>PartialEq for Datum\<close>: grouping equality.\<close>

fun datum_eq :: "'j datum \<Rightarrow> 'j datum \<Rightarrow> bool" where
  "datum_eq Null d = (case d of Null \<Rightarrow> True | _ \<Rightarrow> False)"
| "datum_eq (Bool a) d = (case d of Bool b \<Rightarrow> a = b | _ \<Rightarrow> False)"
| "datum_eq (Int4 a) d = (case d of Int4 b \<Rightarrow> a = b | _ \<Rightarrow> False)"
| "datum_eq (Int8 a) d = (case d of Int8 b \<Rightarrow> a = b | _ \<Rightarrow> False)"
| "datum_eq (Text a) d = (case d of Text b \<Rightarrow> a = b | _ \<Rightarrow> False)"
| "datum_eq (Float8 a) d = (case d of Float8 b \<Rightarrow> f64_eq a b \<or> f64_is_nan a \<and> f64_is_nan b | _ \<Rightarrow> False)"
| "datum_eq (Numeric a) d = (case d of Numeric b \<Rightarrow> bd_eq a b | _ \<Rightarrow> False)"
| "datum_eq (Date a) d = (case d of Date b \<Rightarrow> a = b | _ \<Rightarrow> False)"
| "datum_eq (Time a) d = (case d of Time b \<Rightarrow> a = b | _ \<Rightarrow> False)"
| "datum_eq (Timestamp a) d = (case d of Timestamp b \<Rightarrow> a = b | _ \<Rightarrow> False)"
| "datum_eq (Timestamptz a) d = (case d of Timestamptz b \<Rightarrow> a = b | _ \<Rightarrow> False)"
| "datum_eq (Interval a) d = (case d of Interval b \<Rightarrow> interval_eq a b | _ \<Rightarrow> False)"
| "datum_eq (Bytea a) d = (case d of Bytea b \<Rightarrow> a = b | _ \<Rightarrow> False)"

fun column_type_of :: "'j datum \<Rightarrow> column_type option" where
  "column_type_of Null = None"
| "column_type_of (Bool _) = Some TBool"
| "column_type_of (Int4 _) = Some TInt4"
| "column_type_of (Int8 _) = Some TInt8"
| "column_type_of (Text _) = Some TText"
| "column_type_of (Float8 _) = Some TFloat8"
| "column_type_of (Numeric _) = Some (TNumeric None)"
| "column_type_of (Date _) = Some TDate"
| "column_type_of (Time _) = Some TTime"
| "column_type_of (Timestamp _) = Some TTimestamp"
| "column_type_of (Timestamptz _) = Some TTimestamptz"
| "column_type_of (Interval _) = Some TInterval"
| "column_type_of (Bytea _) = Some TBytea"

fun is_null :: "'j datum \<Rightarrow> bool" where
  "is_null Null = True"
| "is_null _ = False"

text \<open>
  \<open>Hash for Datum\<close>: what the implementation feeds the hasher, after the variant's discriminant.
\<close>

datatype 'j hash_item = HBool bool | HI32 i32 | HI64 i64 | HStr bytes | HBits u64 | HJiff 'j | HI128 int

fun datum_hash :: "'j ext \<Rightarrow> 'j datum \<Rightarrow> nat \<times> 'j hash_item list" where
  "datum_hash E Null = (0, [])"
| "datum_hash E (Bool b) = (1, [HBool b])"
| "datum_hash E (Int4 n) = (2, [HI32 n])"
| "datum_hash E (Int8 n) = (3, [HI64 n])"
| "datum_hash E (Text s) = (4, [HStr s])"
| "datum_hash E (Float8 f) =
     (5, [HBits (if f64_is_nan f then 0x7FF8000000000000 else if f64_is_zero f then 0 else f)])"
| "datum_hash E (Numeric d) = (6, [HStr (bd_normalized E d)])"
| "datum_hash E (Date d) = (7, [HJiff d])"
| "datum_hash E (Time t) = (8, [HJiff t])"
| "datum_hash E (Timestamp t) = (9, [HJiff t])"
| "datum_hash E (Timestamptz t) = (10, [HJiff t])"
| "datum_hash E (Interval i) = (11, [HI128 (canonical_micros i)])"
| "datum_hash E (Bytea b) = (12, [HStr b])"

section \<open>Grouping equality\<close>

text \<open>Values compare at any common exponent.\<close>

lemma bd_eq_common:
  assumes "expo a \<le> n" and "expo b \<le> n"
  shows "bd_eq a b \<longleftrightarrow> mant a * 10 ^ nat (n - expo a) = mant b * 10 ^ nat (n - expo b)"
proof -
  let ?k = "nat (n - max (expo a) (expo b))"
  have "nat (n - expo a) = nat (expo b - expo a) + ?k" "nat (n - expo b) = nat (expo a - expo b) + ?k"
    using assms by auto
  then show ?thesis by (simp add: bd_eq_def power_add)
qed

lemma bd_eq_refl: "bd_eq a a"
  by (simp add: bd_eq_def)

lemma bd_eq_sym: "bd_eq a b \<Longrightarrow> bd_eq b a"
  by (simp add: bd_eq_def)

lemma bd_eq_trans: "bd_eq a b \<Longrightarrow> bd_eq b c \<Longrightarrow> bd_eq a c"
proof -
  let ?n = "max (expo a) (max (expo b) (expo c))"
  have "expo a \<le> ?n" "expo b \<le> ?n" "expo c \<le> ?n" by auto
  then show "bd_eq a b \<Longrightarrow> bd_eq b c \<Longrightarrow> bd_eq a c"
    using bd_eq_common [of a ?n b] bd_eq_common [of b ?n c] bd_eq_common [of a ?n c] by metis
qed

lemma f64_eq_sym: "f64_eq a b \<Longrightarrow> f64_eq b a"
  by (auto simp: f64_eq_def)

lemma f64_eq_trans: "f64_eq a b \<Longrightarrow> f64_eq b c \<Longrightarrow> f64_eq a c"
  by (auto simp: f64_eq_def)

lemma f64_eq_refl: "f64_eq a a \<or> f64_is_nan a"
  by (auto simp: f64_eq_def)

lemma datum_eq_refl: "datum_eq a a"
  using f64_eq_refl by (cases a) (auto simp: bd_eq_refl interval_eq_def)

lemma datum_eq_sym: "datum_eq a b \<Longrightarrow> datum_eq b a"
  by (cases a) (auto split: datum.splits simp: f64_eq_sym bd_eq_sym interval_eq_def)

lemma datum_eq_trans: "datum_eq a b \<Longrightarrow> datum_eq b c \<Longrightarrow> datum_eq a c"
proof (cases a)
  case (Float8 x)
  assume "datum_eq a b" "datum_eq b c"
  then show ?thesis using Float8 f64_eq_trans
    by (auto split: datum.splits simp: f64_eq_def)
qed (auto split: datum.splits dest: bd_eq_trans simp: interval_eq_def)

text \<open>
  What hashing relies on of \<open>bigdecimal\<close>: \<open>normalized\<close> depends on the value only.
\<close>

definition bd_normalized_law :: "'j ext \<Rightarrow> bool" where
  "bd_normalized_law E \<longleftrightarrow> (\<forall>a b. bd_eq a b \<longrightarrow> bd_normalized E a = bd_normalized E b)"

text \<open>C39. Grouping equality is an equivalence relation, and equal values feed the hasher the same
  bytes, as the \<open>Hash\<close>/\<open>Eq\<close> contract that \<open>GROUP BY\<close> and \<open>DISTINCT\<close> rely on requires: every NaN
  is one value, both zeros are one value, numerics compare without scale, intervals by their
  canonical estimate.\<close>

theorem datum_eq_hash_contract:
  fixes E :: "'j ext"
  assumes "bd_normalized_law E"
  shows "equivp (datum_eq :: 'j datum \<Rightarrow> 'j datum \<Rightarrow> bool) \<and> (\<forall>a b. datum_eq a b \<longrightarrow> datum_hash E a = datum_hash E b)"
proof (intro conjI allI impI)
  show "equivp (datum_eq :: 'j datum \<Rightarrow> 'j datum \<Rightarrow> bool)"
    by (intro equivpI reflpI sympI transpI) (auto intro: datum_eq_refl datum_eq_sym datum_eq_trans)
  fix a b :: "'j datum"
  assume ab: "datum_eq a b"
  show "datum_hash E a = datum_hash E b"
  proof (cases a)
    case (Numeric x)
    with ab assms show ?thesis
      by (auto split: datum.splits simp: bd_normalized_law_def)
  next
    case (Float8 x)
    with ab show ?thesis
      by (auto split: datum.splits simp: f64_eq_def)
  qed (use ab in \<open>auto split: datum.splits simp: interval_eq_def\<close>)
qed

section \<open>A concrete instance\<close>

text \<open>
  Functions with the documented behaviour of the \<open>jiff\<close> and \<open>bigdecimal\<close> calls, for evaluating the
  model on concrete inputs: a date is its day number, a time its nanoseconds since midnight, an
  instant its microseconds (since 2000 for a civil datetime, since 1970 for a timestamp).
\<close>

function strip_zeros :: "int \<Rightarrow> int \<Rightarrow> int \<times> int" where
  "strip_zeros m e = (if m \<noteq> 0 \<and> m mod 10 = 0 then strip_zeros (m div 10) (e - 1) else (m, e))"
  by pat_completeness auto
termination
  by (relation "measure (\<lambda>(m, e). nat \<bar>m\<bar>)") (auto simp: abs_if)

declare strip_zeros.simps [simp del]

definition plain_normalized :: "bigdecimal \<Rightarrow> bytes" where
  "plain_normalized d =
     (if mant d = 0 then ascii ''0''
      else (let (m, e) = strip_zeros (mant d) (expo d) in ascii (dec_int m @ ''E'' @ dec_int (- e))))"

lemma strip_zeros_scale: "m \<noteq> 0 \<Longrightarrow> strip_zeros (m * 10 ^ k) (e + int k) = strip_zeros m e"
proof (induction k)
  case (Suc k)
  have "strip_zeros (m * 10 ^ Suc k) (e + int (Suc k)) = strip_zeros (m * 10 ^ k) (e + int k)"
    using Suc.prems by (subst strip_zeros.simps) (simp add: mult.assoc [symmetric] mult.commute [of _ 10])
  with Suc show ?case by simp
qed simp

definition plain_from_str :: "bytes \<Rightarrow> bigdecimal option" where
  "plain_from_str s =
     (let neg = (s \<noteq> [] \<and> hd s = 0x2D);
          body = (if neg then tl s else s);
          is = takeWhile is_digit body;
          r = dropWhile is_digit body;
          fs = (if r \<noteq> [] \<and> hd r = 0x2E then takeWhile is_digit (tl r) else []);
          rest = (if r \<noteq> [] \<and> hd r = 0x2E then dropWhile is_digit (tl r) else r)
      in if rest \<noteq> [] \<or> is @ fs = [] then None
         else Some \<lparr> mant = (if neg then -1 else 1) * int (digits_val (is @ fs)), expo = int (length fs) \<rparr>)"

definition plain_ext :: "int ext" where
  "plain_ext = \<lparr> date_days = (\<lambda>d. word_of_int d),
     date_of_second = (\<lambda>s. Some ((sint s - 946684800) div 86400)),
     time_hour = (\<lambda>t. word_of_int (t div 3600000000000)),
     time_minute = (\<lambda>t. word_of_int (t div 60000000000 mod 60)),
     time_second = (\<lambda>t. word_of_int (t div 1000000000 mod 60)),
     time_subsec = (\<lambda>t. word_of_int (t mod 1000000000)),
     time_new = (\<lambda>h m s n. if 0 \<le> sint h \<and> sint h < 24 \<and> 0 \<le> sint m \<and> sint m < 60
                             \<and> 0 \<le> sint s \<and> sint s < 60 \<and> 0 \<le> sint n \<and> sint n < 1000000000
                           then Some (((sint h * 60 + sint m) * 60 + sint s) * 1000000000 + sint n)
                           else None),
     datetime_micros = (\<lambda>t. word_of_int t),
     datetime_of_micros = (\<lambda>m. Some (sint m - 946684800000000)),
     ts_as_micros = (\<lambda>t. word_of_int t),
     ts_of_micros = (\<lambda>m. Some (sint m)),
     bd_from_str = plain_from_str,
     bd_with_scale = (\<lambda>d n. \<lparr> mant = (if expo d \<le> n then mant d * 10 ^ nat (n - expo d)
                                       else mant d div 10 ^ nat (expo d - n)), expo = n \<rparr>),
     bd_normalized = plain_normalized \<rparr>"

lemma plain_normalized_law: "bd_normalized_law plain_ext"
proof -
  have le: "plain_normalized a = plain_normalized b" if eq: "bd_eq a b" and le: "expo a \<le> expo b" for a b
  proof -
    let ?k = "nat (expo b - expo a)"
    from eq le have m: "mant b = mant a * 10 ^ ?k" by (simp add: bd_eq_def)
    from le have e: "expo b = expo a + int ?k" by simp
    show ?thesis
    proof (cases "mant a = 0")
      case True
      with m show ?thesis by (simp add: plain_normalized_def)
    next
      case False
      then have "strip_zeros (mant b) (expo b) = strip_zeros (mant a) (expo a)"
        by (metis e m strip_zeros_scale)
      with False m show ?thesis by (simp add: plain_normalized_def)
    qed
  qed
  have "plain_normalized a = plain_normalized b" if "bd_eq a b" for a b
    using le [of a b] le [of b a] that bd_eq_sym [of a b] by (cases "expo a \<le> expo b") auto
  then show ?thesis by (simp add: bd_normalized_law_def plain_ext_def)
qed

theorem datum_eq_hash_contract_witness:
  "bd_normalized_law plain_ext
   \<and> datum_eq (Numeric \<lparr> mant = 10, expo = 1 \<rparr>) (Numeric \<lparr> mant = 100, expo = 2 \<rparr> :: int datum)
   \<and> datum_hash plain_ext (Numeric \<lparr> mant = 10, expo = 1 \<rparr>) = datum_hash plain_ext (Numeric \<lparr> mant = 100, expo = 2 \<rparr>)"
proof -
  have eq: "datum_eq (Numeric \<lparr> mant = 10, expo = 1 \<rparr>) (Numeric \<lparr> mant = 100, expo = 2 \<rparr> :: int datum)"
    by (simp add: bd_eq_def)
  with datum_eq_hash_contract [OF plain_normalized_law] plain_normalized_law show ?thesis by blast
qed

end
