(* ===== verification/Numeric.thy ===== *)
theory Numeric
  imports PgTypes
begin

text \<open>
  \<open>numeric\<close> values: canonical form, parsing and printing (\<open>pgtypes/src/numeric.rs\<close>). The theorem is
  the round trip through text that stored rows rely on: printing and parsing a canonical value within
  the format limits gives the value back, scale included.
\<close>

definition MAX_WEIGHT :: int where
  "MAX_WEIGHT = 131071"

definition MAX_DSCALE :: int where
  "MAX_DSCALE = 16383"

definition canonical :: "'j ext \<Rightarrow> bigdecimal \<Rightarrow> bigdecimal" where
  "canonical E bd = (if expo bd < 0 then bd_with_scale E bd 0 else bd)"

definition within_format_limits :: "bigdecimal \<Rightarrow> bool" where
  "within_format_limits bd \<longleftrightarrow>
     (if expo bd > MAX_DSCALE then False
      else int (length (dec_bytes (nat \<bar>mant bd\<bar>))) - 1 - expo bd \<le> MAX_WEIGHT)"

definition parse :: "'j ext \<Rightarrow> bytes \<Rightarrow> bigdecimal option" where
  "parse E s =
     (let t = trim s in
      if t = [] then None
      else (case bd_from_str E t of
              None \<Rightarrow> None
            | Some bd \<Rightarrow> if \<not> within_format_limits bd then None else Some (canonical E bd)))"

definition to_text :: "bigdecimal \<Rightarrow> bytes" where
  "to_text bd =
     (let neg = (mant bd < 0);
          digits = dec_bytes (nat \<bar>mant bd\<bar>);
          sc = nat (max (expo bd) 0);
          body = (if sc = 0 then digits
                  else if length digits > sc
                  then (let point = length digits - sc in take point digits @ ascii ''.'' @ drop point digits)
                  else ascii ''0.'' @ replicate (sc - length digits) 0x30 @ digits)
      in if neg \<and> digits \<noteq> ascii ''0'' then ascii ''-'' @ body else body)"

section \<open>Plain decimal text\<close>

text \<open>An optional minus sign, integer digits, and a point with fraction digits where there are any.\<close>

definition plain :: "bool \<Rightarrow> bytes \<Rightarrow> bytes \<Rightarrow> bytes" where
  "plain neg is fs = (if neg then [0x2D] else []) @ is @ (if fs = [] then [] else 0x2E # fs)"

text \<open>
  What parsing relies on of \<open>BigDecimal::from_str\<close>: plain decimal text denotes its digits, with as
  many fractional digits as are written.
\<close>

definition bd_from_str_law :: "'j ext \<Rightarrow> bool" where
  "bd_from_str_law E \<longleftrightarrow>
     (\<forall>neg is fs. is \<noteq> [] \<and> list_all is_digit (is @ fs) \<longrightarrow>
        bd_from_str E (plain neg is fs) =
          Some \<lparr> mant = (if neg then -1 else 1) * int (digits_val (is @ fs)), expo = int (length fs) \<rparr>)"

lemma dec_bytes_0: "dec_bytes n = [0x30] \<longleftrightarrow> n = 0"
proof -
  have "dec_bytes 0 = [0x30]" by (simp add: dec_bytes_simps)
  then show ?thesis by (metis dec_bytes_inj)
qed

lemma digit_48 [simp]: "is_digit 0x30"
  by (simp add: is_digit_def)

text \<open>\<open>to_text\<close> prints plain decimal text with the value's digits and scale.\<close>

lemma to_text_plain:
  assumes "0 \<le> expo d"
  obtains ints frac where "to_text d = plain (mant d < 0) ints frac" and "ints \<noteq> []"
    and "list_all is_digit (ints @ frac)" and "int (length frac) = expo d"
    and "digits_val (ints @ frac) = nat \<bar>mant d\<bar>"
proof -
  define dg where "dg = dec_bytes (nat \<bar>mant d\<bar>)"
  define sc where "sc = nat (expo d)"
  have dg: "dg \<noteq> []" "list_all is_digit dg" "digits_val dg = nat \<bar>mant d\<bar>" by (simp_all add: dg_def)
  have e: "expo d = int sc" using assms by (simp add: sc_def)
  have "mant d < 0 \<Longrightarrow> dg \<noteq> [0x30]" unfolding dg_def dec_bytes_0 by simp
  then have tt: "to_text d = (if mant d < 0 then [0x2D] else []) @
      (if sc = 0 then dg
       else if sc < length dg then take (length dg - sc) dg @ [0x2E] @ drop (length dg - sc) dg
       else [0x30, 0x2E] @ replicate (sc - length dg) 0x30 @ dg)"
    by (simp add: to_text_def e Let_def flip: dg_def)
  consider (int) "sc = 0" | (split) "sc \<noteq> 0" "sc < length dg" | (small) "sc \<noteq> 0" "length dg \<le> sc"
    by linarith
  then show thesis
  proof cases
    case int
    show thesis
    proof (rule that [of dg "[]"])
      show "to_text d = plain (mant d < 0) dg []" using int by (simp add: tt plain_def)
    qed (use int dg e in simp_all)
  next
    case split
    let ?p = "length dg - sc"
    show thesis
    proof (rule that [of "take ?p dg" "drop ?p dg"])
      show "to_text d = plain (mant d < 0) (take ?p dg) (drop ?p dg)"
        using split by (simp add: tt plain_def)
    qed (use split dg e in simp_all)
  next
    case small
    let ?z = "replicate (sc - length dg) (0x30 :: byte)"
    show thesis
    proof (rule that [of "[0x30]" "?z @ dg"])
      show "to_text d = plain (mant d < 0) [0x30] (?z @ dg)"
        using small dg by (simp add: tt plain_def)
      show "list_all is_digit ([0x30] @ ?z @ dg)" using dg by (auto simp: list_all_iff)
      show "int (length (?z @ dg)) = expo d" using small e by simp
      have "[0x30] @ ?z @ dg = replicate (Suc (sc - length dg)) 0x30 @ dg" by simp
      then show "digits_val ([0x30] @ ?z @ dg) = nat \<bar>mant d\<bar>"
        by (simp only: digits_val_zeros dg)
    qed simp
  qed
qed

lemma solid_minus [simp]: "solid 0x2D"
  by (simp add: solid_def whitespace_def)

lemma trim_plain:
  assumes "is \<noteq> []" and "list_all is_digit (is @ fs)"
  shows "trim (plain neg is fs) = plain neg is fs" and "plain neg is fs \<noteq> []"
proof -
  have dig: "solid b" if "b \<in> set (is @ fs)" for b
    using assms(2) that digit_solid by (auto simp: list_all_iff)
  have "solid (hd (plain neg is fs))"
    using assms(1) dig [of "hd is"] by (auto simp: plain_def hd_append)
  moreover have "solid (last (plain neg is fs))"
    using assms(1) dig [of "last is"] dig [of "last fs"] by (auto simp: plain_def)
  ultimately show "trim (plain neg is fs) = plain neg is fs"
    using assms(1) by (intro trim_solid) (auto simp: plain_def)
  show "plain neg is fs \<noteq> []" using assms(1) by (simp add: plain_def)
qed

lemma numeric_parse_to_text:
  assumes "bd_from_str_law E" and "0 \<le> expo d" and "within_format_limits d"
  shows "parse E (to_text d) = Some d"
proof -
  obtain ints frac where t: "to_text d = plain (mant d < 0) ints frac" and ne: "ints \<noteq> []"
    and dig: "list_all is_digit (ints @ frac)" and len: "int (length frac) = expo d"
    and val: "digits_val (ints @ frac) = nat \<bar>mant d\<bar>"
    using to_text_plain [OF assms(2)] by blast
  have "bd_from_str E (to_text d) =
      Some \<lparr> mant = (if mant d < 0 then -1 else 1) * int (nat \<bar>mant d\<bar>), expo = expo d \<rparr>"
    using assms(1) ne dig by (simp add: bd_from_str_law_def t len val)
  also have "\<lparr> mant = (if mant d < 0 then -1 else 1) * int (nat \<bar>mant d\<bar>), expo = expo d \<rparr> = d"
    by (cases d) auto
  finally show ?thesis
    using trim_plain [OF ne dig] assms(2,3) by (simp add: parse_def t canonical_def Let_def)
qed


lemma not_digit_minus: "is_digit b \<Longrightarrow> b \<noteq> 0x2D \<and> b \<noteq> 0x2E"
  by (auto simp: is_digit_def)

lemma plain_from_str_law: "bd_from_str_law plain_ext"
proof -
  have "plain_from_str (plain neg is fs) =
      Some \<lparr> mant = (if neg then -1 else 1) * int (digits_val (is @ fs)), expo = int (length fs) \<rparr>"
    if ne: "is \<noteq> []" and dig: "list_all is_digit (is @ fs)" for neg "is" fs
  proof -
    let ?tail = "if fs = [] then [] else 0x2E # fs"
    have d: "list_all is_digit is" "list_all is_digit fs" using dig by simp_all
    have hd: "hd (is @ ?tail) \<noteq> 0x2D"
      using ne d(1) not_digit_minus by (cases "is") auto
    have body: "(if neg then tl (plain neg is fs) else plain neg is fs) = is @ ?tail"
      and sign: "(plain neg is fs \<noteq> [] \<and> hd (plain neg is fs) = 0x2D) = neg"
      using ne hd by (auto simp: plain_def)
    have tw: "takeWhile is_digit (is @ ?tail) = is" "dropWhile is_digit (is @ ?tail) = ?tail"
      using d(1) by (auto simp: list_all_iff takeWhile_append dropWhile_append is_digit_def)
    have tf: "takeWhile is_digit fs = fs" "dropWhile is_digit fs = []"
      using d(2) by (auto simp: list_all_iff)
    show ?thesis
      unfolding plain_from_str_def Let_def sign body tw using ne by (auto simp: tf)
  qed
  then show ?thesis by (simp add: bd_from_str_law_def plain_ext_def)
qed


end
