(* ===== verification/Datetime.thy ===== *)
theory Datetime
  imports PgTypes
begin

text \<open>
  The binary forms of date and time values (\<open>pgtypes/src/datetime.rs\<close>), which rows are stored with:
  days or microseconds relative to 2000-01-01, and the three fields of an interval. The theorems are
  the round trips, under the documented behaviour of the \<open>jiff\<close> calls at the value encoded.
\<close>

definition PG_EPOCH_UNIX_SECS :: int where
  "PG_EPOCH_UNIX_SECS = 946684800"

section \<open>Dates\<close>

definition date_to_binary :: "'j ext \<Rightarrow> 'j \<Rightarrow> bytes" where
  "date_to_binary E d = be_bytes (date_days E d)"

definition date_from_binary :: "'j ext \<Rightarrow> bytes \<Rightarrow> type_error + 'j" where
  "date_from_binary E b =
     (if length b \<noteq> 4 then Inl (InvalidDatetimeFormat ''date'' (fmt_bytes_debug b))
      else (let days = sint (of_be b :: i32);
                unix_secs = days * 86400 + PG_EPOCH_UNIX_SECS
            in ok_or (DatetimeFieldOverflow (dec_int days)) (date_of_second E (word_of_int unix_secs))))"

section \<open>Times of day\<close>

definition time_to_binary :: "'j ext \<Rightarrow> 'j \<Rightarrow> bytes" where
  "time_to_binary E t =
     be_bytes (word_of_int (sint (time_hour E t) * 3600000000
                          + sint (time_minute E t) * 60000000
                          + sint (time_second E t) * 1000000
                          + sint (time_subsec E t) sdiv 1000) :: i64)"

definition time_from_binary :: "'j ext \<Rightarrow> bytes \<Rightarrow> type_error + 'j" where
  "time_from_binary E b =
     (if length b \<noteq> 8 then Inl (InvalidDatetimeFormat ''time without time zone'' (fmt_bytes_debug b))
      else (let micros = sint (of_be b :: i64);
                hour = (word_of_int (micros sdiv 3600000000) :: i8);
                micros1 = micros smod 3600000000;
                minute = (word_of_int (micros1 sdiv 60000000) :: i8);
                micros2 = micros1 smod 60000000;
                second = (word_of_int (micros2 sdiv 1000000) :: i8);
                micros3 = micros2 smod 1000000;
                nanos = (word_of_int (micros3 * 1000) :: i32)
            in ok_or (DatetimeFieldOverflow (dec_int micros)) (time_new E hour minute second nanos)))"

section \<open>Timestamps\<close>

text \<open>\<open>checked_add\<close> of the epoch offset.\<close>

definition rebase :: "i64 \<Rightarrow> type_error + i64" where
  "rebase pg_micros =
     (let unix_micros = sint pg_micros + PG_EPOCH_UNIX_SECS * 1000000
      in if unix_micros < - (2 ^ 63) \<or> 2 ^ 63 \<le> unix_micros
         then Inl (DatetimeFieldOverflow (dec_int (sint pg_micros)))
         else Inr (word_of_int unix_micros))"

definition timestamp_to_binary :: "'j ext \<Rightarrow> 'j \<Rightarrow> bytes" where
  "timestamp_to_binary E ts = be_bytes (datetime_micros E ts)"

definition timestamp_from_binary :: "'j ext \<Rightarrow> bytes \<Rightarrow> type_error + 'j" where
  "timestamp_from_binary E b =
     (if length b \<noteq> 8 then Inl (InvalidDatetimeFormat ''timestamp without time zone'' (fmt_bytes_debug b))
      else (let pg_micros = (of_be b :: i64)
            in rbind (rebase pg_micros) (\<lambda>unix_micros.
                 ok_or (DatetimeFieldOverflow (dec_int (sint pg_micros))) (datetime_of_micros E unix_micros))))"

definition timestamptz_to_binary :: "'j ext \<Rightarrow> 'j \<Rightarrow> bytes" where
  "timestamptz_to_binary E ts =
     be_bytes (ts_as_micros E ts - word_of_int (PG_EPOCH_UNIX_SECS * 1000000))"

definition timestamptz_from_binary :: "'j ext \<Rightarrow> bytes \<Rightarrow> type_error + 'j" where
  "timestamptz_from_binary E b =
     (if length b \<noteq> 8 then Inl (InvalidDatetimeFormat ''timestamp with time zone'' (fmt_bytes_debug b))
      else (let pg_micros = (of_be b :: i64)
            in rbind (rebase pg_micros) (\<lambda>unix_micros.
                 ok_or (DatetimeFieldOverflow (dec_int (sint pg_micros))) (ts_of_micros E unix_micros))))"

section \<open>Intervals\<close>

definition interval_to_binary :: "interval \<Rightarrow> bytes" where
  "interval_to_binary iv = be_bytes (micros iv) @ be_bytes (days iv) @ be_bytes (months iv)"

definition interval_from_binary :: "bytes \<Rightarrow> type_error + interval" where
  "interval_from_binary b =
     (if length b \<noteq> 16 then Inl (InvalidDatetimeFormat ''interval'' (fmt_bytes_debug b))
      else Inr \<lparr> months = of_be (take 4 (drop 12 b)), days = of_be (take 4 (drop 8 b)), micros = of_be (take 8 b) \<rparr>)"

section \<open>Round trips\<close>

text \<open>
  What the round trips rely on of \<open>jiff\<close>, at one value: a date is the UTC date of its day count; a
  time of day has fields in range and is determined by them; a datetime or timestamp lies in the
  library's range (years -9999 to 9999) and is determined by its microseconds.
\<close>

definition date_law :: "'j ext \<Rightarrow> 'j \<Rightarrow> bool" where
  "date_law E d \<longleftrightarrow>
     date_of_second E (word_of_int (sint (date_days E d) * 86400 + PG_EPOCH_UNIX_SECS)) = Some d"

definition time_law :: "'j ext \<Rightarrow> 'j \<Rightarrow> bool" where
  "time_law E t \<longleftrightarrow>
     0 \<le> sint (time_hour E t) \<and> sint (time_hour E t) < 24
     \<and> 0 \<le> sint (time_minute E t) \<and> sint (time_minute E t) < 60
     \<and> 0 \<le> sint (time_second E t) \<and> sint (time_second E t) < 60
     \<and> 0 \<le> sint (time_subsec E t) \<and> sint (time_subsec E t) < 1000000000
     \<and> time_new E (time_hour E t) (time_minute E t) (time_second E t) (time_subsec E t) = Some t"

definition datetime_law :: "'j ext \<Rightarrow> 'j \<Rightarrow> bool" where
  "datetime_law E ts \<longleftrightarrow>
     \<bar>sint (datetime_micros E ts)\<bar> < 400000000000000000
     \<and> datetime_of_micros E (word_of_int (sint (datetime_micros E ts) + PG_EPOCH_UNIX_SECS * 1000000)) = Some ts"

definition timestamp_law :: "'j ext \<Rightarrow> 'j \<Rightarrow> bool" where
  "timestamp_law E ts \<longleftrightarrow>
     \<bar>sint (ts_as_micros E ts)\<bar> < 400000000000000000 \<and> ts_of_micros E (ts_as_micros E ts) = Some ts"

lemma sint_word_of_int:
  "- (2 ^ (LENGTH('a) - 1)) \<le> i \<Longrightarrow> i < 2 ^ (LENGTH('a) - 1) \<Longrightarrow> sint (word_of_int i :: 'a::len word) = i"
  by (simp add: signed_of_int signed_take_bit_int_eq_self)

lemma length_binary [simp]:
  "length (date_to_binary E d) = 4" "length (time_to_binary E t) = 8"
  "length (timestamp_to_binary E ts) = 8" "length (timestamptz_to_binary E ts) = 8"
  "length (interval_to_binary iv) = 16"
  by (simp_all add: date_to_binary_def time_to_binary_def timestamp_to_binary_def
      timestamptz_to_binary_def interval_to_binary_def)

lemma date_binary_roundtrip [codec_simps]:
  "date_law E d \<Longrightarrow> date_from_binary E (date_to_binary E d) = Inr d"
  by (simp add: date_from_binary_def date_to_binary_def date_law_def)

lemma interval_binary_roundtrip [codec_simps]: "interval_from_binary (interval_to_binary iv) = Inr iv"
  by (simp add: interval_from_binary_def interval_to_binary_def)

text \<open>The field arithmetic of a time of day, over the integers.\<close>

lemma sdiv_smod_nonneg: "0 \<le> a \<Longrightarrow> 0 < b \<Longrightarrow> (a :: int) sdiv b = a div b \<and> a smod b = a mod b"
  by (simp add: signed_divide_int_def signed_modulo_int_def sgn_if minus_div_mult_eq_mod [symmetric] mult.commute)

lemma digit_step: "\<lbrakk>0 \<le> r; r < b\<rbrakk> \<Longrightarrow> (h * b + r) div b = h \<and> (h * b + r) mod b = (r :: int)"
  by auto

lemma time_fields:
  fixes h m s u :: int
  assumes "0 \<le> m" "m < 60" "0 \<le> s" "s < 60" "0 \<le> u" "u < 1000000"
  defines "t \<equiv> h * 3600000000 + m * 60000000 + s * 1000000 + u"
  shows "t div 3600000000 = h" and "t mod 3600000000 div 60000000 = m"
    and "t mod 3600000000 mod 60000000 div 1000000 = s"
    and "t mod 3600000000 mod 60000000 mod 1000000 = u"
proof -
  have t: "t = h * 3600000000 + (m * 60000000 + (s * 1000000 + u))" by (simp add: t_def)
  have 1: "t div 3600000000 = h \<and> t mod 3600000000 = m * 60000000 + (s * 1000000 + u)"
    unfolding t by (rule digit_step) (use assms(1-6) in linarith)+
  have 2: "(m * 60000000 + (s * 1000000 + u)) div 60000000 = m
      \<and> (m * 60000000 + (s * 1000000 + u)) mod 60000000 = s * 1000000 + u"
    by (rule digit_step) (use assms(3-6) in linarith)+
  have 3: "(s * 1000000 + u) div 1000000 = s \<and> (s * 1000000 + u) mod 1000000 = u"
    by (rule digit_step) (use assms(5,6) in linarith)+
  show "t div 3600000000 = h" and "t mod 3600000000 div 60000000 = m"
    and "t mod 3600000000 mod 60000000 div 1000000 = s"
    and "t mod 3600000000 mod 60000000 mod 1000000 = u"
    using 1 2 3 by (simp_all only:)
qed

text \<open>\<open>time_from_binary\<close> on a non-negative payload.\<close>

lemma time_from_binary_nonneg:
  assumes "0 \<le> sint w"
  shows "time_from_binary E (be_bytes (w :: i64)) =
    ok_or (DatetimeFieldOverflow (dec_int (sint w)))
      (time_new E (word_of_int (sint w div 3600000000))
        (word_of_int (sint w mod 3600000000 div 60000000))
        (word_of_int (sint w mod 3600000000 mod 60000000 div 1000000))
        (word_of_int (sint w mod 3600000000 mod 60000000 mod 1000000 * 1000)))"
  using assms by (simp add: time_from_binary_def Let_def sdiv_smod_nonneg)

lemma time_binary_roundtrip [codec_simps]:
  assumes law: "time_law E t" and us: "sint (time_subsec E t) mod 1000 = 0"
  shows "time_from_binary E (time_to_binary E t) = Inr t"
proof -
  define h m s n where "h = sint (time_hour E t)" and "m = sint (time_minute E t)"
    and "s = sint (time_second E t)" and "n = sint (time_subsec E t)"
  note fold = h_def [symmetric] m_def [symmetric] s_def [symmetric] n_def [symmetric]
  let ?u = "n div 1000" and ?t = "h * 3600000000 + m * 60000000 + s * 1000000 + n div 1000"
  have b: "0 \<le> h" "h < 24" "0 \<le> m" "m < 60" "0 \<le> s" "s < 60" "0 \<le> n" "n < 1000000000"
    using law by (auto simp: time_law_def fold)
  have u: "0 \<le> ?u" "?u < 1000000" using b(7,8) by auto
  have n: "?u * 1000 = n" using us by (auto simp: fold)
  have "?t < 100000000000" using b u by linarith
  then have t: "0 \<le> ?t" "?t < 2 ^ 63" using b u by simp_all
  then have st: "sint (word_of_int ?t :: i64) = ?t" by (intro sint_word_of_int) simp_all
  have "sint (time_subsec E t) sdiv 1000 = ?u" using b(7) by (simp add: fold sdiv_smod_nonneg)
  then have bin: "time_to_binary E t = be_bytes (word_of_int ?t :: i64)"
    by (simp add: time_to_binary_def fold)
  note tf = time_fields [OF b(3-6) u, of h]
  have "time_from_binary E (time_to_binary E t) =
      ok_or (DatetimeFieldOverflow (dec_int ?t)) (time_new E (word_of_int h) (word_of_int m) (word_of_int s) (word_of_int n))"
    unfolding bin using t(1) by (subst time_from_binary_nonneg) (simp_all only: st tf n)
  also have "time_new E (word_of_int h) (word_of_int m) (word_of_int s) (word_of_int n) = Some t"
    using law by (simp add: time_law_def h_def m_def s_def n_def)
  finally show ?thesis by simp
qed

lemma rebase_range:
  "\<bar>sint w\<bar> < 400000000000000000 \<Longrightarrow> rebase w = Inr (word_of_int (sint w + PG_EPOCH_UNIX_SECS * 1000000))"
  by (auto simp: rebase_def PG_EPOCH_UNIX_SECS_def)

lemma timestamp_binary_roundtrip [codec_simps]:
  "datetime_law E ts \<Longrightarrow> timestamp_from_binary E (timestamp_to_binary E ts) = Inr ts"
  by (simp add: timestamp_from_binary_def timestamp_to_binary_def datetime_law_def rebase_range Let_def)

lemma timestamptz_binary_roundtrip [codec_simps]:
  assumes "timestamp_law E ts"
  shows "timestamptz_from_binary E (timestamptz_to_binary E ts) = Inr ts"
proof -
  let ?m = "ts_as_micros E ts" and ?e = "PG_EPOCH_UNIX_SECS * 1000000"
  have b: "\<bar>sint ?m\<bar> < 400000000000000000" and of: "ts_of_micros E ?m = Some ts"
    using assms by (auto simp: timestamp_law_def)
  have w: "?m - word_of_int ?e = word_of_int (sint ?m - ?e)"
    by (simp only: of_int_diff of_int_sint scast_id)
  have "sint (word_of_int (sint ?m - ?e) :: i64) = sint ?m - ?e"
    using b by (intro sint_word_of_int) (auto simp: PG_EPOCH_UNIX_SECS_def)
  then have "rebase (?m - word_of_int ?e) = Inr ?m"
    unfolding w using b by (auto simp: rebase_def Let_def PG_EPOCH_UNIX_SECS_def)
  with of show ?thesis
    by (simp add: timestamptz_from_binary_def timestamptz_to_binary_def Let_def)
qed

section \<open>Out-of-range times\<close>

lemma word_of_int_wrap: "(word_of_int (i + 256) :: i8) = word_of_int i"
proof -
  have "(256 :: i8) = 0" by simp
  then show ?thesis by (simp only: of_int_add of_int_numeral add_0_right)
qed

text \<open>The hour of a stored time is cut to eight bits before it is checked: adding 256 hours to
  any payload that decodes to a time gives a payload that decodes to the same time, although no time
  of day is that long.\<close>

theorem time_from_binary_wraps:
  fixes m :: int
  assumes "0 \<le> m" and "m + 256 * 3600000000 < 2 ^ 63"
    and "time_from_binary E (be_bytes (word_of_int m :: i64)) = Inr t"
  shows "time_from_binary E (be_bytes (word_of_int (m + 256 * 3600000000) :: i64)) = Inr t"
proof -
  let ?m = "m + 256 * 3600000000"
  have s: "sint (word_of_int m :: i64) = m" "sint (word_of_int ?m :: i64) = ?m"
    by (rule sint_word_of_int; use assms(1,2) in simp)+
  have d: "?m div 3600000000 = m div 3600000000 + 256" "?m mod 3600000000 = m mod 3600000000"
    using div_mult_self1 [of 3600000000 m 256] mod_mult_self1 [of m 256 3600000000] by auto
  have 1: "0 \<le> sint (word_of_int m :: i64)" "0 \<le> sint (word_of_int ?m :: i64)"
    unfolding s using assms(1) by simp_all
  show ?thesis
    using assms(3)
    unfolding time_from_binary_nonneg [OF 1(1)] time_from_binary_nonneg [OF 1(2)] s d word_of_int_wrap
    by (auto simp: ok_or_def split: option.splits)
qed

theorem time_from_binary_wraps_witness:
  "time_from_binary plain_ext (be_bytes (word_of_int (256 * 3600000000) :: i64)) = Inr 0"
proof -
  have "time_from_binary plain_ext (be_bytes (word_of_int 0 :: i64)) = Inr 0"
    by (subst time_from_binary_nonneg) (simp_all add: plain_ext_def)
  then show ?thesis using time_from_binary_wraps [of 0 plain_ext 0] by simp
qed

end
