(* ===== verification/RowEnc.thy ===== *)
theory RowEnc
  imports Keys Numeric Datetime
begin

text \<open>
  Row values: \<open>kv/src/rowenc.rs\<close>. A row is a version byte and one tagged field per column. The
  theorem is the round trip: what \<open>encode_row\<close> writes, \<open>decode_row\<close> reads back. A value whose length
  does not fit 32 bits makes the encoder panic (\<open>None\<close>).
\<close>

section \<open>Encoding\<close>

definition ROW_VERSION :: byte where
  "ROW_VERSION = 1"

definition tag_NULL :: byte where "tag_NULL = 0"
definition tag_BOOL :: byte where "tag_BOOL = 1"
definition tag_INT4 :: byte where "tag_INT4 = 2"
definition tag_INT8 :: byte where "tag_INT8 = 3"
definition tag_TEXT :: byte where "tag_TEXT = 4"
definition tag_FLOAT8 :: byte where "tag_FLOAT8 = 5"
definition tag_NUMERIC :: byte where "tag_NUMERIC = 6"
definition tag_DATE :: byte where "tag_DATE = 7"
definition tag_TIME :: byte where "tag_TIME = 8"
definition tag_TIMESTAMP :: byte where "tag_TIMESTAMP = 9"
definition tag_TIMESTAMPTZ :: byte where "tag_TIMESTAMPTZ = 10"
definition tag_INTERVAL :: byte where "tag_INTERVAL = 11"
definition tag_BYTEA :: byte where "tag_BYTEA = 12"

lemmas tag_defs = tag_NULL_def tag_BOOL_def tag_INT4_def tag_INT8_def tag_TEXT_def tag_FLOAT8_def
  tag_NUMERIC_def tag_DATE_def tag_TIME_def tag_TIMESTAMP_def tag_TIMESTAMPTZ_def tag_INTERVAL_def
  tag_BYTEA_def

text \<open>A length prefix; \<open>u32::try_from(len).expect(..)\<close> panics.\<close>

definition len_prefixed :: "bytes \<Rightarrow> bytes option" where
  "len_prefixed s = (if length s < 2 ^ 32 then Some (be_bytes (word_of_nat (length s) :: u32) @ s) else None)"

fun encode_field :: "'j ext \<Rightarrow> 'j datum \<Rightarrow> bytes option" where
  "encode_field E Null = Some [tag_NULL]"
| "encode_field E (Bool b) = Some [tag_BOOL, if b then 1 else 0]"
| "encode_field E (Int4 n) = Some (tag_INT4 # be_bytes n)"
| "encode_field E (Int8 n) = Some (tag_INT8 # be_bytes n)"
| "encode_field E (Text s) = map_option (\<lambda>p. tag_TEXT # p) (len_prefixed s)"
| "encode_field E (Float8 f) = Some (tag_FLOAT8 # be_bytes f)"
| "encode_field E (Numeric d) = map_option (\<lambda>p. tag_NUMERIC # p) (len_prefixed (to_text d))"
| "encode_field E (Date d) = Some (tag_DATE # date_to_binary E d)"
| "encode_field E (Time t) = Some (tag_TIME # time_to_binary E t)"
| "encode_field E (Timestamp ts) = Some (tag_TIMESTAMP # timestamp_to_binary E ts)"
| "encode_field E (Timestamptz ts) = Some (tag_TIMESTAMPTZ # timestamptz_to_binary E ts)"
| "encode_field E (Interval iv) = Some (tag_INTERVAL # interval_to_binary iv)"
| "encode_field E (Bytea b) = map_option (\<lambda>p. tag_BYTEA # p) (len_prefixed b)"

fun encode_fields :: "'j ext \<Rightarrow> bytes \<Rightarrow> 'j datum list \<Rightarrow> bytes option" where
  "encode_fields E out [] = Some out"
| "encode_fields E out (d # ds) =
     (case encode_field E d of None \<Rightarrow> None | Some f \<Rightarrow> encode_fields E (out @ f) ds)"

definition encode_row :: "'j ext \<Rightarrow> 'j datum list \<Rightarrow> bytes option" where
  "encode_row E cols = encode_fields E [ROW_VERSION] cols"

section \<open>Decoding\<close>

definition take_u8 :: "bytes \<Rightarrow> kv_error + (byte \<times> bytes)" where
  "take_u8 cur = (case cur of [] \<Rightarrow> Inl (CorruptRow ''truncated'') | b # rest \<Rightarrow> Inr (b, rest))"

definition take_n :: "bytes \<Rightarrow> nat \<Rightarrow> kv_error + (bytes \<times> bytes)" where
  "take_n cur n =
     (if length cur < n then Inl (CorruptRow ''truncated field'') else Inr (take n cur, drop n cur))"

definition take_len_prefixed :: "bytes \<Rightarrow> kv_error + (bytes \<times> bytes)" where
  "take_len_prefixed cur =
     rbind (take_n cur 4) (\<lambda>(len_raw, cur). take_n cur (unat (of_be len_raw :: u32)))"

definition corrupt :: "string \<Rightarrow> type_error \<Rightarrow> kv_error" where
  "corrupt what e = CorruptRow (''corrupt '' @ what @ '': '' @ type_error_display e)"

definition decode_field :: "'j ext \<Rightarrow> bytes \<Rightarrow> kv_error + ('j datum \<times> bytes)" where
  "decode_field E cur =
     rbind (take_u8 cur) (\<lambda>(t, cur).
       if t = tag_NULL then Inr (Null, cur)
       else if t = tag_BOOL then rbind (take_u8 cur) (\<lambda>(b, cur). Inr (Bool (b \<noteq> 0), cur))
       else if t = tag_INT4 then rbind (take_n cur 4) (\<lambda>(raw, cur). Inr (Int4 (of_be raw), cur))
       else if t = tag_INT8 then rbind (take_n cur 8) (\<lambda>(raw, cur). Inr (Int8 (of_be raw), cur))
       else if t = tag_TEXT then rbind (take_len_prefixed cur) (\<lambda>(raw, cur).
         if utf8_ok raw then Inr (Text raw, cur) else Inl (CorruptRow ''text is not valid UTF-8''))
       else if t = tag_FLOAT8 then rbind (take_n cur 8) (\<lambda>(raw, cur). Inr (Float8 (of_be raw), cur))
       else if t = tag_NUMERIC then rbind (take_len_prefixed cur) (\<lambda>(raw, cur).
         if \<not> utf8_ok raw then Inl (CorruptRow ''numeric text is not valid UTF-8'')
         else rbind (ok_or (CorruptRow (''invalid numeric '' @ fmt_str_debug raw)) (parse E raw))
                (\<lambda>d. Inr (Numeric d, cur)))
       else if t = tag_DATE then rbind (take_n cur 4) (\<lambda>(raw, cur).
         rbind (map_err (corrupt ''date'') (date_from_binary E raw)) (\<lambda>d. Inr (Date d, cur)))
       else if t = tag_TIME then rbind (take_n cur 8) (\<lambda>(raw, cur).
         rbind (map_err (corrupt ''time'') (time_from_binary E raw)) (\<lambda>d. Inr (Time d, cur)))
       else if t = tag_TIMESTAMP then rbind (take_n cur 8) (\<lambda>(raw, cur).
         rbind (map_err (corrupt ''timestamp'') (timestamp_from_binary E raw)) (\<lambda>d. Inr (Timestamp d, cur)))
       else if t = tag_TIMESTAMPTZ then rbind (take_n cur 8) (\<lambda>(raw, cur).
         rbind (map_err (corrupt ''timestamptz'') (timestamptz_from_binary E raw)) (\<lambda>d. Inr (Timestamptz d, cur)))
       else if t = tag_INTERVAL then rbind (take_n cur 16) (\<lambda>(raw, cur).
         rbind (map_err (corrupt ''interval'') (interval_from_binary raw)) (\<lambda>d. Inr (Interval d, cur)))
       else if t = tag_BYTEA then rbind (take_len_prefixed cur) (\<lambda>(raw, cur). Inr (Bytea raw, cur))
       else Inl (CorruptRow (''unknown field tag '' @ dec_nat (unat t))))"

lemma take_u8_shorter: "take_u8 cur = Inr (b, r) \<Longrightarrow> length r < length cur"
  by (auto simp: take_u8_def split: list.splits)

lemma take_n_shorter: "take_n cur n = Inr (b, r) \<Longrightarrow> length r \<le> length cur"
  by (auto simp: take_n_def split: if_splits)

lemma take_len_prefixed_shorter: "take_len_prefixed cur = Inr (b, r) \<Longrightarrow> length r \<le> length cur"
  by (auto simp: take_len_prefixed_def split: prod.splits dest!: take_n_shorter)

lemma decode_field_shorter: "decode_field E cur = Inr (d, r) \<Longrightarrow> length r < length cur"
proof -
  assume a: "decode_field E cur = Inr (d, r)"
  then obtain t c where tc: "take_u8 cur = Inr (t, c)"
    by (auto simp: decode_field_def split: prod.splits)
  have "length r \<le> length c"
    using a tc
    by (auto simp: decode_field_def split: if_splits prod.splits
        dest: take_u8_shorter take_n_shorter take_len_prefixed_shorter)
  with take_u8_shorter [OF tc] show ?thesis by simp
qed

function decode_fields :: "'j ext \<Rightarrow> bytes \<Rightarrow> kv_error + 'j datum list" where
  "decode_fields E cur =
     (if cur = [] then Inr []
      else rbind (decode_field E cur) (\<lambda>dc. rbind (decode_fields E (snd dc)) (\<lambda>ds. Inr (fst dc # ds))))"
  by pat_completeness auto
termination
  by (relation "measure (\<lambda>(E, cur). length cur)") (auto dest: decode_field_shorter)

declare decode_fields.simps [simp del]

definition decode_row :: "'j ext \<Rightarrow> bytes \<Rightarrow> kv_error + 'j datum list" where
  "decode_row E bs =
     rbind (take_u8 bs) (\<lambda>(version, cur).
       if version \<noteq> ROW_VERSION
       then Inl (CorruptRow (''unknown row version '' @ dec_nat (unat version)))
       else decode_fields E cur)"

section \<open>Round trip\<close>

text \<open>
  The values a stored row holds: text is valid UTF-8 (a Rust \<open>String\<close>), a numeric is canonical and
  within the format limits, a time has microsecond resolution, and the \<open>jiff\<close> laws hold at the date
  and time values. \<open>field_fits\<close>: lengths fit the 32-bit prefix.
\<close>

fun datum_ok :: "'j ext \<Rightarrow> 'j datum \<Rightarrow> bool" where
  "datum_ok E (Text s) = utf8_ok s"
| "datum_ok E (Numeric d) = (0 \<le> expo d \<and> within_format_limits d)"
| "datum_ok E (Date d) = date_law E d"
| "datum_ok E (Time t) = (time_law E t \<and> sint (time_subsec E t) mod 1000 = 0)"
| "datum_ok E (Timestamp ts) = datetime_law E ts"
| "datum_ok E (Timestamptz ts) = timestamp_law E ts"
| "datum_ok E _ = True"

fun field_fits :: "'j datum \<Rightarrow> bool" where
  "field_fits (Text s) = (length s < 2 ^ 32)"
| "field_fits (Numeric d) = (length (to_text d) < 2 ^ 32)"
| "field_fits (Bytea b) = (length b < 2 ^ 32)"
| "field_fits _ = True"

lemma take_n_append [codec_simps]: "length raw = n \<Longrightarrow> take_n (raw @ r) n = Inr (raw, r)"
  by (simp add: take_n_def)

lemma take_u8_Cons [codec_simps]: "take_u8 (b # r) = Inr (b, r)"
  by (simp add: take_u8_def)

lemma take_len_prefixed_append [codec_simps]:
  assumes "len_prefixed s = Some p"
  shows "take_len_prefixed (p @ r) = Inr (s, r)"
proof -
  from assms have len: "length s < 2 ^ 32" and p: "p = be_bytes (word_of_nat (length s) :: u32) @ s"
    by (auto simp: len_prefixed_def split: if_splits)
  from len have "unat (word_of_nat (length s) :: u32) = length s"
    by (simp add: unat_of_nat)
  then show ?thesis by (simp add: take_len_prefixed_def p take_n_append)
qed

lemma encode_field_Some: "field_fits d \<Longrightarrow> \<exists>f. encode_field E d = Some f"
  by (cases d) (auto simp: len_prefixed_def)

lemma digit_ascii: "is_digit b \<Longrightarrow> b < 0x80"
  by (simp add: is_digit_unat word_less_nat_alt)

lemma to_text_utf8: "0 \<le> expo d \<Longrightarrow> utf8_ok (to_text d)"
  by (rule utf8_all_ascii, erule to_text_plain) (auto simp: plain_def list_all_iff digit_ascii)

lemma decode_encode_field:
  assumes law: "bd_from_str_law E" and ok: "datum_ok E d" and f: "encode_field E d = Some f"
  shows "decode_field E (f @ r) = Inr (d, r)"
proof (cases d)
  case (Numeric x)
  then have "parse E (to_text x) = Some x" "utf8_ok (to_text x)"
    using ok law numeric_parse_to_text to_text_utf8 by auto
  with Numeric f show ?thesis
    by (auto simp: decode_field_def codec_simps tag_defs simp del: rbind_eq_Inr)
qed (use ok f in \<open>auto simp: decode_field_def codec_simps tag_defs simp del: rbind_eq_Inr\<close>)

interpretation fieldc: codec "\<lambda>d. the (encode_field E d)" "decode_field E"
  "\<lambda>d. bd_from_str_law E \<and> datum_ok E d \<and> field_fits d" for E
  by unfold_locales (use decode_encode_field encode_field_Some in fastforce)

lemma encode_fields_concat:
  "list_all field_fits ds \<Longrightarrow> encode_fields E out ds = Some (out @ enc_list (\<lambda>d. the (encode_field E d)) ds)"
proof (induction ds arbitrary: out)
  case (Cons d ds)
  with encode_field_Some [of d E] show ?case by auto
qed simp

lemma decode_fields_list:
  assumes "dec_list (decode_field E) n cur = Inr (ds, [])"
  shows "decode_fields E cur = Inr ds"
  using assms
proof (induction n arbitrary: cur ds)
  case 0
  then show ?case by (simp add: decode_fields.simps)
next
  case (Suc n)
  then obtain d c ds' where d: "decode_field E cur = Inr (d, c)" and ds: "ds = d # ds'"
    and IH: "decode_fields E c = Inr ds'"
    by (auto split: prod.splits)
  from decode_field_shorter [OF d] have "cur \<noteq> []" by auto
  with d IH ds show ?case by (subst decode_fields.simps) simp
qed

lemma row_roundtrip:
  assumes "bd_from_str_law E" and "list_all (\<lambda>d. datum_ok E d \<and> field_fits d) row"
  obtains b where "encode_row E row = Some b" and "decode_row E b = Inr row"
proof -
  let ?enc = "enc_list (\<lambda>d. the (encode_field E d)) row"
  have fits: "list_all field_fits row"
    and ok: "list_all (\<lambda>d. bd_from_str_law E \<and> datum_ok E d \<and> field_fits d) row"
    using assms by (auto simp: list_all_iff)
  have "encode_row E row = Some (ROW_VERSION # ?enc)"
    by (simp add: encode_row_def encode_fields_concat [OF fits])
  moreover have "dec_list (decode_field E) (length row) ?enc = Inr (row, [])"
    using fieldc.dec_enc_list [OF ok, of "[]"] by simp
  then have "decode_row E (ROW_VERSION # ?enc) = Inr row"
    by (simp add: decode_row_def codec_simps decode_fields_list)
  ultimately show thesis by (rule that)
qed

text \<open>C34. Rows survive storage: a row of well-formed values whose lengths fit encodes, and decoding
  the bytes gives the same row.\<close>

theorem row_codec_roundtrip:
  assumes "bd_from_str_law E" and "list_all (\<lambda>d. datum_ok E d \<and> field_fits d) row"
  shows "\<exists>b. encode_row E row = Some b \<and> decode_row E b = Inr row"
  using row_roundtrip [OF assms] by blast

theorem row_codec_roundtrip_witness:
  "bd_from_str_law plain_ext
   \<and> (\<exists>b. encode_row plain_ext [Int4 7, Text (ascii ''hi''), Time 5000, Null] = Some b
        \<and> decode_row plain_ext b = Inr [Int4 7, Text (ascii ''hi''), Time 5000, Null])"
proof -
  have "time_law plain_ext 5000 \<and> sint (time_subsec plain_ext 5000) mod 1000 = 0"
    by (simp add: time_law_def plain_ext_def)
  moreover have "utf8_ok (ascii ''hi'')" by simp
  ultimately show ?thesis
    using row_codec_roundtrip [OF plain_from_str_law, of "[Int4 7, Text (ascii ''hi''), Time 5000, Null]"]
      plain_from_str_law
    by simp
qed

end
