(* ===== verification/Clog.thy ===== *)
theory Clog
  imports KvStore
begin

text \<open>
  The commit-status log: \<open>mvcc/src/xid.rs\<close> and \<open>mvcc/src/clog.rs\<close>. Each transaction id has at most
  one entry, under its clog key; an absent entry reads as in progress.
\<close>

section \<open>Transaction ids\<close>

type_synonym xid = u64

definition INVALID_XID :: xid where
  "INVALID_XID = 0"

definition GLOBAL_XID_BASE :: xid where
  "GLOBAL_XID_BASE = 2 ^ 63"

section \<open>Status entries\<close>

datatype xid_status = InProgress | Committed | Aborted | Prepared u64

definition S_IN_PROGRESS :: byte where "S_IN_PROGRESS = 0"
definition S_COMMITTED :: byte where "S_COMMITTED = 1"
definition S_ABORTED :: byte where "S_ABORTED = 2"
definition S_PREPARED :: byte where "S_PREPARED = 3"

definition clog_decode :: "bytes \<Rightarrow> kv_error + xid_status" where
  "clog_decode val =
     (case val of
        [] \<Rightarrow> Inr InProgress
      | b # rest \<Rightarrow>
          if b = S_IN_PROGRESS then Inr InProgress
          else if b = S_COMMITTED then Inr Committed
          else if b = S_ABORTED then Inr Aborted
          else if b = S_PREPARED then
            (if length rest < 8 then Inl (CorruptRow ''prepared clog missing global xid'')
             else Inr (Prepared (of_be (take 8 rest))))
          else Inl (CorruptRow ''bad clog status byte''))"

definition clog_get :: "mem_kv \<Rightarrow> xid \<Rightarrow> kv_error + xid_status" where
  "clog_get kv x = clog_decode (case kv_get kv (clog_key x) of None \<Rightarrow> [] | Some v \<Rightarrow> v)"

fun clog_value :: "xid_status \<Rightarrow> bytes" where
  "clog_value InProgress = [S_IN_PROGRESS]"
| "clog_value Committed = [S_COMMITTED]"
| "clog_value Aborted = [S_ABORTED]"
| "clog_value (Prepared g) = S_PREPARED # be_bytes g"

definition clog_put_op :: "xid \<Rightarrow> xid_status \<Rightarrow> write_op" where
  "clog_put_op x st = Put (clog_key x) (clog_value st)"

definition is_terminal :: "bytes \<Rightarrow> bool" where
  "is_terminal val = (case val of [] \<Rightarrow> False | b # _ \<Rightarrow> b = S_COMMITTED \<or> b = S_ABORTED)"

section \<open>Lemmas\<close>

lemmas status_byte_defs = S_IN_PROGRESS_def S_COMMITTED_def S_ABORTED_def S_PREPARED_def

lemma clog_decode_value [codec_simps, simp]: "clog_decode (clog_value st) = Inr st"
  by (cases st) (simp_all add: clog_decode_def status_byte_defs)

lemma clog_value_inj [simp]: "clog_value a = clog_value b \<longleftrightarrow> a = b"
  by (metis clog_decode_value sum.inject(2))

lemma is_terminal_iff: "is_terminal val \<longleftrightarrow> clog_decode val \<in> {Inr Committed, Inr Aborted}"
  by (cases val) (auto simp: is_terminal_def clog_decode_def status_byte_defs)

lemma is_terminal_value [simp]: "is_terminal (clog_value st) \<longleftrightarrow> st = Committed \<or> st = Aborted"
  by (auto simp: is_terminal_iff)

lemma clog_key_inj [simp]: "clog_key x = clog_key y \<longleftrightarrow> x = y"
  by (simp add: clog_key_prefix)

lemma clog_get_batch:
  "clog_key x \<notin> op_key ` set ops \<Longrightarrow> clog_get (write_batch m ops) x = clog_get m x"
  by (simp add: clog_get_def kv_get_batch op_effect_frame del: write_batch_simps)

text \<open>Recording a status writes exactly that entry: afterwards the transaction reads back with the
  status recorded and every other transaction with the one it had; an id never recorded reads as in
  progress.\<close>

theorem clog_put_get:
  "clog_get (write_batch m [clog_put_op x st]) y = (if y = x then Inr st else clog_get m y)
   \<and> clog_get kv_new y = Inr InProgress"
proof
  show "clog_get (write_batch m [clog_put_op x st]) y = (if y = x then Inr st else clog_get m y)"
    by (simp add: clog_get_def clog_put_op_def kv_get_def kv_simps)
  show "clog_get kv_new y = Inr InProgress"
    by (simp add: clog_get_def kv_new_def kv_get_def clog_decode_def)
qed

end
