(* ===== verification/Version.thy ===== *)
theory Version
  imports Clog RowEnc
begin

text \<open>
  Tuple versions: \<open>mvcc/src/version.rs\<close>. A version's key is its row's key followed by the creating
  transaction id; its value is a header with \<open>xmin\<close> and \<open>xmax\<close> and the encoded row. The \<open>zerocopy\<close>
  layout of the header is the tag byte and two big-endian integers, without padding.
\<close>

definition version_key_xid :: "u32 \<Rightarrow> u64 \<Rightarrow> xid \<Rightarrow> bytes" where
  "version_key_xid table_id rowid x = row_key table_id rowid @ be_bytes x"

definition row_prefix_of :: "bytes \<Rightarrow> kv_error + bytes" where
  "row_prefix_of key =
     (if length key < 8 then Inl (CorruptRow ''version key too short'')
      else Inr (take (length key - 8) key))"

definition xid_of_key :: "bytes \<Rightarrow> kv_error + xid" where
  "xid_of_key key =
     (if length key < 8 then Inl (CorruptRow ''version key too short'')
      else Inr (of_be (drop (length key - 8) key)))"

definition T_TUPLE :: byte where
  "T_TUPLE = 1"

record tuple_header =
  th_tag :: byte
  th_xmin :: xid
  th_xmax :: xid

definition header_bytes :: "tuple_header \<Rightarrow> bytes" where
  "header_bytes h = th_tag h # be_bytes (th_xmin h) @ be_bytes (th_xmax h)"

definition header_of_prefix :: "bytes \<Rightarrow> (tuple_header \<times> bytes) option" where
  "header_of_prefix bs =
     (if length bs < 17 then None
      else Some (\<lparr> th_tag = hd bs, th_xmin = of_be (take 8 (drop 1 bs)), th_xmax = of_be (take 8 (drop 9 bs)) \<rparr>,
                 drop 17 bs))"

definition encode_tuple :: "'j ext \<Rightarrow> xid \<Rightarrow> xid \<Rightarrow> 'j datum list \<Rightarrow> bytes option" where
  "encode_tuple E xmin xmax row =
     map_option (\<lambda>r. header_bytes \<lparr> th_tag = T_TUPLE, th_xmin = xmin, th_xmax = xmax \<rparr> @ r) (encode_row E row)"

definition decode_tuple :: "'j ext \<Rightarrow> bytes \<Rightarrow> kv_error + (xid \<times> xid \<times> 'j datum list)" where
  "decode_tuple E bs =
     rbind (ok_or (CorruptRow ''bad tuple header'') (header_of_prefix bs)) (\<lambda>(header, rest).
       if th_tag header \<noteq> T_TUPLE then Inl (CorruptRow ''bad tuple header'')
       else rbind (decode_row E rest) (\<lambda>row. Inr (th_xmin header, th_xmax header, row)))"

section \<open>Lemmas\<close>

lemma header_roundtrip [codec_simps]: "header_of_prefix (header_bytes h @ r) = Some (h, r)"
  by (simp add: header_of_prefix_def header_bytes_def)

lemma decode_tuple_encode:
  "encode_tuple E xmin xmax row = Some b \<Longrightarrow> encode_row E row = Some r \<Longrightarrow> decode_row E r = Inr row \<Longrightarrow>
   decode_tuple E b = Inr (xmin, xmax, row)"
  by (auto simp: encode_tuple_def decode_tuple_def codec_simps simp del: rbind_eq_Inr)

lemma length_version_key [key_simps]: "length (version_key_xid t r x) = 24"
  by (simp add: version_key_xid_def key_simps)

lemma row_prefix_of_version_key [simp]: "row_prefix_of (version_key_xid t r x) = Inr (row_key t r)"
  by (simp add: row_prefix_of_def version_key_xid_def key_simps)

lemma xid_of_version_key [simp]: "xid_of_key (version_key_xid t r x) = Inr x"
  by (simp add: xid_of_key_def version_key_xid_def key_simps)

lemma version_key_inj [simp]:
  "version_key_xid t r x = version_key_xid t' r' x' \<longleftrightarrow> t = t' \<and> r = r' \<and> x = x'"
  by (simp add: version_key_xid_def row_key_append)

lemma prefix_row_version [key_simps]:
  "prefix (row_key t r) (version_key_xid t' r' x) \<longleftrightarrow> t = t' \<and> r = r'"
proof
  assume "prefix (row_key t r) (version_key_xid t' r' x)"
  then obtain z where z: "row_key t' r' @ be_bytes x = row_key t r @ z"
    by (auto simp: version_key_xid_def prefix_def)
  then have "row_key t' r' = row_key t r"
    by (rule append_eq_append_conv [THEN iffD1, THEN conjunct1, rotated]) (simp add: key_simps)
  then show "t = t' \<and> r = r'" by (simp add: row_key_inj)
qed (simp add: version_key_xid_def)

lemma prefix_table_version [key_simps]: "prefix (table_prefix t) (version_key_xid t' r x) \<longleftrightarrow> t = t'"
  by (simp add: version_key_xid_def key_simps)

text \<open>Version keys sort by table, then rowid, then creating transaction, and the row key and the
  transaction id read back from a version key are the ones it was built from.\<close>

theorem version_key_order:
  "(version_key_xid t r x < version_key_xid u s y \<longleftrightarrow> t < u \<or> t = u \<and> (r < s \<or> r = s \<and> x < y))
   \<and> row_prefix_of (version_key_xid t r x) = Inr (row_key t r)
   \<and> xid_of_key (version_key_xid t r x) = Inr x
   \<and> rowid_of t (version_key_xid t r x) = Inr r"
proof (intro conjI)
  show "version_key_xid t r x < version_key_xid u s y \<longleftrightarrow> t < u \<or> t = u \<and> (r < s \<or> r = s \<and> x < y)"
    by (auto simp: version_key_xid_def row_key_append append_less_same_length [of "be_bytes t"]
        append_less_same_length [of "be_bytes r"])
  show "rowid_of t (version_key_xid t r x) = Inr r"
    by (simp add: rowid_of_def version_key_xid_def row_key_append codec_simps)
qed simp_all

end
