(* ===== verification/Visibility.thy ===== *)
theory Visibility
  imports Clog
begin

text \<open>
  Snapshot visibility: \<open>mvcc/src/visibility.rs\<close>. The theorems give \<open>satisfies_mvcc\<close> its meaning in
  terms of the set of transactions a snapshot sees, and show that what a snapshot sees does not change
  while transactions running at its time go on to commit or abort.

  The \<open>debug_assert!\<close> that \<open>xip\<close> is sorted is the hypothesis \<open>snap_ok\<close>.
\<close>

section \<open>Binary search\<close>

text \<open>\<open>slice::binary_search\<close>, as a search of the half-open index range \<open>[lo, hi)\<close>.\<close>

function bsearch :: "'a::linorder list \<Rightarrow> 'a \<Rightarrow> nat \<Rightarrow> nat \<Rightarrow> bool" where
  "bsearch xs x lo hi =
     (if hi \<le> lo then False
      else (let mid = (lo + hi) div 2
            in if xs ! mid = x then True
               else if xs ! mid < x then bsearch xs x (mid + 1) hi
               else bsearch xs x lo mid))"
  by pat_completeness auto
termination
  by (relation "measure (\<lambda>(xs, x, lo, hi). hi - lo)") auto

declare bsearch.simps [simp del]

definition binary_search :: "'a::linorder list \<Rightarrow> 'a \<Rightarrow> bool" where
  "binary_search xs x = bsearch xs x 0 (length xs)"

lemma bsearch_iff:
  "sorted xs \<Longrightarrow> hi \<le> length xs \<Longrightarrow> bsearch xs x lo hi \<longleftrightarrow> (\<exists>i. lo \<le> i \<and> i < hi \<and> xs ! i = x)"
proof (induction xs x lo hi rule: bsearch.induct)
  case (1 xs x lo hi)
  let ?mid = "(lo + hi) div 2"
  show ?case
  proof (cases "hi \<le> lo")
    case True
    then show ?thesis by (auto simp: bsearch.simps)
  next
    case False
    then have mid: "lo \<le> ?mid" "?mid < hi" by auto
    consider "xs ! ?mid = x" | "xs ! ?mid < x" | "x < xs ! ?mid" by (meson linorder_cases)
    then show ?thesis
    proof cases
      case 1
      with False mid show ?thesis by (subst bsearch.simps) (auto simp: Let_def)
    next
      case 2
      have "?mid + 1 \<le> i" if "i < hi" "xs ! i = x" for i
      proof (rule ccontr)
        assume "\<not> ?mid + 1 \<le> i"
        then have "xs ! i \<le> xs ! ?mid" using mid "1.prems" by (intro sorted_nth_mono) auto
        with 2 that show False by simp
      qed
      moreover have "bsearch xs x lo hi = bsearch xs x (?mid + 1) hi"
        using False 2 by (subst bsearch.simps) (auto simp: Let_def)
      moreover have "bsearch xs x (?mid + 1) hi \<longleftrightarrow> (\<exists>i. ?mid + 1 \<le> i \<and> i < hi \<and> xs ! i = x)"
        using "1.IH"(1) [OF False refl] 2 "1.prems" by simp
      moreover have "\<And>i. ?mid + 1 \<le> i \<Longrightarrow> lo \<le> i" using mid(1) by linarith
      ultimately show ?thesis by blast
    next
      case 3
      have "i < ?mid" if "i < hi" "xs ! i = x" for i
      proof (rule ccontr)
        assume "\<not> i < ?mid"
        then have "xs ! ?mid \<le> xs ! i" using that mid "1.prems" by (intro sorted_nth_mono) auto
        with 3 that show False by simp
      qed
      moreover have "bsearch xs x lo hi = bsearch xs x lo ?mid"
        using False 3 by (subst bsearch.simps) (auto simp: Let_def)
      moreover have "bsearch xs x lo ?mid \<longleftrightarrow> (\<exists>i. lo \<le> i \<and> i < ?mid \<and> xs ! i = x)"
        using "1.IH"(2) [OF False refl] 3 "1.prems" mid by simp
      moreover have "\<And>i. i < ?mid \<Longrightarrow> i < hi" using mid(2) by linarith
      ultimately show ?thesis by blast
    qed
  qed
qed

lemma binary_search_iff: "sorted xs \<Longrightarrow> binary_search xs x \<longleftrightarrow> x \<in> set xs"
  by (simp add: binary_search_def bsearch_iff in_set_conv_nth)

section \<open>Snapshots\<close>

record snapshot =
  snap_xmin :: xid
  snap_xmax :: xid
  snap_xip :: "xid list"

definition is_running :: "snapshot \<Rightarrow> xid \<Rightarrow> bool" where
  "is_running s x \<longleftrightarrow> snap_xmax s \<le> x \<or> binary_search (snap_xip s) x"

definition committed_visible ::
  "xid \<Rightarrow> snapshot \<Rightarrow> xid option \<Rightarrow> (xid \<Rightarrow> kv_error + xid_status) \<Rightarrow> kv_error + bool" where
  "committed_visible x s own status =
     (if Some x = own then Inr True
      else if is_running s x then Inr False
      else rbind (status x) (\<lambda>st. Inr (st = Committed)))"

definition satisfies_mvcc ::
  "xid \<Rightarrow> xid \<Rightarrow> snapshot \<Rightarrow> xid option \<Rightarrow> (xid \<Rightarrow> kv_error + xid_status) \<Rightarrow> kv_error + bool" where
  "satisfies_mvcc xmin xmax s own status =
     rbind (committed_visible xmin s own status) (\<lambda>v.
       if \<not> v then Inr False
       else if xmax = INVALID_XID then Inr True
       else rbind (committed_visible xmax s own status) (\<lambda>v. Inr (\<not> v)))"

definition snap_ok :: "snapshot \<Rightarrow> bool" where
  "snap_ok s \<longleftrightarrow> sorted (snap_xip s)"

section \<open>What a snapshot sees\<close>

text \<open>The transactions whose effects a snapshot sees: the reader's own, and those that had finished
  when it was taken and whose status is committed.\<close>

definition sees :: "snapshot \<Rightarrow> xid option \<Rightarrow> (xid \<Rightarrow> xid_status) \<Rightarrow> xid set" where
  "sees s own st = {x. Some x = own \<or> x < snap_xmax s \<and> x \<notin> set (snap_xip s) \<and> st x = Committed}"

lemma is_running_iff: "snap_ok s \<Longrightarrow> is_running s x \<longleftrightarrow> snap_xmax s \<le> x \<or> x \<in> set (snap_xip s)"
  by (simp add: is_running_def snap_ok_def binary_search_iff)

lemma committed_visible_sees:
  "snap_ok s \<Longrightarrow> committed_visible x s own (\<lambda>x. Inr (st x)) = Inr (x \<in> sees s own st)"
  by (auto simp: committed_visible_def is_running_iff sees_def simp del: rbind_eq_Inr)

lemma satisfies_mvcc_sees:
  "snap_ok s \<Longrightarrow> satisfies_mvcc xmin xmax s own (\<lambda>x. Inr (st x)) =
     Inr (xmin \<in> sees s own st \<and> (xmax = INVALID_XID \<or> xmax \<notin> sees s own st))"
  by (auto simp: satisfies_mvcc_def committed_visible_sees simp del: rbind_eq_Inr)

text \<open>C22. A version is visible exactly when the snapshot sees its creator and either nothing deleted
  it or the snapshot does not see the deleter.\<close>

theorem satisfies_mvcc_spec:
  assumes "sorted (snap_xip s)"
  shows "satisfies_mvcc xmin xmax s own (\<lambda>x. Inr (st x)) =
    Inr (xmin \<in> sees s own st \<and> (xmax = INVALID_XID \<or> xmax \<notin> sees s own st))"
  using assms by (simp add: satisfies_mvcc_sees snap_ok_def)

theorem satisfies_mvcc_spec_witness:
  "sorted [4, 7 :: xid]
   \<and> satisfies_mvcc 3 7 \<lparr> snap_xmin = 4, snap_xmax = 9, snap_xip = [4, 7] \<rparr> None (\<lambda>x. Inr Committed) = Inr True"
  using satisfies_mvcc_spec [of "\<lparr> snap_xmin = 4, snap_xmax = 9, snap_xip = [4, 7] \<rparr>" 3 7 None "\<lambda>x. Committed"]
  by (simp add: sees_def)

lemma committed_visible_cong:
  "(\<And>y. Some y \<noteq> own \<Longrightarrow> \<not> is_running s y \<Longrightarrow> status y = status' y) \<Longrightarrow>
   committed_visible x s own status = committed_visible x s own status'"
  by (simp add: committed_visible_def)

text \<open>A snapshot is stable: as long as the transactions that had finished when it was taken keep
  their status, every visibility answer, errors included, stays the same, whatever the transactions
  running at that time (or started later) record. This is what repeatable reads rest on.\<close>

theorem snapshot_stability:
  assumes "\<And>y. Some y \<noteq> own \<Longrightarrow> \<not> is_running s y \<Longrightarrow> status y = status' y"
  shows "satisfies_mvcc xmin xmax s own status = satisfies_mvcc xmin xmax s own status'"
proof -
  have "committed_visible x s own status = committed_visible x s own status'" for x
    using assms by (rule committed_visible_cong)
  then show ?thesis by (simp only: satisfies_mvcc_def)
qed

theorem snapshot_stability_witness:
  "satisfies_mvcc 3 7 \<lparr> snap_xmin = 7, snap_xmax = 9, snap_xip = [7] \<rparr> None (\<lambda>x. if x = 7 then Inr InProgress else Inr Committed)
   = satisfies_mvcc 3 7 \<lparr> snap_xmin = 7, snap_xmax = 9, snap_xip = [7] \<rparr> None (\<lambda>x. Inr Committed)"
  by (rule snapshot_stability) (auto simp: is_running_def binary_search_def bsearch.simps split: if_splits)

end
