(* ===== verification/Errors.thy ===== *)
theory Errors
  imports Keys PgTypes
begin

text \<open>
  The error types above storage: \<open>pgparser/src/error.rs\<close>, \<open>CatalogError\<close> of \<open>catalog/src/lib.rs\<close>,
  \<open>pgwire/src/error.rs\<close> and \<open>executor/src/error.rs\<close>, with the mapping onto SQLSTATE codes. Every
  error of the executor reaches the client as a non-fatal error with a five-character code.
\<close>

section \<open>Parser errors\<close>

record parse_error =
  pe_message :: string
  pe_position :: nat
  pe_sqlstate :: string

definition parse_error_new :: "string \<Rightarrow> nat \<Rightarrow> parse_error" where
  "parse_error_new message position =
     \<lparr> pe_message = ''syntax error at position '' @ dec_nat position @ '': '' @ message,
       pe_position = position, pe_sqlstate = ''42601'' \<rparr>"

definition parse_error_new_sqlstate :: "string \<Rightarrow> string \<Rightarrow> nat \<Rightarrow> parse_error" where
  "parse_error_new_sqlstate st message position =
     \<lparr> pe_message = message, pe_position = position, pe_sqlstate = st \<rparr>"

definition too_deep :: "nat \<Rightarrow> parse_error" where
  "too_deep position =
     \<lparr> pe_message = ''stack depth limit exceeded'', pe_position = position, pe_sqlstate = ''54001'' \<rparr>"

section \<open>Catalog errors\<close>

datatype catalog_error =
    DuplicateTable string
  | UndefinedTable string
  | CatUndefinedColumn string
  | DuplicateObject string
  | UndefinedObject string
  | Storage kv_error

fun kv_error_display :: "kv_error \<Rightarrow> string" where
  "kv_error_display (CorruptRow m) = ''corrupt row encoding: '' @ m"
| "kv_error_display (Io m) = ''storage I/O error: '' @ m"

definition quoted :: "string \<Rightarrow> string" where
  "quoted s = [CHR 0x22] @ s @ [CHR 0x22]"

fun catalog_error_display :: "catalog_error \<Rightarrow> string" where
  "catalog_error_display (DuplicateTable n) = ''relation '' @ quoted n @ '' already exists''"
| "catalog_error_display (UndefinedTable n) = ''relation '' @ quoted n @ '' does not exist''"
| "catalog_error_display (CatUndefinedColumn n) = ''column '' @ quoted n @ '' does not exist''"
| "catalog_error_display (DuplicateObject n) = ''object '' @ quoted n @ '' already exists''"
| "catalog_error_display (UndefinedObject n) = ''object '' @ quoted n @ '' does not exist''"
| "catalog_error_display (Storage e) = ''catalog storage error: '' @ kv_error_display e"

fun catalog_sqlstate :: "catalog_error \<Rightarrow> string" where
  "catalog_sqlstate (DuplicateTable _) = ''42P07''"
| "catalog_sqlstate (UndefinedTable _) = ''42P01''"
| "catalog_sqlstate (CatUndefinedColumn _) = ''42703''"
| "catalog_sqlstate (DuplicateObject _) = ''42710''"
| "catalog_sqlstate (UndefinedObject _) = ''42704''"
| "catalog_sqlstate (Storage (Io _)) = ''58030''"
| "catalog_sqlstate (Storage (CorruptRow _)) = ''XX000''"

section \<open>Wire errors\<close>

datatype severity = Error | Fatal

fun severity_str :: "severity \<Rightarrow> string" where
  "severity_str Error = ''ERROR''"
| "severity_str Fatal = ''FATAL''"

record pg_error =
  pg_severity :: severity
  pg_code :: string
  pg_message :: string

definition pg_error_of :: "string \<Rightarrow> string \<Rightarrow> pg_error" where
  "pg_error_of code message = \<lparr> pg_severity = Error, pg_code = code, pg_message = message \<rparr>"

definition pg_fatal :: "string \<Rightarrow> string \<Rightarrow> pg_error" where
  "pg_fatal code message = \<lparr> pg_severity = Fatal, pg_code = code, pg_message = message \<rparr>"

section \<open>Executor errors\<close>

datatype set_op = Union | Intersect | Except

datatype exec_error =
    EParse parse_error
  | ECatalog catalog_error
  | EType type_error
  | EKv kv_error
  | EUndefinedColumn string
  | EAmbiguousColumn string
  | EMissingFromEntry string
  | EDuplicateAlias string
  | EUnsupported string
  | ETypeMismatch string
  | EGrouping string
  | EUndefinedFunction string
  | EWrongObjectType string
  | ECardinalityViolation
  | ESubqueryColumns
  | ESyntax string
  | EAmbiguousOrderBy string
  | ESetOpColumnCount set_op nat nat
  | EValuesColumnCount
  | EDerivedColumnAliasCount nat nat
  | EInvalidColumnReference string
  | EInFailedTransaction
  | ESerializationFailure
  | EDeadlock
  | ENotLeader
  | EUnavailable
  | EInvalidParameterValue string
  | EUnrecognizedParameter string
  | EStackDepthExceeded

fun set_op_name :: "set_op \<Rightarrow> string" where
  "set_op_name Union = ''UNION''"
| "set_op_name Intersect = ''INTERSECT''"
| "set_op_name Except = ''EXCEPT''"

fun into_pg :: "exec_error \<Rightarrow> pg_error" where
  "into_pg (EParse e) = pg_error_of (pe_sqlstate e) (pe_message e)"
| "into_pg (ECatalog e) = pg_error_of (catalog_sqlstate e) (catalog_error_display e)"
| "into_pg (EType e) = pg_error_of (sqlstate e) (type_error_display e)"
| "into_pg (EKv (Io msg)) = pg_error_of ''58030'' (''storage I/O error: '' @ msg)"
| "into_pg (EKv (CorruptRow msg)) = pg_error_of ''XX000'' (''corrupt storage: '' @ msg)"
| "into_pg (EUndefinedColumn c) = pg_error_of ''42703'' (''column '' @ quoted c @ '' does not exist'')"
| "into_pg (EAmbiguousColumn c) = pg_error_of ''42702'' (''column reference '' @ quoted c @ '' is ambiguous'')"
| "into_pg ECardinalityViolation = pg_error_of ''21000'' ''more than one row returned by a subquery used as an expression''"
| "into_pg ESubqueryColumns = pg_error_of ''42601'' ''subquery must return only one column''"
| "into_pg (ESyntax m) = pg_error_of ''42601'' m"
| "into_pg (EAmbiguousOrderBy n) = pg_error_of ''42702'' (''ORDER BY '' @ quoted n @ '' is ambiguous'')"
| "into_pg (ESetOpColumnCount op _ _) = pg_error_of ''42601'' (''each '' @ set_op_name op @ '' query must have the same number of columns'')"
| "into_pg EValuesColumnCount = pg_error_of ''42601'' ''VALUES lists must all be the same length''"
| "into_pg (EDerivedColumnAliasCount expected got) =
     pg_error_of ''42601'' (''table has '' @ dec_nat expected @ '' columns available but '' @ dec_nat got @ '' columns specified'')"
| "into_pg (EInvalidColumnReference m) = pg_error_of ''42P10'' m"
| "into_pg (EMissingFromEntry t) = pg_error_of ''42P01'' (''missing FROM-clause entry for table '' @ quoted t)"
| "into_pg (EDuplicateAlias t) = pg_error_of ''42712'' (''table name '' @ quoted t @ '' specified more than once'')"
| "into_pg (EUnsupported m) = pg_error_of ''0A000'' m"
| "into_pg (ETypeMismatch m) = pg_error_of ''42804'' m"
| "into_pg (EGrouping m) = pg_error_of ''42803'' m"
| "into_pg (EUndefinedFunction m) = pg_error_of ''42883'' m"
| "into_pg (EWrongObjectType m) = pg_error_of ''42809'' m"
| "into_pg EInFailedTransaction = pg_error_of ''25P02'' ''current transaction is aborted, commands ignored until end of transaction block''"
| "into_pg ESerializationFailure = pg_error_of ''40001'' ''could not serialize access due to concurrent update''"
| "into_pg EDeadlock = pg_error_of ''40P01'' ''deadlock detected''"
| "into_pg ENotLeader = pg_error_of ''40001'' ''could not complete: not the leader, retry''"
| "into_pg EUnavailable = pg_error_of ''08006'' ''connection failure: no quorum''"
| "into_pg (EInvalidParameterValue v) = pg_error_of ''22023'' (''invalid value for parameter: '' @ quoted v)"
| "into_pg (EUnrecognizedParameter n) = pg_error_of ''42704'' (''unrecognized configuration parameter '' @ quoted n)"
| "into_pg EStackDepthExceeded = pg_error_of ''54001'' ''stack depth limit exceeded''"

lemma into_pg_severity: "pg_severity (into_pg e) = Error"
  by (cases e rule: into_pg.cases) (simp_all add: pg_error_of_def)

end
