(* ===== verification/Allocator.thy ===== *)
theory Allocator
  imports Visibility Errors
begin

text \<open>
  What the id allocators of the executor have in common. The transaction registry of a range and the
  global transaction manager both hand out ids from a counter, keep the set of running ids, and build
  snapshots from the two. The locale \<open>xid_allocator\<close> states that contract; its lemmas, proved once,
  say that ids are consecutive and never handed out twice, and what a snapshot taken at any time says
  about an id. \<open>PersistMode\<close> is from \<open>executor/src/lib.rs\<close>.
\<close>

datatype persist_mode = Durable | Replicated

text \<open>\<open>U64::read_from_prefix\<close>: the first eight bytes, big-endian.\<close>

definition read_u64_prefix :: "bytes \<Rightarrow> u64 option" where
  "read_u64_prefix b = (if length b < 8 then None else Some (of_be (take 8 b)))"

lemma read_u64_prefix_be [codec_simps, simp]: "read_u64_prefix (be_bytes (v :: u64) @ r) = Some v"
  "read_u64_prefix (be_bytes v) = Some v"
  by (simp_all add: read_u64_prefix_def)

text \<open>A history of an allocator: allocations and completions, in the order its lock serialises them.\<close>

datatype alloc_op = Begin | Finish xid

fun run_allocs :: "('s \<Rightarrow> 's \<times> xid) \<Rightarrow> ('s \<Rightarrow> xid \<Rightarrow> 's) \<Rightarrow> 's \<Rightarrow> alloc_op list \<Rightarrow> 's \<times> xid list" where
  "run_allocs b f s [] = (s, [])"
| "run_allocs b f s (Begin # ops) =
     (let (s1, x) = b s; (s2, xs) = run_allocs b f s1 ops in (s2, x # xs))"
| "run_allocs b f s (Finish x # ops) = run_allocs b f (f s x) ops"

definition n_begins :: "alloc_op list \<Rightarrow> nat" where
  "n_begins ops = length (filter (\<lambda>a. a = Begin) ops)"

lemma n_begins_simps [simp]:
  "n_begins [] = 0" "n_begins (Begin # ops) = Suc (n_begins ops)" "n_begins (Finish x # ops) = n_begins ops"
  by (simp_all add: n_begins_def)

locale xid_allocator =
  fixes start :: "'s \<Rightarrow> 's \<times> xid"
    and fin :: "'s \<Rightarrow> xid \<Rightarrow> 's"
    and nxt :: "'s \<Rightarrow> xid"
    and running :: "'s \<Rightarrow> xid set"
    and snap :: "'s \<Rightarrow> snapshot"
  assumes start_id: "snd (start s) = nxt s"
    and start_nxt: "nxt (fst (start s)) = nxt s + 1"
    and start_running: "running (fst (start s)) = insert (nxt s) (running s)"
    and fin_nxt: "nxt (fin s x) = nxt s"
    and fin_running: "running (fin s x) = running s - {x}"
    and snap_xmax: "snap_xmax (snap s) = nxt s"
    and snap_xip: "finite (running s) \<Longrightarrow> snap_xip (snap s) = sorted_list_of_set (running s)"
begin

abbreviation "run \<equiv> run_allocs start fin"

lemma run_Begin [simp]:
  "fst (run s (Begin # ops)) = fst (run (fst (start s)) ops)"
  "snd (run s (Begin # ops)) = nxt s # snd (run (fst (start s)) ops)"
  using start_id [of s] by (auto simp: Let_def split: prod.splits)

text \<open>The ids handed out are consecutive, from the counter on.\<close>

lemma run_ids: "snd (run s ops) = map (\<lambda>i. nxt s + word_of_nat i) [0..<n_begins ops]"
proof (induction ops arbitrary: s)
  case (Cons a ops)
  show ?case
  proof (cases a)
    case Begin
    have "map (\<lambda>i. nxt s + 1 + word_of_nat i) [0..<n_begins ops]
        = map (\<lambda>i. nxt s + word_of_nat i) [Suc 0..<Suc (n_begins ops)]"
      by (simp add: map_Suc_upt [symmetric] add.assoc del: upt_Suc)
    then show ?thesis using Begin Cons
      by (simp add: start_nxt upt_conv_Cons del: run_allocs.simps upt_Suc)
  qed (use Cons in \<open>simp add: fin_nxt\<close>)
qed simp

lemma run_nxt: "nxt (fst (run s ops)) = nxt s + word_of_nat (n_begins ops)"
proof (induction ops arbitrary: s)
  case (Cons a ops)
  then show ?case
    by (cases a) (simp_all add: start_nxt fin_nxt del: run_allocs.simps(2))
qed simp

text \<open>Without overflow of the counter they strictly increase.\<close>

lemma run_ids_below:
  assumes "unat (nxt s) + n_begins ops < 2 ^ 64" and "x \<in> set (snd (run s ops))"
  shows "nxt s \<le> x" and "x < nxt (fst (run s ops))"
proof -
  have u: "unat (nxt s + word_of_nat i) = unat (nxt s) + i" if "i \<le> n_begins ops" for i
    using assms(1) that by (simp add: unat_word_ariths unat_of_nat)
  from assms(2) obtain i where i: "i < n_begins ops" "x = nxt s + word_of_nat i"
    by (auto simp: run_ids)
  then show "nxt s \<le> x" using u [of i] by (simp add: word_le_nat_alt)
  show "x < nxt (fst (run s ops))"
    using i u [of i] u [of "n_begins ops"] by (simp add: word_less_nat_alt run_nxt)
qed

lemma run_ids_sorted:
  assumes "unat (nxt s) + n_begins ops < 2 ^ 64"
  shows "sorted_wrt (<) (snd (run s ops))"
proof -
  have u: "unat (nxt s + word_of_nat i) = unat (nxt s) + i" if "i < n_begins ops" for i
    using assms that by (simp add: unat_word_ariths unat_of_nat)
  show ?thesis
    by (auto simp: run_ids sorted_wrt_iff_nth_less word_less_nat_alt u)
qed

lemma run_running: "running (fst (run s ops)) \<subseteq> running s \<union> set (snd (run s ops))"
proof (induction ops arbitrary: s)
  case (Cons a ops)
  show ?case
  proof (cases a)
    case Begin
    with Cons [of "fst (start s)"] show ?thesis
      by (auto simp: start_running simp del: run_allocs.simps(2))
  next
    case (Finish x)
    with Cons [of "fin s x"] show ?thesis by (auto simp: fin_running)
  qed
qed simp

lemma run_finite: "finite (running s) \<Longrightarrow> finite (running (fst (run s ops)))"
  by (rule finite_subset [OF run_running]) simp

text \<open>A snapshot counts an id as running exactly when it is in the running set or not yet handed out.\<close>

lemma snap_running:
  assumes "finite (running s)"
  shows "is_running (snap s) x \<longleftrightarrow> nxt s \<le> x \<or> x \<in> running s"
proof -
  have "snap_ok (snap s)" using assms by (simp add: snap_ok_def snap_xip)
  then show ?thesis using assms by (simp add: is_running_iff snap_xmax snap_xip)
qed

text \<open>Whatever is allocated after a snapshot was taken counts as running in it.\<close>

lemma later_running:
  assumes "finite (running s)" and "unat (nxt s) + n_begins ops < 2 ^ 64"
    and "x \<in> set (snd (run s ops))"
  shows "is_running (snap s) x"
  using run_ids_below(1) [OF assms(2,3)] by (simp add: snap_running [OF assms(1)])

end

end
