(* ===== verification/ProcArray.thy ===== *)
theory ProcArray
  imports Allocator
begin

text \<open>
  The registry of running transactions: \<open>executor/src/procarray.rs\<close>. The store the registry holds a
  reference to is passed along. Arithmetic on the counter wraps at 64 bits, as a release build does.
  The theorems: ids are consecutive and unique, a snapshot hides exactly the running and the future
  transactions, and in durable mode no id is handed out again after a restart.
\<close>

record proc_array =
  pa_next_xid :: xid
  pa_running :: "xid set"
  pa_mode :: persist_mode

definition pa_open :: "mem_kv \<Rightarrow> persist_mode \<Rightarrow> exec_error + proc_array" where
  "pa_open kv mode =
     rbind (case kv_get kv next_xid_key of
              Some b \<Rightarrow> ok_or (EKv (CorruptRow ''next_xid is not u64'')) (read_u64_prefix b)
            | None \<Rightarrow> Inr 1)
       (\<lambda>next_xid. Inr \<lparr> pa_next_xid = max next_xid 1, pa_running = {}, pa_mode = mode \<rparr>)"

definition begin_write :: "mem_kv \<times> proc_array \<Rightarrow> (mem_kv \<times> proc_array) \<times> xid" where
  "begin_write s =
     (let (kv, pa) = s;
          xid = pa_next_xid pa;
          new_next = xid + 1;
          kv' = (if pa_mode pa = Durable then write_batch kv [Put next_xid_key (be_bytes new_next)] else kv)
      in ((kv', pa\<lparr> pa_next_xid := new_next, pa_running := insert xid (pa_running pa) \<rparr>), xid))"

definition pa_reseed_from_applied :: "mem_kv \<Rightarrow> proc_array \<Rightarrow> exec_error + proc_array" where
  "pa_reseed_from_applied kv pa =
     rbind (case kv_get kv next_xid_key of
              Some b \<Rightarrow> ok_or (EKv (CorruptRow ''next_xid not u64'')) (read_u64_prefix b)
            | None \<Rightarrow> Inr 1)
       (\<lambda>durable. Inr (pa\<lparr> pa_next_xid := max (pa_next_xid pa) (max durable 1) \<rparr>))"

definition next_xid_op :: "proc_array \<Rightarrow> write_op" where
  "next_xid_op pa = Put next_xid_key (be_bytes (pa_next_xid pa))"

definition pa_snapshot :: "proc_array \<Rightarrow> snapshot" where
  "pa_snapshot pa =
     (let xip = sorted_list_of_set (pa_running pa);
          xmax = pa_next_xid pa;
          xmin = (case xip of [] \<Rightarrow> xmax | x # _ \<Rightarrow> x)
      in \<lparr> snap_xmin = xmin, snap_xmax = xmax, snap_xip = xip \<rparr>)"

definition pa_finish :: "proc_array \<Rightarrow> xid \<Rightarrow> proc_array" where
  "pa_finish pa xid = pa\<lparr> pa_running := pa_running pa - {xid} \<rparr>"

section \<open>The allocator contract\<close>

interpretation pa: xid_allocator begin_write "\<lambda>(kv, pa) x. (kv, pa_finish pa x)"
  "\<lambda>(kv, pa). pa_next_xid pa" "\<lambda>(kv, pa). pa_running pa" "\<lambda>(kv, pa). pa_snapshot pa"
  by unfold_locales (auto simp: begin_write_def pa_finish_def pa_snapshot_def Let_def split: prod.splits)

abbreviation pa_run :: "mem_kv \<times> proc_array \<Rightarrow> alloc_op list \<Rightarrow> (mem_kv \<times> proc_array) \<times> xid list" where
  "pa_run \<equiv> run_allocs begin_write (\<lambda>(kv, pa) x. (kv, pa_finish pa x))"



section \<open>Restart\<close>

text \<open>The counter a registry opened on this store would start from.\<close>

definition durable_next :: "mem_kv \<Rightarrow> xid option" where
  "durable_next kv = (case pa_open kv Durable of Inl _ \<Rightarrow> None | Inr pa \<Rightarrow> Some (pa_next_xid pa))"

definition durable_inv :: "mem_kv \<times> proc_array \<Rightarrow> bool" where
  "durable_inv s \<longleftrightarrow> (case s of (kv, pa) \<Rightarrow>
     pa_mode pa = Durable \<and> durable_next kv = Some (pa_next_xid pa) \<and> 1 \<le> pa_next_xid pa)"

lemma durable_next_put:
  "1 \<le> v \<Longrightarrow> durable_next (write_batch kv [Put next_xid_key (be_bytes v)]) = Some v"
  by (auto simp: durable_next_def pa_open_def kv_get_batch max_def simp del: write_batch_simps)

lemma durable_inv_open: "pa_open kv Durable = Inr pa \<Longrightarrow> durable_inv (kv, pa)"
  by (auto simp: durable_inv_def durable_next_def pa_open_def)

lemma durable_inv_begin:
  assumes "durable_inv (kv, pa)" and "unat (pa_next_xid pa) + 1 < 2 ^ 64"
  shows "durable_inv (fst (begin_write (kv, pa)))"
proof -
  have "unat (pa_next_xid pa + 1) = unat (pa_next_xid pa) + 1"
    using assms(2) by (simp add: unat_word_ariths)
  then have "1 \<le> pa_next_xid pa + 1" by (simp add: word_le_nat_alt)
  then show ?thesis using assms(1)
    by (simp add: durable_inv_def begin_write_def Let_def durable_next_put del: write_batch_simps)
qed

lemma durable_inv_run:
  "durable_inv s \<Longrightarrow> unat (pa_next_xid (snd s)) + n_begins ops < 2 ^ 64 \<Longrightarrow> durable_inv (fst (pa_run s ops))"
proof (induction ops arbitrary: s)
  case (Cons a ops)
  obtain kv pa where s: "s = (kv, pa)" by force
  show ?case
  proof (cases a)
    case Begin
    let ?s1 = "fst (begin_write (kv, pa))"
    have inv: "durable_inv ?s1" using Cons.prems Begin s by (intro durable_inv_begin) auto
    have "unat (pa_next_xid pa + 1) = unat (pa_next_xid pa) + 1"
      using Cons.prems Begin s by (simp add: unat_word_ariths)
    then have "unat (pa_next_xid (snd ?s1)) + n_begins ops < 2 ^ 64"
      using Cons.prems Begin s by (simp add: begin_write_def Let_def)
    with inv Cons.IH [of ?s1] show ?thesis
      unfolding s Begin pa.run_Begin by blast
  next
    case (Finish x)
    with Cons s show ?thesis by (simp add: durable_inv_def pa_finish_def)
  qed
qed simp

text \<open>In durable mode a restart never reuses a transaction id: after any history, a registry
  opened again on the store starts from a counter above every id handed out before.\<close>

theorem durable_restart_no_reuse:
  assumes "pa_open kv Durable = Inr pa" and "unat (pa_next_xid pa) + n_begins ops < 2 ^ 64"
    and "pa_run (kv, pa) ops = ((kv', pa'), xids)"
  shows "\<exists>pa2. pa_open kv' Durable = Inr pa2 \<and> (\<forall>x \<in> set xids. x < pa_next_xid pa2)"
proof -
  have "durable_inv (kv', pa')"
    using durable_inv_run [OF durable_inv_open [OF assms(1)], of ops] assms(2,3) by simp
  then obtain pa2 where "pa_open kv' Durable = Inr pa2" "pa_next_xid pa2 = pa_next_xid pa'"
    by (auto simp: durable_inv_def durable_next_def split: sum.splits)
  moreover have "x < pa_next_xid pa'" if "x \<in> set xids" for x
    using pa.run_ids_below(2) [of "(kv, pa)" ops x] assms(2,3) that by simp
  ultimately show ?thesis by auto
qed

theorem durable_restart_no_reuse_witness:
  "pa_open kv_new Durable = Inr \<lparr> pa_next_xid = 1, pa_running = {}, pa_mode = Durable \<rparr>
   \<and> (\<exists>kv' pa2. pa_open kv' Durable = Inr pa2 \<and> 2 < pa_next_xid pa2)"
proof -
  have o: "pa_open kv_new Durable = Inr \<lparr> pa_next_xid = 1, pa_running = {}, pa_mode = Durable \<rparr>"
    by (simp add: pa_open_def kv_new_def kv_get_def)
  obtain kv' pa' where r:
    "pa_run (kv_new, \<lparr> pa_next_xid = 1, pa_running = {}, pa_mode = Durable \<rparr>) [Begin, Begin] = ((kv', pa'), [1, 2])"
    by (simp add: begin_write_def del: write_batch_simps)
  from durable_restart_no_reuse [OF o _ r] o show ?thesis by auto
qed

end
