(* ===== verification/Gtm.thy ===== *)
theory Gtm
  imports Allocator
begin

text \<open>
  The global transaction manager of range 0: \<open>executor/src/gtm.rs\<close>. It meets the same contract as a
  range's registry, over ids from the reserved upper half of the id space. Its counter is persisted
  only when a caller commits \<open>next_global_xid_op\<close>.
\<close>

record gtm =
  g_next_global :: xid
  g_running :: "xid set"

definition read_next_global :: "mem_kv \<Rightarrow> exec_error + xid" where
  "read_next_global kv =
     rbind (case kv_get kv meta_next_global_xid_key of
              Some b \<Rightarrow> ok_or (EKv (CorruptRow ''next_global_xid not u64'')) (read_u64_prefix b)
            | None \<Rightarrow> Inr GLOBAL_XID_BASE)
       (\<lambda>nxt. Inr (max nxt GLOBAL_XID_BASE))"

definition gtm_open :: "mem_kv \<Rightarrow> exec_error + gtm" where
  "gtm_open kv = rbind (read_next_global kv) (\<lambda>nxt. Inr \<lparr> g_next_global = nxt, g_running = {} \<rparr>)"

definition begin_global :: "gtm \<Rightarrow> gtm \<times> xid" where
  "begin_global g =
     (let xid = g_next_global g
      in (g\<lparr> g_next_global := xid + 1, g_running := insert xid (g_running g) \<rparr>, xid))"

definition next_global_xid_op :: "gtm \<Rightarrow> write_op" where
  "next_global_xid_op g = Put meta_next_global_xid_key (be_bytes (g_next_global g))"

definition gtm_reseed_from_applied :: "mem_kv \<Rightarrow> gtm \<Rightarrow> exec_error + gtm" where
  "gtm_reseed_from_applied kv g =
     rbind (case kv_get kv meta_next_global_xid_key of
              Some b \<Rightarrow> ok_or (EKv (CorruptRow ''next_global_xid not u64'')) (read_u64_prefix b)
            | None \<Rightarrow> Inr GLOBAL_XID_BASE)
       (\<lambda>durable. Inr (g\<lparr> g_next_global := max (g_next_global g) (max durable GLOBAL_XID_BASE) \<rparr>))"

definition global_snapshot :: "gtm \<Rightarrow> snapshot" where
  "global_snapshot g =
     (let xip = sorted_list_of_set (g_running g);
          xmax = g_next_global g
      in \<lparr> snap_xmin = (case xip of [] \<Rightarrow> xmax | x # _ \<Rightarrow> x), snap_xmax = xmax, snap_xip = xip \<rparr>)"

definition finish_global :: "gtm \<Rightarrow> xid \<Rightarrow> gtm" where
  "finish_global g x = g\<lparr> g_running := g_running g - {x} \<rparr>"

section \<open>The allocator contract\<close>

interpretation gtm: xid_allocator begin_global finish_global g_next_global g_running global_snapshot
  by unfold_locales (auto simp: begin_global_def finish_global_def global_snapshot_def Let_def)

abbreviation gtm_run :: "gtm \<Rightarrow> alloc_op list \<Rightarrow> gtm \<times> xid list" where
  "gtm_run \<equiv> run_allocs begin_global finish_global"

lemma read_next_global_ge: "read_next_global kv = Inr n \<Longrightarrow> GLOBAL_XID_BASE \<le> n"
  by (auto simp: read_next_global_def)

lemma read_next_global_put:
  "GLOBAL_XID_BASE \<le> v \<Longrightarrow>
   read_next_global (write_batch kv [Put meta_next_global_xid_key (be_bytes v)]) = Inr v"
  by (simp add: read_next_global_def kv_get_batch max_def del: write_batch_simps)

text \<open>Global ids never collide with local ones: every id a global transaction manager hands out,
  from opening on, is at or above \<open>GLOBAL_XID_BASE\<close>, and the ids strictly increase; committing
  \<open>next_global_xid_op\<close> makes the next opening start above all of them.\<close>

theorem gtm_ids_global:
  assumes "gtm_open kv = Inr g" and "unat (g_next_global g) + n_begins ops < 2 ^ 64"
    and "gtm_run g ops = (g', xids)"
  shows "sorted_wrt (<) xids \<and> (\<forall>x \<in> set xids. GLOBAL_XID_BASE \<le> x)
    \<and> (\<exists>g2. gtm_open (write_batch kv' [next_global_xid_op g']) = Inr g2 \<and> (\<forall>x \<in> set xids. x < g_next_global g2))"
proof -
  have base: "GLOBAL_XID_BASE \<le> g_next_global g"
    using assms(1) read_next_global_ge by (auto simp: gtm_open_def)
  have ids: "g_next_global g \<le> x" "x < g_next_global g'" if "x \<in> set xids" for x
    using gtm.run_ids_below [of g ops x] assms(2,3) that by simp_all
  have "unat (g_next_global g') = unat (g_next_global g) + n_begins ops"
    using gtm.run_nxt [of g ops] assms(2,3) by (simp add: unat_word_ariths unat_of_nat)
  with base have base': "GLOBAL_XID_BASE \<le> g_next_global g'" by (simp add: word_le_nat_alt)
  have "gtm_open (write_batch kv' [next_global_xid_op g']) = Inr \<lparr> g_next_global = g_next_global g', g_running = {} \<rparr>"
    using base' by (simp add: gtm_open_def next_global_xid_op_def read_next_global_put del: write_batch_simps)
  moreover have "sorted_wrt (<) xids"
    using gtm.run_ids_sorted [of g ops] assms(2,3) by simp
  ultimately show ?thesis using ids base by fastforce
qed

theorem gtm_ids_global_witness:
  "gtm_open kv_new = Inr \<lparr> g_next_global = GLOBAL_XID_BASE, g_running = {} \<rparr>
   \<and> (\<exists>g2. gtm_open (write_batch kv_new [next_global_xid_op (fst (begin_global \<lparr> g_next_global = GLOBAL_XID_BASE, g_running = {} \<rparr>))]) = Inr g2
        \<and> GLOBAL_XID_BASE < g_next_global g2)"
proof -
  have o: "gtm_open kv_new = Inr \<lparr> g_next_global = GLOBAL_XID_BASE, g_running = {} \<rparr>"
    by (simp add: gtm_open_def read_next_global_def kv_new_def kv_get_def)
  have r: "gtm_run \<lparr> g_next_global = GLOBAL_XID_BASE, g_running = {} \<rparr> [Begin]
      = (fst (begin_global \<lparr> g_next_global = GLOBAL_XID_BASE, g_running = {} \<rparr>), [GLOBAL_XID_BASE])"
    by (simp add: begin_global_def)
  have "unat GLOBAL_XID_BASE = 2 ^ 63" by (simp add: GLOBAL_XID_BASE_def)
  then show ?thesis using gtm_ids_global [OF o _ r, of kv_new] o by simp
qed

end
