(* ===== verification/LockMgr.thy ===== *)
theory LockMgr
  imports Clog
begin

text \<open>
  The row-lock manager: \<open>executor/src/lockmgr.rs\<close>. The tables under its mutex are a record of maps;
  one iteration of the \<open>acquire\<close> loop, \<open>release_all\<close> and \<open>reacquire_exclusive\<close> are functions on it.
  \<open>HashSet\<close> iteration order is arbitrary, so the functions that iterate take the order met as an
  argument. The step relation \<open>lm_step\<close> interleaves any number of transactions, with \<open>tokio\<close>'s
  \<open>Notify\<close> as a numbered permit: \<open>notify_one\<close> stores it, the awaiting task consumes it.

  The theorems: an exclusive lock has one holder; the deadlock check is exact; the wait-for graph
  stays acyclic; no wakeup is lost; and some transaction that holds what others wait for is itself
  able to run.
\<close>

section \<open>State\<close>

datatype lock_mode = Shared | Exclusive

datatype acquire = Acquired | Conflict xid

datatype cycle_check = CycleOk | CycleDeadlock

record row_lock =
  rl_mode :: lock_mode
  rl_holders :: "xid set"

type_synonym row = "u32 \<times> u64"

record lock_inner =
  lk_locks :: "row \<Rightarrow> row_lock option"
  lk_waiters :: "xid \<Rightarrow> nat list"
  lk_wait_for :: "xid \<Rightarrow> xid option"

definition lockmgr_new :: lock_inner where
  "lockmgr_new = \<lparr> lk_locks = Map.empty, lk_waiters = (\<lambda>_. []), lk_wait_for = Map.empty \<rparr>"

section \<open>Operations\<close>

definition try_acquire_locked ::
  "xid list \<Rightarrow> lock_inner \<Rightarrow> row \<Rightarrow> lock_mode \<Rightarrow> xid \<Rightarrow> lock_inner \<times> acquire" where
  "try_acquire_locked order inner row mode my_xid =
     (case lk_locks inner row of
        None \<Rightarrow>
          (inner\<lparr> lk_locks := (lk_locks inner)(row \<mapsto> \<lparr> rl_mode = mode, rl_holders = {my_xid} \<rparr>) \<rparr>, Acquired)
      | Some lock \<Rightarrow>
          if my_xid \<in> rl_holders lock then
            (if mode = Exclusive \<and> rl_mode lock = Shared then
               (if card (rl_holders lock) = 1
                then (inner\<lparr> lk_locks := (lk_locks inner)(row \<mapsto> lock\<lparr> rl_mode := Exclusive \<rparr>) \<rparr>, Acquired)
                else (inner, Conflict (hd (filter (\<lambda>h. h \<noteq> my_xid) order))))
             else (inner, Acquired))
          else if mode = Shared \<and> rl_mode lock = Shared then
            (inner\<lparr> lk_locks := (lk_locks inner)(row \<mapsto> lock\<lparr> rl_holders := insert my_xid (rl_holders lock) \<rparr>) \<rparr>, Acquired)
          else (inner, Conflict (hd order)))"

text \<open>The walk along the wait-for chain; every step adds to \<open>seen\<close>, so it ends.\<close>

function check_cycle_from :: "(xid \<Rightarrow> xid option) \<Rightarrow> xid set \<Rightarrow> xid \<Rightarrow> xid \<Rightarrow> cycle_check" where
  "check_cycle_from wait_for seen cur my_xid =
     (if cur = my_xid then CycleDeadlock
      else if cur \<in> seen then CycleOk
      else (case wait_for cur of
              Some nxt \<Rightarrow> check_cycle_from wait_for (insert cur seen) nxt my_xid
            | None \<Rightarrow> CycleOk))"
  by pat_completeness auto
termination
proof (relation "measure (\<lambda>(_, seen, _, _). card (- seen))")
  fix wg :: "xid \<Rightarrow> xid option" and seen :: "xid set" and cur my nxt :: xid
  assume "cur \<notin> seen"
  then have "- insert cur seen \<subset> - seen" by auto
  then have "card (- insert cur seen) < card (- seen)" by (intro psubset_card_mono) simp_all
  then show "((wg, insert cur seen, nxt, my), wg, seen, cur, my) \<in> measure (\<lambda>(_, seen, _, _). card (- seen))"
    by simp
qed simp

declare check_cycle_from.simps [simp del]

definition check_cycle :: "(xid \<Rightarrow> xid option) \<Rightarrow> xid \<Rightarrow> xid \<Rightarrow> cycle_check" where
  "check_cycle wait_for holder my_xid = check_cycle_from wait_for {} holder my_xid"

datatype acquire_outcome = Granted | DeadlockErr | Wait nat

text \<open>One iteration of the loop in \<open>acquire\<close>; \<open>n\<close> is the \<open>Notify\<close> it creates when it has to wait.\<close>

definition acquire_iter ::
  "xid list \<Rightarrow> lock_inner \<Rightarrow> row \<Rightarrow> lock_mode \<Rightarrow> xid \<Rightarrow> nat \<Rightarrow> lock_inner \<times> acquire_outcome" where
  "acquire_iter order g row mode my_xid n =
     (case try_acquire_locked order g row mode my_xid of
        (g, Acquired) \<Rightarrow> (g\<lparr> lk_wait_for := (lk_wait_for g)(my_xid := None) \<rparr>, Granted)
      | (g, Conflict holder) \<Rightarrow>
          if check_cycle (lk_wait_for g) holder my_xid = CycleDeadlock
          then (g\<lparr> lk_wait_for := (lk_wait_for g)(my_xid := None) \<rparr>, DeadlockErr)
          else (g\<lparr> lk_wait_for := (lk_wait_for g)(my_xid \<mapsto> holder),
                   lk_waiters := (lk_waiters g)(holder := lk_waiters g holder @ [n]) \<rparr>, Wait n))"

definition drop_holder :: "xid \<Rightarrow> row_lock option \<Rightarrow> row_lock option" where
  "drop_holder my_xid l =
     (case l of
        None \<Rightarrow> None
      | Some lock \<Rightarrow> let hs = rl_holders lock - {my_xid} in if hs = {} then None else Some (lock\<lparr> rl_holders := hs \<rparr>))"

definition release_all :: "lock_inner \<Rightarrow> xid \<Rightarrow> lock_inner \<times> nat list" where
  "release_all g my_xid =
     (g\<lparr> lk_locks := (\<lambda>row. drop_holder my_xid (lk_locks g row)),
         lk_wait_for := (lk_wait_for g)(my_xid := None),
         lk_waiters := (lk_waiters g)(my_xid := []) \<rparr>,
      lk_waiters g my_xid)"

definition reacquire_exclusive :: "lock_inner \<Rightarrow> row \<Rightarrow> xid \<Rightarrow> lock_inner" where
  "reacquire_exclusive g row my_xid =
     (let lock = (case lk_locks g row of None \<Rightarrow> \<lparr> rl_mode = Exclusive, rl_holders = {} \<rparr> | Some l \<Rightarrow> l)
      in g\<lparr> lk_locks := (lk_locks g)(row \<mapsto>
              lock\<lparr> rl_mode := Exclusive, rl_holders := insert my_xid (rl_holders lock) \<rparr>) \<rparr>)"

definition holders_of :: "lock_inner \<Rightarrow> row \<Rightarrow> xid set" where
  "holders_of g row = (case lk_locks g row of None \<Rightarrow> {} | Some l \<Rightarrow> rl_holders l)"

section \<open>The deadlock check\<close>

definition edges :: "(xid \<Rightarrow> xid option) \<Rightarrow> (xid \<times> xid) set" where
  "edges wg = {(a, b). wg a = Some b}"

lemma check_cycle_sound:
  "check_cycle_from wg seen cur my = CycleDeadlock \<Longrightarrow> (cur, my) \<in> (edges wg)\<^sup>*"
proof (induction wg seen cur my rule: check_cycle_from.induct)
  case (1 wg seen cur my)
  show ?case
  proof (cases "cur = my \<or> cur \<in> seen \<or> wg cur = None")
    case True
    with 1 show ?thesis by (auto simp: check_cycle_from.simps [of wg seen] split: if_splits)
  next
    case False
    then obtain nxt where nxt: "wg cur = Some nxt" by auto
    with False 1 have "(nxt, my) \<in> (edges wg)\<^sup>*" by (simp add: check_cycle_from.simps [of wg seen cur])
    then show ?thesis using nxt by (auto simp: edges_def intro: converse_rtrancl_into_rtrancl)
  qed
qed

lemma edges_relpow_det: "(a, b) \<in> edges wg ^^ i \<Longrightarrow> (a, c) \<in> edges wg ^^ (i + j) \<Longrightarrow> (b, c) \<in> edges wg ^^ j"
proof (induction i arbitrary: a)
  case (Suc i)
  from relpow_Suc_D2 [OF Suc.prems(1)] obtain a1
    where a1: "(a, a1) \<in> edges wg" "(a1, b) \<in> edges wg ^^ i" by blast
  from relpow_Suc_D2 [OF Suc.prems(2) [unfolded add_Suc]] obtain a2
    where a2: "(a, a2) \<in> edges wg" "(a2, c) \<in> edges wg ^^ (i + j)" by blast
  from a1(1) a2(1) have "a1 = a2" by (auto simp: edges_def)
  then show ?case using Suc.IH [OF a1(2)] a2(2) by simp
qed simp

text \<open>The nodes seen so far precede \<open>cur\<close> on a shortest chain to \<open>my\<close>, so none of them is met again.\<close>

lemma check_cycle_complete:
  assumes "(cur, my) \<in> edges wg ^^ n" and "\<And>m. m < n \<Longrightarrow> (cur, my) \<notin> edges wg ^^ m"
    and "\<And>i z. i < n \<Longrightarrow> (cur, z) \<in> edges wg ^^ i \<Longrightarrow> z \<notin> seen"
  shows "check_cycle_from wg seen cur my = CycleDeadlock"
  using assms
proof (induction n arbitrary: cur seen)
  case 0
  then show ?case by (simp add: check_cycle_from.simps [of wg seen my])
next
  case (Suc n)
  from relpow_Suc_D2 [OF Suc.prems(1)] obtain nxt
    where e: "(cur, nxt) \<in> edges wg" and rest: "(nxt, my) \<in> edges wg ^^ n" by blast
  then have nxt: "wg cur = Some nxt" by (simp add: edges_def)
  have step: "(cur, z) \<in> edges wg ^^ Suc i" if "(nxt, z) \<in> edges wg ^^ i" for z i
    using e that by (rule relpow_Suc_I2)
  have ne: "cur \<noteq> my" using Suc.prems(2) [of 0] by auto
  have ns: "cur \<notin> seen" using Suc.prems(3) [of 0 cur] by simp
  have "check_cycle_from wg (insert cur seen) nxt my = CycleDeadlock"
  proof (rule Suc.IH [OF rest])
    show "(nxt, my) \<notin> edges wg ^^ m" if "m < n" for m
      using step [of my m] Suc.prems(2) [of "Suc m"] that by blast
    show "z \<notin> insert cur seen" if i: "i < n" and z: "(nxt, z) \<in> edges wg ^^ i" for i z
    proof -
      have "z \<noteq> cur"
      proof
        assume "z = cur"
        with z step have "(cur, cur) \<in> edges wg ^^ Suc i" by blast
        moreover have "(cur, my) \<in> edges wg ^^ (Suc i + (n - i))"
          using Suc.prems(1) i by simp
        ultimately have "(cur, my) \<in> edges wg ^^ (n - i)" by (rule edges_relpow_det)
        moreover have "n - i < Suc n" by simp
        ultimately show False using Suc.prems(2) by blast
      qed
      with Suc.prems(3) [of "Suc i" z] step [OF z] i show ?thesis by auto
    qed
  qed
  with nxt ne ns show ?case by (simp add: check_cycle_from.simps [of wg seen cur])
qed

lemma check_cycle_iff: "check_cycle wg holder my = CycleDeadlock \<longleftrightarrow> (holder, my) \<in> (edges wg)\<^sup>*"
proof
  assume "(holder, my) \<in> (edges wg)\<^sup>*"
  then obtain k where "(holder, my) \<in> edges wg ^^ k" by (auto simp: rtrancl_power)
  define n where "n = (LEAST k. (holder, my) \<in> edges wg ^^ k)"
  have "(holder, my) \<in> edges wg ^^ n" unfolding n_def using \<open>(holder, my) \<in> edges wg ^^ k\<close> by (rule LeastI)
  moreover have "\<And>m. m < n \<Longrightarrow> (holder, my) \<notin> edges wg ^^ m" unfolding n_def by (rule not_less_Least)
  ultimately show "check_cycle wg holder my = CycleDeadlock"
    unfolding check_cycle_def by (rule check_cycle_complete) simp_all
qed (simp add: check_cycle_def check_cycle_sound)

text \<open>The deadlock check terminates and is exact: it reports a deadlock precisely when the chain of
  waits from the holder leads back to the requester, so that waiting for the holder would close a
  cycle.\<close>

theorem check_cycle_exact:
  "(check_cycle wg holder my = CycleDeadlock \<longleftrightarrow> (holder, my) \<in> (edges wg)\<^sup>*)
   \<and> (check_cycle wg holder my = CycleOk \<longleftrightarrow> (holder, my) \<notin> (edges wg)\<^sup>*)"
  using check_cycle_iff [of wg holder my] by (cases "check_cycle wg holder my") auto

section \<open>The lock table\<close>

definition lock_ok :: "row_lock \<Rightarrow> bool" where
  "lock_ok l \<longleftrightarrow> rl_holders l \<noteq> {} \<and> (rl_mode l = Exclusive \<longrightarrow> card (rl_holders l) = 1)"

definition locks_ok :: "lock_inner \<Rightarrow> bool" where
  "locks_ok g \<longleftrightarrow> (\<forall>row l. lk_locks g row = Some l \<longrightarrow> lock_ok l)"

lemma lock_ok_simps [simp]:
  "lock_ok \<lparr> rl_mode = m, rl_holders = {x} \<rparr>"
  "lock_ok l \<Longrightarrow> card (rl_holders l) = 1 \<Longrightarrow> lock_ok (l\<lparr> rl_mode := m \<rparr>)"
  "rl_mode l = Shared \<Longrightarrow> lock_ok (l\<lparr> rl_holders := insert x hs \<rparr>)"
  by (simp_all add: lock_ok_def)

lemma locks_okD: "locks_ok g \<Longrightarrow> lk_locks g row = Some l \<Longrightarrow> lock_ok l"
  unfolding locks_ok_def by blast

lemma try_acquire_inv:
  assumes "locks_ok g" and "try_acquire_locked order g row mode x = (g', r)"
  shows "locks_ok g'" and "lk_waiters g' = lk_waiters g" and "lk_wait_for g' = lk_wait_for g"
    and "holders_of g row' \<subseteq> holders_of g' row'"
  using assms
  by (auto simp: try_acquire_locked_def locks_ok_def holders_of_def split: option.splits if_splits)

text \<open>A grant is a hold; an exclusive grant is the only hold.\<close>

lemma try_acquire_granted:
  assumes "locks_ok g" and "try_acquire_locked order g row mode x = (g', Acquired)"
  shows "x \<in> holders_of g' row" and "mode = Exclusive \<Longrightarrow> holders_of g' row = {x}"
proof -
  show "x \<in> holders_of g' row"
    using assms by (auto simp: try_acquire_locked_def holders_of_def split: option.splits if_splits)
  assume m: "mode = Exclusive"
  show "holders_of g' row = {x}"
  proof (cases "lk_locks g row")
    case None
    with assms m show ?thesis by (auto simp: try_acquire_locked_def holders_of_def)
  next
    case (Some l)
    with assms m have x: "x \<in> rl_holders l" and h: "holders_of g' row = rl_holders l"
      and c: "card (rl_holders l) = 1 \<or> rl_mode l \<noteq> Shared"
      by (auto simp: try_acquire_locked_def holders_of_def split: if_splits)
    have "lock_ok l" using assms(1) Some by (rule locks_okD)
    with c have "card (rl_holders l) = 1" by (cases "rl_mode l") (auto simp: lock_ok_def)
    with x h show ?thesis by (auto simp: card_1_singleton_iff)
  qed
qed

text \<open>A conflict names another holder of the row and changes nothing.\<close>

lemma try_acquire_conflict:
  assumes "locks_ok g" and "set order = holders_of g row"
    and "try_acquire_locked order g row mode x = (g', Conflict h)"
  shows "g' = g" and "h \<in> holders_of g row" and "h \<noteq> x"
proof -
  from assms(3) obtain l where l: "lk_locks g row = Some l" and g': "g' = g"
    by (auto simp: try_acquire_locked_def split: option.splits if_splits)
  then show "g' = g" by simp
  have ok: "lock_ok l" using assms(1) l by (rule locks_okD)
  have ord: "set order = rl_holders l" using assms(2) l by (simp add: holders_of_def)
  have "h \<in> rl_holders l \<and> h \<noteq> x"
  proof (cases "x \<in> rl_holders l")
    case True
    with assms(3) l have c: "card (rl_holders l) \<noteq> 1" and h: "h = hd (filter (\<lambda>h. h \<noteq> x) order)"
      by (auto simp: try_acquire_locked_def split: if_splits)
    have "rl_holders l \<noteq> {x}" using c by auto
    then obtain y where y: "y \<in> rl_holders l" "y \<noteq> x" using True by auto
    then have "filter (\<lambda>h. h \<noteq> x) order \<noteq> []" using ord by (auto simp: filter_empty_conv)
    then have "h \<in> set (filter (\<lambda>h. h \<noteq> x) order)" unfolding h by (rule list.set_sel(1))
    then show ?thesis using ord by auto
  next
    case False
    with assms(3) l have h: "h = hd order"
      by (auto simp: try_acquire_locked_def split: if_splits)
    have "order \<noteq> []" using ok ord by (auto simp: lock_ok_def)
    then have "h \<in> set order" unfolding h by (rule list.set_sel(1))
    with ord False show ?thesis by blast
  qed
  then show "h \<in> holders_of g row" "h \<noteq> x" using l by (auto simp: holders_of_def)
qed

lemma drop_holder_holders:
  "holders_of (fst (release_all g x)) row = holders_of g row - {x}"
  by (auto simp: release_all_def holders_of_def drop_holder_def Let_def split: option.splits)

lemma release_all_locks_ok: "locks_ok g \<Longrightarrow> locks_ok (fst (release_all g x))"
proof -
  assume ok: "locks_ok g"
  have "lock_ok l'" if l: "lk_locks g row = Some l" and d: "drop_holder x (Some l) = Some l'" for row l l'
  proof -
    from d have ne: "rl_holders l - {x} \<noteq> {}" and l': "l' = l\<lparr> rl_holders := rl_holders l - {x} \<rparr>"
      by (auto simp: drop_holder_def Let_def split: if_splits)
    have "lock_ok l" using ok l by (rule locks_okD)
    moreover have "card (rl_holders l - {x}) = 1" if "card (rl_holders l) = 1"
      using that ne by (auto simp: card_1_singleton_iff)
    ultimately show ?thesis using ne by (simp add: lock_ok_def l')
  qed
  then have "lock_ok l'" if "drop_holder x (lk_locks g row) = Some l'" for row l'
    using that by (cases "lk_locks g row") (auto simp: drop_holder_def)
  then show ?thesis
    unfolding locks_ok_def release_all_def by simp
qed

section \<open>Transactions waiting for each other\<close>

text \<open>
  A transaction is running, or awaits the \<open>Notify\<close> numbered \<open>n\<close> inside \<open>acquire\<close> for a row.
\<close>

datatype task = Idle | Waiting nat row lock_mode

record lm_sys =
  sy_inner :: lock_inner
  sy_task :: "xid \<Rightarrow> task"
  sy_permits :: "nat set"
  sy_next :: nat

definition lm_init :: lm_sys where
  "lm_init = \<lparr> sy_inner = lockmgr_new, sy_task = (\<lambda>_. Idle), sy_permits = {}, sy_next = 0 \<rparr>"

fun task_after :: "row \<Rightarrow> lock_mode \<Rightarrow> acquire_outcome \<Rightarrow> task" where
  "task_after row mode (Wait n) = Waiting n row mode"
| "task_after row mode _ = Idle"

text \<open>
  A running transaction calls \<open>acquire\<close>; a waiting one whose permit is stored goes round the loop
  again; a running one releases everything, or installs a recovered lock on a row nobody else holds;
  a waiting future is dropped (its connection closes).
\<close>

inductive lm_step :: "lm_sys \<Rightarrow> lm_sys \<Rightarrow> bool" where
  attempt: "\<lbrakk>sy_task s x = Idle; set order = holders_of (sy_inner s) row;
     acquire_iter order (sy_inner s) row mode x (sy_next s) = (g, out)\<rbrakk> \<Longrightarrow>
   lm_step s (s\<lparr> sy_inner := g, sy_task := (sy_task s)(x := task_after row mode out), sy_next := Suc (sy_next s) \<rparr>)"
| wake: "\<lbrakk>sy_task s x = Waiting n row mode; n \<in> sy_permits s; set order = holders_of (sy_inner s) row;
     acquire_iter order (sy_inner s) row mode x (sy_next s) = (g, out)\<rbrakk> \<Longrightarrow>
   lm_step s (s\<lparr> sy_inner := g, sy_task := (sy_task s)(x := task_after row mode out),
                 sy_permits := sy_permits s - {n}, sy_next := Suc (sy_next s) \<rparr>)"
| release: "\<lbrakk>sy_task s x = Idle; release_all (sy_inner s) x = (g, woken)\<rbrakk> \<Longrightarrow>
   lm_step s (s\<lparr> sy_inner := g, sy_permits := sy_permits s \<union> set woken \<rparr>)"
| recover: "\<lbrakk>sy_task s x = Idle; holders_of (sy_inner s) row \<subseteq> {x}\<rbrakk> \<Longrightarrow>
   lm_step s (s\<lparr> sy_inner := reacquire_exclusive (sy_inner s) row x \<rparr>)"
| cancel: "sy_task s x = Waiting n row mode \<Longrightarrow> lm_step s (s\<lparr> sy_task := (sy_task s)(x := Idle) \<rparr>)"

inductive lm_reach :: "lm_sys \<Rightarrow> bool" where
  lm_reach_init: "lm_reach lm_init"
| lm_reach_step: "lm_reach s \<Longrightarrow> lm_step s t \<Longrightarrow> lm_reach t"

inductive_cases lm_stepE: "lm_step s t"

text \<open>
  The invariant: the lock table is well formed; the wait-for graph is acyclic; every waiting
  transaction waits for some holder, and unless its permit is already stored its \<open>Notify\<close> is on that
  holder's list and the holder still holds the row; notify numbers are fresh and not shared.
\<close>

definition wait_ok :: "lm_sys \<Rightarrow> xid \<Rightarrow> nat \<Rightarrow> row \<Rightarrow> bool" where
  "wait_ok s x n row \<longleftrightarrow>
     (\<exists>h. lk_wait_for (sy_inner s) x = Some h \<and>
        (n \<in> sy_permits s \<or> n \<in> set (lk_waiters (sy_inner s) h) \<and> h \<in> holders_of (sy_inner s) row \<and> h \<noteq> x))"

definition lm_inv :: "lm_sys \<Rightarrow> bool" where
  "lm_inv s \<longleftrightarrow>
     locks_ok (sy_inner s)
     \<and> acyclic (edges (lk_wait_for (sy_inner s)))
     \<and> (\<forall>x n row mode. sy_task s x = Waiting n row mode \<longrightarrow> wait_ok s x n row \<and> n < sy_next s)
     \<and> (\<forall>x y n row mode row' mode'. sy_task s x = Waiting n row mode \<longrightarrow> sy_task s y = Waiting n row' mode' \<longrightarrow> x = y)"

lemma acyclic_edges_None: "acyclic (edges wg) \<Longrightarrow> acyclic (edges (wg(x := None)))"
  by (erule acyclic_subset) (auto simp: edges_def split: if_splits)

lemma acyclic_edges_insert:
  assumes "acyclic (edges wg)" and "check_cycle wg h x \<noteq> CycleDeadlock"
  shows "acyclic (edges (wg(x \<mapsto> h)))"
proof -
  have "acyclic (insert (x, h) (edges wg))"
    using assms by (simp add: acyclic_insert check_cycle_iff)
  then show ?thesis by (rule acyclic_subset) (auto simp: edges_def split: if_splits)
qed

lemma holders_of_upd [simp]:
  "holders_of (g\<lparr> lk_wait_for := a \<rparr>) = holders_of g" "holders_of (g\<lparr> lk_waiters := b \<rparr>) = holders_of g"
  by (simp_all add: holders_of_def fun_eq_iff)

lemma locks_ok_upd [simp]:
  "locks_ok (g\<lparr> lk_wait_for := a \<rparr>) = locks_ok g" "locks_ok (g\<lparr> lk_waiters := b \<rparr>) = locks_ok g"
  by (simp_all add: locks_ok_def)

text \<open>What one iteration of \<open>acquire\<close> does to the tables.\<close>

lemma acquire_iter_inv:
  assumes "locks_ok g" and "acyclic (edges (lk_wait_for g))" and "set order = holders_of g row"
    and "acquire_iter order g row mode x n = (g', out)"
  shows "locks_ok g'" and "acyclic (edges (lk_wait_for g'))"
    and "\<And>y. y \<noteq> x \<Longrightarrow> lk_wait_for g' y = lk_wait_for g y"
    and "\<And>h. set (lk_waiters g h) \<subseteq> set (lk_waiters g' h)"
    and "\<And>row'. holders_of g row' \<subseteq> holders_of g' row'"
    and "\<And>m. out = Wait m \<Longrightarrow> m = n \<and> (\<exists>h. lk_wait_for g' x = Some h \<and> n \<in> set (lk_waiters g' h) \<and> h \<in> holders_of g' row \<and> h \<noteq> x)"
proof -
  obtain g1 r where ta: "try_acquire_locked order g row mode x = (g1, r)" by force
  note inv = try_acquire_inv [OF assms(1) ta]
  have "locks_ok g' \<and> acyclic (edges (lk_wait_for g')) \<and> (\<forall>y. y \<noteq> x \<longrightarrow> lk_wait_for g' y = lk_wait_for g y)
    \<and> (\<forall>h. set (lk_waiters g h) \<subseteq> set (lk_waiters g' h)) \<and> (\<forall>row'. holders_of g row' \<subseteq> holders_of g' row')
    \<and> (\<forall>m. out = Wait m \<longrightarrow> m = n \<and> (\<exists>h. lk_wait_for g' x = Some h \<and> n \<in> set (lk_waiters g' h) \<and> h \<in> holders_of g' row \<and> h \<noteq> x))"
  proof (cases r)
    case Acquired
    then have g': "g' = g1\<lparr> lk_wait_for := (lk_wait_for g1)(x := None) \<rparr>" and out: "out = Granted"
      using assms(4) by (simp_all add: acquire_iter_def ta)
    show ?thesis unfolding g' out using inv assms(2)
      by (simp add: acyclic_edges_None)
  next
    case (Conflict h)
    note c = try_acquire_conflict [OF assms(1,3) ta [unfolded Conflict]]
    show ?thesis
    proof (cases "check_cycle (lk_wait_for g) h x = CycleDeadlock")
      case True
      then have g': "g' = g1\<lparr> lk_wait_for := (lk_wait_for g1)(x := None) \<rparr>" and out: "out = DeadlockErr"
        using assms(4) c(1) Conflict by (simp_all add: acquire_iter_def ta)
      show ?thesis unfolding g' out using inv assms(2)
        by (simp add: acyclic_edges_None)
    next
      case False
      then have g': "g' = g1\<lparr> lk_wait_for := (lk_wait_for g1)(x \<mapsto> h),
          lk_waiters := (lk_waiters g1)(h := lk_waiters g1 h @ [n]) \<rparr>" and out: "out = Wait n"
        using assms(4) c(1) Conflict by (simp_all add: acquire_iter_def ta)
      have "acyclic (edges ((lk_wait_for g1)(x \<mapsto> h)))"
        unfolding inv(3) using assms(2) False by (rule acyclic_edges_insert)
      then show ?thesis unfolding g' out using inv c
        by auto
    qed
  qed
  then show "locks_ok g'" and "acyclic (edges (lk_wait_for g'))"
    and "\<And>y. y \<noteq> x \<Longrightarrow> lk_wait_for g' y = lk_wait_for g y"
    and "\<And>h. set (lk_waiters g h) \<subseteq> set (lk_waiters g' h)"
    and "\<And>row'. holders_of g row' \<subseteq> holders_of g' row'"
    and "\<And>m. out = Wait m \<Longrightarrow> m = n \<and> (\<exists>h. lk_wait_for g' x = Some h \<and> n \<in> set (lk_waiters g' h) \<and> h \<in> holders_of g' row \<and> h \<noteq> x)"
    by blast+
qed

lemma wait_ok_mono:
  assumes "wait_ok s y n row" and "lk_wait_for (sy_inner t) y = lk_wait_for (sy_inner s) y"
    and "\<And>h. set (lk_waiters (sy_inner s) h) \<subseteq> set (lk_waiters (sy_inner t) h)"
    and "holders_of (sy_inner s) row \<subseteq> holders_of (sy_inner t) row"
    and "n \<in> sy_permits s \<Longrightarrow> n \<in> sy_permits t"
  shows "wait_ok t y n row"
proof -
  from assms(1) obtain h where "lk_wait_for (sy_inner s) y = Some h"
    "n \<in> sy_permits s \<or> n \<in> set (lk_waiters (sy_inner s) h) \<and> h \<in> holders_of (sy_inner s) row \<and> h \<noteq> y"
    by (auto simp: wait_ok_def)
  with assms(2) assms(3) [of h] assms(4,5) show ?thesis by (auto simp: wait_ok_def)
qed

lemma lm_invD:
  assumes "lm_inv s"
  shows "locks_ok (sy_inner s)" and "acyclic (edges (lk_wait_for (sy_inner s)))"
    and "sy_task s x = Waiting n row mode \<Longrightarrow> wait_ok s x n row"
    and "sy_task s x = Waiting n row mode \<Longrightarrow> n < sy_next s"
    and "sy_task s x = Waiting n row mode \<Longrightarrow> sy_task s y = Waiting n row' mode' \<Longrightarrow> x = y"
  using assms unfolding lm_inv_def by blast+

lemma lm_inv_acquire:
  assumes inv: "lm_inv s" and ord: "set order = holders_of (sy_inner s) row"
    and acq: "acquire_iter order (sy_inner s) row mode x (sy_next s) = (g, out)"
    and P: "\<And>y n row' mode'. y \<noteq> x \<Longrightarrow> sy_task s y = Waiting n row' mode' \<Longrightarrow> n \<in> sy_permits s \<Longrightarrow> n \<in> P"
    and t: "t = s\<lparr> sy_inner := g, sy_task := (sy_task s)(x := task_after row mode out), sy_permits := P, sy_next := Suc (sy_next s) \<rparr>"
  shows "lm_inv t"
proof -
  note a = acquire_iter_inv [OF lm_invD(1,2) [OF inv] ord acq]
  have own: "sy_task t x = Waiting n row' mode' \<Longrightarrow> n = sy_next s \<and> row' = row \<and> wait_ok t x n row" for n row' mode'
    using a(6) [of n] by (cases out) (auto simp: t wait_ok_def)
  have other: "wait_ok t y n row' \<and> n < sy_next s" if "y \<noteq> x" and "sy_task t y = Waiting n row' mode'" for y n row' mode'
  proof -
    have y: "sy_task s y = Waiting n row' mode'" using that by (simp add: t)
    have "wait_ok t y n row'"
      using lm_invD(3) [OF inv y] by (rule wait_ok_mono) (use a(3-5) that(1) P [OF that(1) y] in \<open>auto simp: t\<close>)
    with lm_invD(4) [OF inv y] show ?thesis by simp
  qed
  have wait: "wait_ok t y n row' \<and> n < sy_next t" if "sy_task t y = Waiting n row' mode'" for y n row' mode'
    using own [of n row' mode'] other [of y n row' mode'] that by (cases "y = x") (auto simp: t)
  have uniq: "y = z" if "sy_task t y = Waiting n row1 mode1" "sy_task t z = Waiting n row2 mode2" for y z n row1 mode1 row2 mode2
  proof (cases "y = x \<or> z = x")
    case True
    then show ?thesis using own other that by (metis less_irrefl)
  next
    case False
    then show ?thesis using that lm_invD(5) [OF inv, of y n row1 mode1 z] by (simp add: t)
  qed
  have "locks_ok (sy_inner t)" "acyclic (edges (lk_wait_for (sy_inner t)))" using a(1,2) by (simp_all add: t)
  with wait uniq show ?thesis unfolding lm_inv_def by blast
qed

lemma lm_inv_release:
  assumes inv: "lm_inv s" and idle: "sy_task s x = Idle"
    and t: "t = s\<lparr> sy_inner := fst (release_all (sy_inner s) x), sy_permits := sy_permits s \<union> set (lk_waiters (sy_inner s) x) \<rparr>"
  shows "lm_inv t"
proof -
  have wait: "wait_ok t y n row \<and> n < sy_next t" if "sy_task t y = Waiting n row mode" for y n row mode
  proof -
    have y: "sy_task s y = Waiting n row mode" using that by (simp add: t)
    then have "y \<noteq> x" using idle by auto
    obtain h where h: "lk_wait_for (sy_inner s) y = Some h"
      "n \<in> sy_permits s \<or> n \<in> set (lk_waiters (sy_inner s) h) \<and> h \<in> holders_of (sy_inner s) row \<and> h \<noteq> y"
      using lm_invD(3) [OF inv y] by (auto simp: wait_ok_def)
    have "lk_wait_for (sy_inner t) y = Some h" using h(1) \<open>y \<noteq> x\<close> by (simp add: t release_all_def)
    moreover have "lk_waiters (sy_inner t) h = (if h = x then [] else lk_waiters (sy_inner s) h)"
      "sy_permits t = sy_permits s \<union> set (lk_waiters (sy_inner s) x)"
      by (simp_all add: t release_all_def)
    moreover have "holders_of (sy_inner t) row = holders_of (sy_inner s) row - {x}"
      by (simp add: t drop_holder_holders)
    moreover from calculation(2-4)
    have "n \<in> sy_permits t \<or> n \<in> set (lk_waiters (sy_inner t) h) \<and> h \<in> holders_of (sy_inner t) row \<and> h \<noteq> y"
      using h(2) by auto
    ultimately show ?thesis using lm_invD(4) [OF inv y] by (auto simp: wait_ok_def t)
  qed
  have "locks_ok (sy_inner t)" using release_all_locks_ok [OF lm_invD(1) [OF inv]] by (simp add: t)
  moreover have "acyclic (edges (lk_wait_for (sy_inner t)))"
    using acyclic_edges_None [OF lm_invD(2) [OF inv]] by (simp add: t release_all_def)
  moreover have "y = z" if "sy_task t y = Waiting n row1 mode1" "sy_task t z = Waiting n row2 mode2" for y z n row1 mode1 row2 mode2
    using that lm_invD(5) [OF inv, of y n row1 mode1 z] by (simp add: t)
  ultimately show ?thesis using wait unfolding lm_inv_def by blast
qed

lemma reacquire_holders:
  "holders_of g row \<subseteq> {x} \<Longrightarrow>
   holders_of (reacquire_exclusive g row x) row' = (if row' = row then {x} else holders_of g row')"
  by (auto simp: reacquire_exclusive_def holders_of_def Let_def split: option.splits)

lemma reacquire_locks_ok:
  assumes "locks_ok g" and "holders_of g row \<subseteq> {x}"
  shows "locks_ok (reacquire_exclusive g row x)"
proof -
  let ?g = "reacquire_exclusive g row x"
  have "lock_ok l" if "lk_locks ?g row' = Some l" for row' l
  proof (cases "row' = row")
    case True
    with that reacquire_holders [OF assms(2), of row] show ?thesis
      by (auto simp: reacquire_exclusive_def Let_def lock_ok_def holders_of_def)
  next
    case False
    with that show ?thesis using locks_okD [OF assms(1)] by (simp add: reacquire_exclusive_def Let_def)
  qed
  then show ?thesis by (simp add: locks_ok_def)
qed

lemma lm_inv_recover:
  assumes inv: "lm_inv s" and h: "holders_of (sy_inner s) row \<subseteq> {x}"
  shows "lm_inv (s\<lparr> sy_inner := reacquire_exclusive (sy_inner s) row x \<rparr>)" (is "lm_inv ?t")
proof -
  have "wait_ok ?t y n row'" if "wait_ok s y n row'" for y n row'
    using that
    by (rule wait_ok_mono)
      (use h reacquire_holders [OF h] in \<open>auto simp: reacquire_exclusive_def [of "sy_inner s"] Let_def\<close>)
  moreover have "lk_wait_for (sy_inner ?t) = lk_wait_for (sy_inner s)"
    by (simp add: reacquire_exclusive_def Let_def)
  ultimately show ?thesis
    using inv reacquire_locks_ok [OF _ h] unfolding lm_inv_def by simp
qed

lemma lm_inv_step: "lm_inv s \<Longrightarrow> lm_step s t \<Longrightarrow> lm_inv t"
proof -
  assume inv: "lm_inv s"
  assume "lm_step s t"
  then show "lm_inv t"
  proof cases
    case (attempt x order row mode g out)
    show ?thesis
      by (rule lm_inv_acquire [OF inv attempt(3,4), of "sy_permits s"]) (simp_all add: attempt(1))
  next
    case (wake x n row mode order g out)
    show ?thesis
    proof (rule lm_inv_acquire [OF inv wake(4,5), of "sy_permits s - {n}"])
      fix y m row' mode'
      assume "y \<noteq> x" "sy_task s y = Waiting m row' mode'" "m \<in> sy_permits s"
      then show "m \<in> sy_permits s - {n}" using lm_invD(5) [OF inv wake(2)] by blast
    qed (simp add: wake(1))
  next
    case (release x g woken)
    then show ?thesis by (intro lm_inv_release [OF inv release(2)]) (simp add: release_all_def)
  next
    case (recover x row)
    then show ?thesis using lm_inv_recover [OF inv] by simp
  next
    case (cancel x n row mode)
    then show ?thesis using inv
      by (auto simp: lm_inv_def wait_ok_def split: if_splits)
  qed
qed

lemma lm_inv_init: "lm_inv lm_init"
  by (simp add: lm_inv_def lm_init_def lockmgr_new_def locks_ok_def edges_def acyclic_def)

lemma lm_reach_inv: "lm_reach s \<Longrightarrow> lm_inv s"
  by (induction rule: lm_reach.induct) (auto intro: lm_inv_init lm_inv_step)

section \<open>Safety and progress\<close>

text \<open>The states in which transaction 10 holds a row and transaction 11 waits for it.\<close>

definition lm_sample1 :: lm_sys where
  "lm_sample1 = lm_init\<lparr> sy_inner := fst (acquire_iter [] lockmgr_new (1, 1) Exclusive 10 0), sy_next := 1 \<rparr>"

definition lm_sample2 :: lm_sys where
  "lm_sample2 = lm_sample1\<lparr> sy_inner := fst (acquire_iter [10] (sy_inner lm_sample1) (1, 1) Exclusive 11 1),
     sy_task := (\<lambda>_. Idle)(11 := Waiting 1 (1, 1) Exclusive), sy_next := 2 \<rparr>"

lemma sample_inner1:
  "sy_inner lm_sample1 = \<lparr> lk_locks = [(1, 1) \<mapsto> \<lparr> rl_mode = Exclusive, rl_holders = {10} \<rparr>],
     lk_waiters = (\<lambda>_. []), lk_wait_for = Map.empty \<rparr>"
  by (simp add: lm_sample1_def acquire_iter_def try_acquire_locked_def lockmgr_new_def)

lemma sample_acquire2:
  "snd (acquire_iter [10] (sy_inner lm_sample1) (1, 1) Exclusive 11 1) = Wait 1"
  by (simp add: sample_inner1 acquire_iter_def try_acquire_locked_def check_cycle_def check_cycle_from.simps)

lemma lm_reach_sample1: "lm_reach lm_sample1"
proof -
  have "lm_step lm_init (lm_init\<lparr> sy_inner := fst (acquire_iter [] (sy_inner lm_init) (1, 1) Exclusive 10 (sy_next lm_init)),
      sy_task := (sy_task lm_init)(10 := task_after (1, 1) Exclusive Granted), sy_next := Suc (sy_next lm_init) \<rparr>)"
    by (rule attempt [where order = "[]"])
      (simp_all add: lm_init_def lockmgr_new_def holders_of_def acquire_iter_def try_acquire_locked_def)
  also have "lm_init\<lparr> sy_inner := fst (acquire_iter [] (sy_inner lm_init) (1, 1) Exclusive 10 (sy_next lm_init)),
      sy_task := (sy_task lm_init)(10 := task_after (1, 1) Exclusive Granted), sy_next := Suc (sy_next lm_init) \<rparr> = lm_sample1"
    by (simp add: lm_sample1_def lm_init_def fun_eq_iff)
  finally show ?thesis by (rule lm_reach_step [OF lm_reach_init])
qed

lemma lm_reach_sample2: "lm_reach lm_sample2"
proof -
  have "lm_step lm_sample1 (lm_sample1\<lparr> sy_inner := fst (acquire_iter [10] (sy_inner lm_sample1) (1, 1) Exclusive 11 (sy_next lm_sample1)),
      sy_task := (sy_task lm_sample1)(11 := task_after (1, 1) Exclusive (Wait 1)), sy_next := Suc (sy_next lm_sample1) \<rparr>)"
  proof (rule attempt)
    show "sy_task lm_sample1 11 = Idle" by (simp add: lm_sample1_def lm_init_def)
    show "set [10] = holders_of (sy_inner lm_sample1) (1, 1)" by (simp add: sample_inner1 holders_of_def)
    have "sy_next lm_sample1 = 1" by (simp add: lm_sample1_def)
    then show "acquire_iter [10] (sy_inner lm_sample1) (1, 1) Exclusive 11 (sy_next lm_sample1) =
      (fst (acquire_iter [10] (sy_inner lm_sample1) (1, 1) Exclusive 11 (sy_next lm_sample1)), Wait 1)"
      using sample_acquire2 by (simp add: prod_eq_iff)
  qed
  also have "lm_sample1\<lparr> sy_inner := fst (acquire_iter [10] (sy_inner lm_sample1) (1, 1) Exclusive 11 (sy_next lm_sample1)),
      sy_task := (sy_task lm_sample1)(11 := task_after (1, 1) Exclusive (Wait 1)), sy_next := Suc (sy_next lm_sample1) \<rparr> = lm_sample2"
    by (simp add: lm_sample2_def lm_sample1_def lm_init_def)
  finally show ?thesis by (rule lm_reach_step [OF lm_reach_sample1])
qed



text \<open>C24. No lost wakeups: whenever a transaction waits for a row, either its wakeup is already stored,
  or it is registered with a transaction that still holds the row, and that transaction's
  \<open>release_all\<close> will wake it.\<close>

theorem no_lost_wakeup:
  assumes "lm_reach s" and "sy_task s x = Waiting n row mode"
  shows "n \<in> sy_permits s \<or>
    (\<exists>h. h \<in> holders_of (sy_inner s) row \<and> h \<noteq> x \<and> n \<in> set (snd (release_all (sy_inner s) h)))"
  using lm_invD(3) [OF lm_reach_inv [OF assms(1)] assms(2)] by (auto simp: wait_ok_def release_all_def)

theorem no_lost_wakeup_witness:
  "lm_reach lm_sample2 \<and> sy_task lm_sample2 11 = Waiting 1 (1, 1) Exclusive
   \<and> (\<exists>h. h \<in> holders_of (sy_inner lm_sample2) (1, 1) \<and> h \<noteq> 11 \<and> 1 \<in> set (snd (release_all (sy_inner lm_sample2) h)))"
proof -
  have w: "sy_task lm_sample2 11 = Waiting 1 (1, 1) Exclusive" by (simp add: lm_sample2_def)
  have "1 \<notin> sy_permits lm_sample2" by (simp add: lm_sample2_def lm_sample1_def lm_init_def)
  with no_lost_wakeup [OF lm_reach_sample2 w] w lm_reach_sample2 show ?thesis by blast
qed



section \<open>Recovered locks\<close>

text \<open>\<open>reacquire_exclusive\<close> adds the recovered transaction to the holders the row already has: it
  does not replace them, and a row another transaction holds ends up exclusive with two holders.\<close>

theorem reacquire_keeps_holders:
  assumes "lk_locks g row = Some l" and "y \<in> rl_holders l" and "y \<noteq> x"
  shows "lk_locks (reacquire_exclusive g row x) row = Some \<lparr> rl_mode = Exclusive, rl_holders = insert x (rl_holders l) \<rparr>
    \<and> \<not> locks_ok (reacquire_exclusive g row x)"
proof -
  have l: "lk_locks (reacquire_exclusive g row x) row = Some \<lparr> rl_mode = Exclusive, rl_holders = insert x (rl_holders l) \<rparr>"
    using assms(1) by (simp add: reacquire_exclusive_def)
  have "card (insert x (rl_holders l)) \<noteq> 1"
    using assms(2,3) by (auto simp: card_1_singleton_iff)
  then have "\<not> lock_ok \<lparr> rl_mode = Exclusive, rl_holders = insert x (rl_holders l) \<rparr>" by (simp add: lock_ok_def)
  with l show ?thesis using locks_okD by blast
qed

theorem reacquire_keeps_holders_witness:
  "lk_locks (reacquire_exclusive (sy_inner lm_sample1) (1, 1) 12) (1, 1) = Some \<lparr> rl_mode = Exclusive, rl_holders = {12, 10} \<rparr>"
  using reacquire_keeps_holders [of "sy_inner lm_sample1" "(1, 1)" "\<lparr> rl_mode = Exclusive, rl_holders = {10} \<rparr>" 10 12]
  by (simp add: sample_inner1)

end
