(* ===== verification/RangeMap.thy ===== *)
theory RangeMap
  imports KvStore RustStd
begin

text \<open>
  Range addressing: \<open>cluster/src/range/map.rs\<close> and \<open>cluster/src/range/meta.rs\<close>. A range map splits
  the table ids into contiguous ranges at strictly increasing, nonzero boundaries, and is stored as a
  list of range descriptors. The theorems: the ranges partition the table ids and \<open>range_for_table\<close>
  finds the one; the blob round-trips; and a blob the decoder accepts always is a valid partition.

  \<open>slice::partition_point\<close> is the length of the leading part that satisfies the predicate.
\<close>

section \<open>Range maps\<close>

type_synonym range_id = u32

record range_map =
  boundaries :: "u32 list"

definition rm_single :: range_map where
  "rm_single = \<lparr> boundaries = [] \<rparr>"

text \<open>\<open>None\<close>: the assertion panics.\<close>

definition with_boundaries :: "u32 list \<Rightarrow> range_map option" where
  "with_boundaries bs =
     (if \<not> list_all (\<lambda>b. b \<noteq> 0) bs then None
      else if \<not> list_all (\<lambda>i. bs ! i < bs ! (i + 1)) [0..<length bs - 1] then None
      else Some \<lparr> boundaries = bs \<rparr>)"

definition range_count :: "range_map \<Rightarrow> nat" where
  "range_count rm = length (boundaries rm) + 1"

definition range_for_table :: "range_map \<Rightarrow> u32 \<Rightarrow> range_id" where
  "range_for_table rm table_id = word_of_nat (length (takeWhile (\<lambda>b. b \<le> table_id) (boundaries rm)))"

definition range_ids :: "range_map \<Rightarrow> range_id list" where
  "range_ids rm = map word_of_nat [0..<unat (word_of_nat (range_count rm) :: u32)]"

section \<open>Descriptors\<close>

definition RANGE_MAP_VERSION :: byte where
  "RANGE_MAP_VERSION = 1"

record range_descriptor =
  rd_range_id :: range_id
  rd_start :: u32
  rd_end :: "u32 option"

definition descriptor_at :: "range_map \<Rightarrow> nat \<Rightarrow> range_descriptor" where
  "descriptor_at rm i =
     \<lparr> rd_range_id = word_of_nat i,
       rd_start = (if i = 0 then 0 else boundaries rm ! (i - 1)),
       rd_end = (if i < length (boundaries rm) then Some (boundaries rm ! i) else None) \<rparr>"

definition descriptors :: "range_map \<Rightarrow> range_descriptor list" where
  "descriptors rm = map (descriptor_at rm) [0..<unat (word_of_nat (range_count rm) :: u32)]"

definition descriptor_bytes :: "range_descriptor \<Rightarrow> bytes" where
  "descriptor_bytes d =
     be_bytes (rd_range_id d) @ be_bytes (rd_start d) @
     (case rd_end d of Some e \<Rightarrow> 1 # be_bytes e | None \<Rightarrow> 0 # be_bytes (0 :: u32))"

definition to_descriptor_bytes :: "range_map \<Rightarrow> bytes" where
  "to_descriptor_bytes rm =
     (let descs = descriptors rm
      in RANGE_MAP_VERSION # be_bytes (word_of_nat (length descs) :: u32) @ concat (map descriptor_bytes descs))"

definition rm_take_u8 :: "bytes \<Rightarrow> kv_error + (byte \<times> bytes)" where
  "rm_take_u8 cur = (case cur of [] \<Rightarrow> Inl (CorruptRow ''truncated range map'') | h # rest \<Rightarrow> Inr (h, rest))"

definition rm_take_n :: "bytes \<Rightarrow> nat \<Rightarrow> kv_error + (bytes \<times> bytes)" where
  "rm_take_n cur n =
     (if length cur < n then Inl (CorruptRow ''truncated range-map field'') else Inr (take n cur, drop n cur))"

text \<open>The loop over the descriptors: \<open>n\<close> of \<open>count\<close> are left, \<open>i = count - n\<close> is the position.\<close>

fun decode_descriptors ::
  "nat \<Rightarrow> nat \<Rightarrow> bytes \<Rightarrow> u32 \<Rightarrow> u32 list \<Rightarrow> kv_error + u32 list" where
  "decode_descriptors 0 i cur expected bs = Inr bs"
| "decode_descriptors (Suc n) i cur expected bs =
     rbind (rm_take_n cur 4) (\<lambda>(raw_id, cur).
     rbind (rm_take_n cur 4) (\<lambda>(raw_start, cur).
     rbind (rm_take_u8 cur) (\<lambda>(end_present, cur).
     rbind (rm_take_n cur 4) (\<lambda>(raw_end, cur).
       let range_id = (of_be raw_id :: u32); start = (of_be raw_start :: u32); end_raw = (of_be raw_end :: u32)
       in if unat range_id \<noteq> i
          then Inl (CorruptRow (''range ids must be contiguous 0..N; got '' @ dec_nat (unat range_id)
                                @ '' at position '' @ dec_nat i))
          else if start \<noteq> expected
          then Inl (CorruptRow (''range '' @ dec_nat i @ '' starts at '' @ dec_nat (unat start)
                                @ '', expected '' @ dec_nat (unat expected) @ '' (ranges must be contiguous)''))
          else if n = 0
          then (if end_present = 0 then Inr bs else Inl (CorruptRow ''last range must be unbounded''))
          else if end_present = 1
          then (if end_raw \<le> start then Inl (CorruptRow ''range end must exceed start'')
                else decode_descriptors n (i + 1) cur end_raw (bs @ [end_raw]))
          else Inl (CorruptRow ''non-last range must be bounded'')))))"

definition from_descriptor_bytes :: "bytes \<Rightarrow> kv_error + range_map" where
  "from_descriptor_bytes bs =
     rbind (rm_take_u8 bs) (\<lambda>(version, cur).
       if version \<noteq> RANGE_MAP_VERSION
       then Inl (CorruptRow (''unknown range-map version '' @ dec_nat (unat version)))
       else rbind (rm_take_n cur 4) (\<lambda>(raw, cur).
         let count = unat (of_be raw :: u32)
         in if count = 0 then Inl (CorruptRow ''range map has zero ranges'')
            else rbind (decode_descriptors count 0 cur 0 []) (\<lambda>bs. Inr \<lparr> boundaries = bs \<rparr>)))"

section \<open>The stored map\<close>

definition read_range_map :: "mem_kv \<Rightarrow> kv_error + range_map option" where
  "read_range_map store =
     (case kv_get store meta_range_map_key of
        Some bs \<Rightarrow> rbind (from_descriptor_bytes bs) (\<lambda>rm. Inr (Some rm))
      | None \<Rightarrow> Inr None)"

text \<open>
  The Raft group's \<open>client_write\<close> is a parameter: it proposes a batch against a store and returns the
  store with the batch applied, or an error. Error texts of \<open>std::io::Error\<close> are kept abstract.
\<close>

type_synonym client_write = "write_op list \<Rightarrow> mem_kv \<Rightarrow> string + mem_kv"

definition write_range_map :: "client_write \<Rightarrow> range_map \<Rightarrow> mem_kv \<Rightarrow> string + mem_kv" where
  "write_range_map cw rm store =
     map_err (\<lambda>e. ''seed range map: '' @ e) (cw [Put meta_range_map_key (to_descriptor_bytes rm)] store)"

definition seed_if_absent :: "client_write \<Rightarrow> range_map \<Rightarrow> mem_kv \<Rightarrow> string + mem_kv" where
  "seed_if_absent cw rm store =
     rbind (map_err (\<lambda>_. ''read seed'') (read_range_map store)) (\<lambda>m.
       if m = None then write_range_map cw rm store else Inr store)"

section \<open>Partition\<close>

definition rm_ok :: "range_map \<Rightarrow> bool" where
  "rm_ok rm \<longleftrightarrow> sorted_wrt (<) (boundaries rm) \<and> 0 \<notin> set (boundaries rm) \<and> length (boundaries rm) + 1 < 2 ^ 32"

lemma with_boundaries_ok:
  assumes "with_boundaries bs = Some rm" and "length bs + 1 < 2 ^ 32"
  shows "rm_ok rm \<and> boundaries rm = bs"
proof -
  from assms(1) have nz: "0 \<notin> set bs" and step: "\<And>i. i < length bs - 1 \<Longrightarrow> bs ! i < bs ! Suc i"
    and rm: "rm = \<lparr> boundaries = bs \<rparr>"
    by (auto simp: with_boundaries_def list_all_iff split: if_splits)
  have "sorted_wrt (<) bs" using step by (auto simp: sorted_wrt_iff_nth_Suc_transp)
  with nz assms(2) rm show ?thesis by (simp add: rm_ok_def)
qed

lemma descriptors_nth:
  "rm_ok rm \<Longrightarrow> descriptors rm = map (descriptor_at rm) [0..<range_count rm]"
proof -
  assume "rm_ok rm"
  then have "unat (word_of_nat (range_count rm) :: u32) = range_count rm"
    by (intro unat_of_nat_small) (simp add: rm_ok_def range_count_def)
  then show ?thesis by (simp only: descriptors_def)
qed

definition in_range :: "range_descriptor \<Rightarrow> u32 \<Rightarrow> bool" where
  "in_range d t \<longleftrightarrow> rd_start d \<le> t \<and> (case rd_end d of None \<Rightarrow> True | Some e \<Rightarrow> t < e)"

lemma takeWhile_sorted_nth:
  fixes bs :: "'a::linorder list"
  assumes "sorted_wrt (<) bs" and "i < length bs"
  shows "bs ! i \<le> t \<longleftrightarrow> i < length (takeWhile (\<lambda>b. b \<le> t) bs)"
proof
  let ?n = "length (takeWhile (\<lambda>b. b \<le> t) bs)"
  assume le: "bs ! i \<le> t"
  show "i < ?n"
  proof (rule ccontr)
    assume "\<not> i < ?n"
    then have n: "?n \<le> i" by simp
    then have "?n < length bs" using assms(2) by simp
    then have "\<not> bs ! ?n \<le> t" by (rule nth_length_takeWhile)
    moreover have "bs ! ?n \<le> bs ! i"
      using assms n by (cases "?n = i") (auto simp: sorted_wrt_iff_nth_less less_imp_le)
    ultimately show False using le by simp
  qed
next
  assume "i < length (takeWhile (\<lambda>b. b \<le> t) bs)"
  then show "bs ! i \<le> t" by (metis nth_mem set_takeWhileD takeWhile_nth)
qed

lemma in_range_iff:
  assumes "rm_ok rm" and "i < range_count rm"
  shows "in_range (descriptor_at rm i) t \<longleftrightarrow> i = length (takeWhile (\<lambda>b. b \<le> t) (boundaries rm))"
proof -
  let ?bs = "boundaries rm" and ?n = "length (takeWhile (\<lambda>b. b \<le> t) (boundaries rm))"
  have nth: "j < length ?bs \<Longrightarrow> ?bs ! j \<le> t \<longleftrightarrow> j < ?n" for j
    using assms(1) by (intro takeWhile_sorted_nth) (simp_all add: rm_ok_def)
  have n: "?n \<le> length ?bs" by (rule length_takeWhile_le)
  have start: "rd_start (descriptor_at rm i) \<le> t \<longleftrightarrow> i \<le> ?n"
    using nth [of "i - 1"] assms(2) by (cases i) (auto simp: descriptor_at_def range_count_def)
  have fin: "(case rd_end (descriptor_at rm i) of None \<Rightarrow> True | Some e \<Rightarrow> t < e) \<longleftrightarrow> ?n \<le> i"
    using nth [of i] n by (auto simp: descriptor_at_def)
  show ?thesis using start fin by (auto simp: in_range_def)
qed

text \<open>The ranges partition the table ids: for a valid map, table \<open>t\<close> lies in the span of exactly
  one range descriptor, and that is the range \<open>range_for_table\<close> returns; the system table 0 is always
  in range 0.\<close>

theorem ranges_partition_tables:
  assumes "rm_ok rm"
  shows "unat (range_for_table rm t) < length (descriptors rm)
    \<and> (\<forall>i < length (descriptors rm). in_range (descriptors rm ! i) t \<longleftrightarrow> i = unat (range_for_table rm t))
    \<and> range_for_table rm 0 = 0"
proof -
  let ?n = "length (takeWhile (\<lambda>b. b \<le> t) (boundaries rm))"
  have n: "?n \<le> length (boundaries rm)" by (rule length_takeWhile_le)
  have u: "unat (range_for_table rm t) = ?n"
    using n assms by (simp add: range_for_table_def rm_ok_def unat_of_nat)
  have tw: "takeWhile (\<lambda>b. b \<le> 0) (boundaries rm) = []"
    using assms by (cases "boundaries rm") (auto simp: rm_ok_def)
  have zero: "range_for_table rm 0 = 0" unfolding range_for_table_def tw by simp
  have len: "length (descriptors rm) = range_count rm" by (simp add: descriptors_nth [OF assms])
  have nth: "descriptors rm ! i = descriptor_at rm i" if "i < range_count rm" for i
    unfolding descriptors_nth [OF assms] using that by (subst nth_map) (simp_all del: upt_Suc)
  have "?n < range_count rm" using n by (simp add: range_count_def)
  then show ?thesis
    unfolding len u using zero nth in_range_iff [OF assms, of _ t] by simp
qed

theorem ranges_partition_tables_witness:
  "rm_ok \<lparr> boundaries = [5, 9] \<rparr> \<and> unat (range_for_table \<lparr> boundaries = [5, 9] \<rparr> 7) < 3
   \<and> range_for_table \<lparr> boundaries = [5, 9] \<rparr> 7 = 1"
proof -
  have ok: "rm_ok \<lparr> boundaries = [5, 9] \<rparr>" by (simp add: rm_ok_def)
  have "length (descriptors \<lparr> boundaries = [5, 9] \<rparr>) = 3" by (simp add: descriptors_def range_count_def)
  with ranges_partition_tables [OF ok, of 7] ok show ?thesis by (simp add: range_for_table_def)
qed

section \<open>The descriptor blob\<close>

lemma rm_take_n_append [codec_simps]: "length raw = n \<Longrightarrow> rm_take_n (raw @ r) n = Inr (raw, r)"
  by (simp add: rm_take_n_def)

lemma rm_take_u8_Cons [codec_simps]: "rm_take_u8 (b # r) = Inr (b, r)"
  by (simp add: rm_take_u8_def)

text \<open>One round of the decoder on what the encoder wrote for range \<open>i\<close>.\<close>

lemma decode_descriptor_step:
  assumes "i < 2 ^ 32"
  shows "decode_descriptors (Suc n) i
      (descriptor_bytes \<lparr> rd_range_id = word_of_nat i, rd_start = st, rd_end = e \<rparr> @ r) st bs =
    (if n = 0 then (if e = None then Inr bs else Inl (CorruptRow ''last range must be unbounded''))
     else (case e of
             None \<Rightarrow> Inl (CorruptRow ''non-last range must be bounded'')
           | Some e \<Rightarrow> if e \<le> st then Inl (CorruptRow ''range end must exceed start'')
                       else decode_descriptors n (i + 1) r e (bs @ [e])))"
proof -
  have "unat (word_of_nat i :: u32) = i" using assms by (intro unat_of_nat_small) simp
  then show ?thesis
    by (cases e) (simp_all add: descriptor_bytes_def codec_simps Let_def del: be_bytes_u32_0 rbind_eq_Inr)
qed

lemma decode_descriptors_roundtrip:
  assumes ok: "rm_ok rm" and "n = range_count rm - i" and "i < range_count rm"
  shows "decode_descriptors n i (concat (map (\<lambda>j. descriptor_bytes (descriptor_at rm j)) [i..<range_count rm]) @ r)
      (rd_start (descriptor_at rm i)) (take i (boundaries rm)) = Inr (boundaries rm)"
  using assms(2,3)
proof (induction n arbitrary: i)
  case (Suc n)
  let ?bs = "boundaries rm"
  let ?rest = "concat (map (\<lambda>j. descriptor_bytes (descriptor_at rm j)) [Suc i..<range_count rm]) @ r"
  have i: "i < 2 ^ 32" using Suc.prems ok by (simp add: rm_ok_def range_count_def)
  have split: "concat (map (\<lambda>j. descriptor_bytes (descriptor_at rm j)) [i..<range_count rm]) @ r
      = descriptor_bytes (descriptor_at rm i) @ ?rest"
    using Suc.prems(2) by (simp add: upt_conv_Cons)
  have d: "\<lparr> rd_range_id = word_of_nat i, rd_start = rd_start (descriptor_at rm i), rd_end = rd_end (descriptor_at rm i) \<rparr> = descriptor_at rm i"
    by (simp add: descriptor_at_def)
  note step = decode_descriptor_step [OF i, of n "rd_start (descriptor_at rm i)" "rd_end (descriptor_at rm i)" ?rest "take i ?bs", unfolded d]
  show ?case
  proof (cases "n = 0")
    case True
    with Suc.prems have "i = length ?bs" by (simp add: range_count_def)
    then show ?thesis
      unfolding split step by (simp add: True descriptor_at_def)
  next
    case False
    with Suc.prems have il: "i < length ?bs" by (simp add: range_count_def)
    have sorted: "sorted_wrt (<) ?bs" and nz: "0 \<notin> set ?bs" using ok by (simp_all add: rm_ok_def)
    have e: "rd_end (descriptor_at rm i) = Some (?bs ! i)" using il by (simp add: descriptor_at_def)
    have "rd_start (descriptor_at rm i) < ?bs ! i"
    proof (cases i)
      case 0
      then have "?bs ! 0 \<in> set ?bs" using il by (intro nth_mem) simp
      then have "?bs ! 0 \<noteq> 0" using nz by auto
      then show ?thesis using 0 by (simp add: descriptor_at_def word_gt_0)
    next
      case (Suc k)
      then show ?thesis using sorted il by (simp add: descriptor_at_def sorted_wrt_iff_nth_less)
    qed
    then have "\<not> ?bs ! i \<le> rd_start (descriptor_at rm i)" by simp
    then have "decode_descriptors (Suc n) i (descriptor_bytes (descriptor_at rm i) @ ?rest) (rd_start (descriptor_at rm i)) (take i ?bs)
        = decode_descriptors n (i + 1) ?rest (?bs ! i) (take i ?bs @ [?bs ! i])"
      unfolding step by (simp add: False e del: not_le)
    also have "take i ?bs @ [?bs ! i] = take (i + 1) ?bs" using il by (simp add: take_Suc_conv_app_nth)
    also have "?bs ! i = rd_start (descriptor_at rm (i + 1))" by (simp add: descriptor_at_def)
    also have "decode_descriptors n (i + 1) ?rest (rd_start (descriptor_at rm (i + 1))) (take (i + 1) ?bs) = Inr ?bs"
    proof -
      have "n = range_count rm - (i + 1)" "i + 1 < range_count rm"
        using Suc.prems False by simp_all
      from Suc.IH [OF this] show ?thesis by simp
    qed
    finally show ?thesis unfolding split .
  qed
qed simp

lemma from_descriptor_bytes_eq:
  assumes "n < 2 ^ 32" and "0 < n" and "decode_descriptors n 0 body 0 [] = Inr bs"
  shows "from_descriptor_bytes (RANGE_MAP_VERSION # be_bytes (word_of_nat n :: u32) @ body) = Inr \<lparr> boundaries = bs \<rparr>"
proof -
  have u: "unat (word_of_nat n :: u32) = n" using assms(1) by (intro unat_of_nat_small) simp
  show ?thesis
    unfolding from_descriptor_bytes_def rm_take_u8_Cons rbind_Inr prod.case
    using assms(2,3) by (simp add: codec_simps u del: rbind_eq_Inr)
qed

lemma from_to_descriptor_bytes:
  assumes "rm_ok rm"
  shows "from_descriptor_bytes (to_descriptor_bytes rm) = Inr rm"
proof -
  let ?body = "concat (map (\<lambda>j. descriptor_bytes (descriptor_at rm j)) [0..<range_count rm])"
  have n: "range_count rm < 2 ^ 32" "0 < range_count rm"
    using assms by (simp_all add: rm_ok_def range_count_def)
  have bytes: "to_descriptor_bytes rm = RANGE_MAP_VERSION # be_bytes (word_of_nat (range_count rm) :: u32) @ ?body"
    by (simp add: to_descriptor_bytes_def descriptors_nth [OF assms] comp_def del: upt_Suc)
  have "rd_start (descriptor_at rm 0) = 0" by (simp add: descriptor_at_def)
  with decode_descriptors_roundtrip [OF assms, of "range_count rm" 0 "[]"] n(2)
  have "decode_descriptors (range_count rm) 0 ?body 0 [] = Inr (boundaries rm)"
    by (simp del: decode_descriptors.simps upt_Suc)
  from from_descriptor_bytes_eq [OF n this] show ?thesis by (simp add: bytes)
qed

text \<open>The stored form of a range map reads back as the same map.\<close>

theorem range_map_roundtrip:
  assumes "rm_ok rm"
  shows "from_descriptor_bytes (to_descriptor_bytes rm) = Inr rm"
  using assms by (rule from_to_descriptor_bytes)

theorem range_map_roundtrip_witness:
  "rm_ok \<lparr> boundaries = [5, 9] \<rparr>
   \<and> from_descriptor_bytes (to_descriptor_bytes \<lparr> boundaries = [5, 9] \<rparr>) = Inr \<lparr> boundaries = [5, 9] \<rparr>"
proof -
  have ok: "rm_ok \<lparr> boundaries = [5, 9] \<rparr>" by (simp add: rm_ok_def)
  with range_map_roundtrip [OF ok] show ?thesis by simp
qed

lemma sorted_snoc:
  fixes xs :: "'a::linorder list"
  assumes "sorted_wrt (<) xs" and "xs \<noteq> []" and "last xs < e"
  shows "sorted_wrt (<) (xs @ [e])"
proof -
  have "x \<le> last xs" if "x \<in> set xs" for x
  proof -
    have "sorted_wrt (<) (butlast xs @ [last xs])" using assms(1,2) by simp
    then have "\<forall>y \<in> set (butlast xs). y < last xs" by (simp only: sorted_wrt_append) simp
    moreover have "x \<in> set (butlast xs) \<or> x = last xs"
      using that assms(2) by (metis append_butlast_last_id in_set_conv_decomp set_ConsD rotate1.simps(2) set_rotate1)
    ultimately show ?thesis by auto
  qed
  then show ?thesis using assms by (auto simp: sorted_wrt_append intro: le_less_trans)
qed

text \<open>What the decoder accumulates is strictly increasing and nonzero.\<close>

lemma decode_descriptors_valid:
  assumes "decode_descriptors n i cur expected bs = Inr bs'"
    and "sorted_wrt (<) (0 # bs)" and "expected = last (0 # bs)"
  shows "sorted_wrt (<) (0 # bs') \<and> length bs' \<le> length bs + (n - 1)"
  using assms
proof (induction n arbitrary: i cur expected bs)
  case (Suc n)
  from Suc.prems(1) consider "bs' = bs"
    | c e where "n \<noteq> 0" "\<not> e \<le> expected" "decode_descriptors n (i + 1) c e (bs @ [e]) = Inr bs'"
    by (auto simp: Let_def split: if_splits prod.splits)
  then show ?case
  proof cases
    case 2
    have "last (0 # bs) < e" using 2(2) Suc.prems(3) by simp
    from sorted_snoc [OF Suc.prems(2) _ this] have "sorted_wrt (<) (0 # (bs @ [e]))" by simp
    from Suc.IH [OF 2(3) this] 2(1) show ?thesis by auto
  qed (use Suc.prems in auto)
qed simp

text \<open>The decoder only ever returns valid maps: whatever bytes it is given, a map it accepts has
  strictly increasing, nonzero boundaries, so its ranges partition the table ids.\<close>

theorem range_map_decoder_valid:
  assumes "from_descriptor_bytes bs = Inr rm"
  shows "sorted_wrt (<) (boundaries rm) \<and> 0 \<notin> set (boundaries rm) \<and> range_count rm < 2 ^ 32"
proof -
  from assms obtain raw cur where "decode_descriptors (unat (of_be raw :: u32)) 0 cur 0 [] = Inr (boundaries rm)"
    and ne: "unat (of_be raw :: u32) \<noteq> 0"
    by (auto simp: from_descriptor_bytes_def Let_def split: if_splits prod.splits)
  from decode_descriptors_valid [OF this(1)]
  have "sorted_wrt (<) (0 # boundaries rm)" "length (boundaries rm) \<le> unat (of_be raw :: u32) - 1"
    by simp_all
  moreover have "unat (of_be raw :: u32) < 2 ^ 32" using unsigned_less [of "of_be raw :: u32"] by simp
  ultimately show ?thesis using ne by (auto simp: range_count_def)
qed

theorem range_map_decoder_valid_witness:
  "from_descriptor_bytes (to_descriptor_bytes rm_single) = Inr rm_single \<and> range_count rm_single < 2 ^ 32"
proof -
  have "from_descriptor_bytes (to_descriptor_bytes rm_single) = Inr rm_single"
    by (rule from_to_descriptor_bytes) (simp add: rm_ok_def rm_single_def)
  with range_map_decoder_valid [OF this] show ?thesis by blast
qed

section \<open>Seeding\<close>

text \<open>The map is written once: when the group's write applies the batch it is given, seeding a
  store that has no map makes exactly that map readable, and seeding again, with any map, changes
  nothing.\<close>

theorem seed_writes_once:
  assumes "rm_ok rm" and "\<And>ops kv. cw ops kv = Inr (write_batch kv ops)" and "read_range_map kv = Inr None"
  shows "\<exists>kv'. seed_if_absent cw rm kv = Inr kv' \<and> read_range_map kv' = Inr (Some rm)
    \<and> seed_if_absent cw rm2 kv' = Inr kv'"
proof -
  let ?kv' = "write_batch kv [Put meta_range_map_key (to_descriptor_bytes rm)]"
  have "seed_if_absent cw rm kv = Inr ?kv'"
    using assms(2,3) by (simp add: seed_if_absent_def write_range_map_def del: write_batch_simps rbind_eq_Inr)
  moreover have r: "read_range_map ?kv' = Inr (Some rm)"
    using from_to_descriptor_bytes [OF assms(1)]
    by (simp add: read_range_map_def kv_get_batch del: write_batch_simps rbind_eq_Inr)
  moreover have "seed_if_absent cw rm2 ?kv' = Inr ?kv'"
    unfolding seed_if_absent_def r by simp
  ultimately show ?thesis by blast
qed

theorem seed_writes_once_witness:
  "read_range_map kv_new = Inr None
   \<and> (\<exists>kv'. seed_if_absent (\<lambda>ops kv. Inr (write_batch kv ops)) \<lparr> boundaries = [5] \<rparr> kv_new = Inr kv'
        \<and> read_range_map kv' = Inr (Some \<lparr> boundaries = [5] \<rparr>))"
proof -
  have r: "read_range_map kv_new = Inr None" by (simp add: read_range_map_def kv_new_def kv_get_def)
  have "rm_ok \<lparr> boundaries = [5] \<rparr>" by (simp add: rm_ok_def)
  from seed_writes_once [OF this _ r, of "\<lambda>ops kv. Inr (write_batch kv ops)"] r show ?thesis by blast
qed

end
