(* ===== verification/FjallStore.thy ===== *)
theory FjallStore
  imports KvStore RustStd
begin

text \<open>
  The durable store: \<open>kv/src/fjall_store.rs\<close>. The LSM database \<open>fjall\<close> is a parameter, a record of
  the calls the code makes; each may fail with an I/O error. \<open>fjall_db\<close> states what the library
  documents: reads see the committed writes, a batch commits all of its operations or fails, keyspaces
  do not alias, prefix and range iterate in key order. Under it \<open>KeyspaceKv\<close> is a \<open>kv_store\<close>, so the
  in-memory and the durable backend satisfy one contract.

  A method that changes the database returns the database with the result: an error after a commit
  leaves the committed writes in place.
\<close>

section \<open>The library interface\<close>

record 's fjall =
  fj_get :: "'s \<Rightarrow> string \<Rightarrow> bytes \<Rightarrow> string + bytes option"
  fj_insert :: "'s \<Rightarrow> string \<Rightarrow> bytes \<Rightarrow> bytes \<Rightarrow> string + 's"
  fj_remove :: "'s \<Rightarrow> string \<Rightarrow> bytes \<Rightarrow> string + 's"
  fj_prefix :: "'s \<Rightarrow> string \<Rightarrow> bytes \<Rightarrow> (string + (bytes \<times> bytes)) list"
  fj_range :: "'s \<Rightarrow> string \<Rightarrow> bytes \<Rightarrow> bytes \<Rightarrow> (string + (bytes \<times> bytes)) list"
  fj_commit :: "'s \<Rightarrow> (string \<times> write_op) list \<Rightarrow> string + 's"
  fj_persist :: "'s \<Rightarrow> string + 's"
  fj_keyspace :: "'s \<Rightarrow> string \<Rightarrow> string + 's"

section \<open>\<open>KeyspaceKv\<close>\<close>

definition io_err :: "string \<Rightarrow> kv_error" where
  "io_err e = Io e"

text \<open>A loop over iterator guards stops at the first error.\<close>

fun collect_guards :: "('e + 'a) list \<Rightarrow> 'e + 'a list" where
  "collect_guards [] = Inr []"
| "collect_guards (g # gs) = rbind g (\<lambda>x. rbind (collect_guards gs) (\<lambda>xs. Inr (x # xs)))"

definition ks_sync :: "'s fjall \<Rightarrow> 's \<Rightarrow> 's \<times> (kv_error + unit)" where
  "ks_sync F db = (case fj_persist F db of Inl e \<Rightarrow> (db, Inl (io_err e)) | Inr db \<Rightarrow> (db, Inr ()))"

definition ks_get :: "'s fjall \<Rightarrow> string \<Rightarrow> 's \<Rightarrow> bytes \<Rightarrow> kv_error + bytes option" where
  "ks_get F ks db key = map_err io_err (fj_get F db ks key)"

definition ks_put :: "'s fjall \<Rightarrow> string \<Rightarrow> 's \<Rightarrow> bytes \<Rightarrow> bytes \<Rightarrow> 's \<times> (kv_error + unit)" where
  "ks_put F ks db key val =
     (case fj_insert F db ks key val of Inl e \<Rightarrow> (db, Inl (io_err e)) | Inr db \<Rightarrow> ks_sync F db)"

definition ks_delete :: "'s fjall \<Rightarrow> string \<Rightarrow> 's \<Rightarrow> bytes \<Rightarrow> 's \<times> (kv_error + unit)" where
  "ks_delete F ks db key =
     (case fj_remove F db ks key of Inl e \<Rightarrow> (db, Inl (io_err e)) | Inr db \<Rightarrow> ks_sync F db)"

definition ks_scan_prefix :: "'s fjall \<Rightarrow> string \<Rightarrow> 's \<Rightarrow> bytes \<Rightarrow> kv_error + (bytes \<times> bytes) list" where
  "ks_scan_prefix F ks db p = map_err io_err (collect_guards (fj_prefix F db ks p))"

definition ks_scan_range ::
  "'s fjall \<Rightarrow> string \<Rightarrow> 's \<Rightarrow> bytes \<Rightarrow> bytes \<Rightarrow> kv_error + (bytes \<times> bytes) list" where
  "ks_scan_range F ks db start fin = map_err io_err (collect_guards (fj_range F db ks start fin))"

definition ks_write_batch :: "'s fjall \<Rightarrow> string \<Rightarrow> 's \<Rightarrow> write_op list \<Rightarrow> 's \<times> (kv_error + unit)" where
  "ks_write_batch F ks db ops =
     (let batch = map (\<lambda>op. case op of Put key val \<Rightarrow> (ks, Put key val) | Delete key \<Rightarrow> (ks, Delete key)) ops
      in case fj_commit F db batch of Inl e \<Rightarrow> (db, Inl (io_err e)) | Inr db \<Rightarrow> ks_sync F db)"

text \<open>\<open>FjallKv\<close> is the keyspace \<open>data\<close> of its own database.\<close>

definition fjall_kv_open :: "'s fjall \<Rightarrow> (string + 's) \<Rightarrow> kv_error + 's" where
  "fjall_kv_open F opened = rbind (map_err io_err opened) (\<lambda>db. map_err io_err (fj_keyspace F db ''data''))"

section \<open>What the library promises\<close>

definition ops_for :: "string \<Rightarrow> (string \<times> write_op) list \<Rightarrow> write_op list" where
  "ops_for ks b = map snd (filter (\<lambda>(n, _). n = ks) b)"

lemma ops_for_simps [simp]:
  "ops_for ks [] = []"
  "ops_for ks ((n, w) # b) = (if n = ks then w # ops_for ks b else ops_for ks b)"
  "ops_for ks (b @ b') = ops_for ks b @ ops_for ks b'"
  by (simp_all add: ops_for_def)

lemma ops_for_map: "ops_for ks (map (\<lambda>w. (n, f w)) ws) = (if n = ks then map f ws else [])"
  by (induction ws) (simp_all split: if_splits)

text \<open>
  \<open>view\<close> is what the database holds. The laws describe a device without I/O errors; the code's error
  branches are those of a failing call.
\<close>

locale fjall_db =
  fixes F :: "'s fjall"
    and view :: "'s \<Rightarrow> string \<Rightarrow> bytes \<Rightarrow> bytes option"
    and db_ok :: "'s \<Rightarrow> bool"
  assumes fj_get: "db_ok s \<Longrightarrow> fj_get F s ks k = Inr (view s ks k)"
    and fj_insert: "db_ok s \<Longrightarrow> \<exists>s'. fj_insert F s ks k v = Inr s' \<and> db_ok s' \<and> view s' = (view s)(ks := (view s ks)(k \<mapsto> v))"
    and fj_remove: "db_ok s \<Longrightarrow> \<exists>s'. fj_remove F s ks k = Inr s' \<and> db_ok s' \<and> view s' = (view s)(ks := (view s ks)(k := None))"
    and fj_commit: "db_ok s \<Longrightarrow> \<exists>s'. fj_commit F s b = Inr s' \<and> db_ok s' \<and>
          (\<forall>ks. view s' ks = foldl op_effect (view s ks) (ops_for ks b))"
    and fj_persist: "db_ok s \<Longrightarrow> \<exists>s'. fj_persist F s = Inr s' \<and> db_ok s' \<and> view s' = view s"
    and fj_keyspace: "db_ok s \<Longrightarrow> \<exists>s'. fj_keyspace F s ks = Inr s' \<and> db_ok s' \<and> view s' = view s"
    and fj_prefix: "db_ok s \<Longrightarrow> \<exists>xs. fj_prefix F s ks p = map Inr xs \<and> sorted_wrt (<) (map fst xs) \<and>
          set xs = {(k, v). view s ks k = Some v \<and> prefix p k}"
    and fj_range: "\<lbrakk>db_ok s; lo \<le> hi\<rbrakk> \<Longrightarrow> \<exists>xs. fj_range F s ks lo hi = map Inr xs \<and> sorted_wrt (<) (map fst xs) \<and>
          set xs = {(k, v). view s ks k = Some v \<and> lo \<le> k \<and> k < hi}"
begin

lemma collect_Inr [simp]: "collect_guards (map Inr xs) = Inr xs"
  by (induction xs) simp_all

lemma sync_view: "db_ok s \<Longrightarrow> \<exists>s'. ks_sync F s = (s', Inr ()) \<and> db_ok s' \<and> view s' = view s"
  using fj_persist [of s] by (auto simp: ks_sync_def)

lemma ks_get_view: "db_ok s \<Longrightarrow> ks_get F ks s k = Inr (view s ks k)"
  by (simp add: ks_get_def fj_get)

lemma ks_put_view:
  "db_ok s \<Longrightarrow> \<exists>s'. ks_put F ks s k v = (s', Inr ()) \<and> db_ok s' \<and> view s' = (view s)(ks := (view s ks)(k \<mapsto> v))"
  using fj_insert [of s ks k v] sync_view by (fastforce simp: ks_put_def)

lemma ks_delete_view:
  "db_ok s \<Longrightarrow> \<exists>s'. ks_delete F ks s k = (s', Inr ()) \<and> db_ok s' \<and> view s' = (view s)(ks := (view s ks)(k := None))"
  using fj_remove [of s ks k] sync_view by (fastforce simp: ks_delete_def)

lemma write_op_id: "(case w of Put k v \<Rightarrow> (ks, Put k v) | Delete k \<Rightarrow> (ks, Delete k)) = (ks, w)"
  by (cases w) simp_all

lemma ks_batch_view:
  assumes "db_ok s"
  obtains s' where "ks_write_batch F ks s ops = (s', Inr ())" and "db_ok s'"
    and "view s' ks = foldl op_effect (view s ks) ops" and "\<And>n. n \<noteq> ks \<Longrightarrow> view s' n = view s n"
proof -
  let ?b = "map (\<lambda>w. (ks, w)) ops"
  obtain s1 where 1: "fj_commit F s ?b = Inr s1" "db_ok s1" "\<forall>n. view s1 n = foldl op_effect (view s n) (ops_for n ?b)"
    using fj_commit [OF assms] by blast
  obtain s2 where 2: "ks_sync F s1 = (s2, Inr ())" "db_ok s2" "view s2 = view s1"
    using sync_view [OF 1(2)] by blast
  have "ks_write_batch F ks s ops = (s2, Inr ())"
    using 1(1) 2(1) by (simp add: ks_write_batch_def Let_def write_op_id)
  then show thesis
    using that 1(3) 2(2,3) by (simp add: ops_for_map [of _ ks "\<lambda>w. w", simplified])
qed

end

text \<open>One keyspace of such a database, seen through \<open>KeyspaceKv\<close>, is a \<open>kv_store\<close>.\<close>

definition ks_value :: "'s fjall \<Rightarrow> string \<Rightarrow> 's \<Rightarrow> bytes \<Rightarrow> bytes option" where
  "ks_value F ks s k = (case ks_get F ks s k of Inl _ \<Rightarrow> None | Inr v \<Rightarrow> v)"

definition ks_pairs :: "'s fjall \<Rightarrow> string \<Rightarrow> 's \<Rightarrow> bytes \<Rightarrow> (bytes \<times> bytes) list" where
  "ks_pairs F ks s p = (case ks_scan_prefix F ks s p of Inl _ \<Rightarrow> [] | Inr xs \<Rightarrow> xs)"

definition ks_window :: "'s fjall \<Rightarrow> string \<Rightarrow> 's \<Rightarrow> bytes \<Rightarrow> bytes \<Rightarrow> (bytes \<times> bytes) list option" where
  "ks_window F ks s a b = (case ks_scan_range F ks s a b of Inl _ \<Rightarrow> None | Inr xs \<Rightarrow> Some xs)"

sublocale fjall_db \<subseteq> keyspace: kv_store "ks_value F ks" "\<lambda>s k v. fst (ks_put F ks s k v)"
  "\<lambda>s k. fst (ks_delete F ks s k)" "ks_pairs F ks" "ks_window F ks" "\<lambda>s ops. fst (ks_write_batch F ks s ops)" db_ok
  for ks
proof
  have val: "ks_value F ks s = view s ks" if "db_ok s" for s
    using that by (simp add: ks_value_def ks_get_view fun_eq_iff)
  fix m k v p xs ops and a b :: bytes
  assume m: "db_ok m"
  from ks_put_view [OF m] show "ks_value F ks (fst (ks_put F ks m k v)) = (ks_value F ks m)(k \<mapsto> v)"
    "db_ok (fst (ks_put F ks m k v))" by (metis (no_types) fst_conv val m fun_upd_same)+
  from ks_delete_view [OF m] show "ks_value F ks (fst (ks_delete F ks m k)) = (ks_value F ks m)(k := None)"
    "db_ok (fst (ks_delete F ks m k))" by (metis (no_types) fst_conv val m fun_upd_same)+
  from ks_batch_view [OF m, of ks ops]
  show "ks_value F ks (fst (ks_write_batch F ks m ops)) = foldl op_effect (ks_value F ks m) ops"
    "db_ok (fst (ks_write_batch F ks m ops))" by (metis (no_types) fst_conv val m)+
  from fj_prefix [OF m, of ks p] show "set (ks_pairs F ks m p) = {(k, v). ks_value F ks m k = Some v \<and> prefix p k}"
    "sorted_wrt (<) (map fst (ks_pairs F ks m p))"
    by (auto simp: ks_pairs_def ks_scan_prefix_def val [OF m])
  assume ab: "a \<le> b"
  from fj_range [OF m ab, of ks] show "\<exists>xs. ks_window F ks m a b = Some xs"
    by (auto simp: ks_window_def ks_scan_range_def)
  assume "ks_window F ks m a b = Some xs"
  with fj_range [OF m ab, of ks] show "set xs = {(k, v). ks_value F ks m k = Some v \<and> a \<le> k \<and> k < b}"
    "sorted_wrt (<) (map fst xs)"
    by (auto simp: ks_window_def ks_scan_range_def val [OF m])
qed

section \<open>A concrete database\<close>

text \<open>A database in memory: one \<open>MemKv\<close> per keyspace. It shows that the laws can hold.\<close>

definition mem_write :: "(string \<Rightarrow> mem_kv) \<Rightarrow> string \<times> write_op \<Rightarrow> string \<Rightarrow> mem_kv" where
  "mem_write s x = (case x of (ks, w) \<Rightarrow> s(ks := apply_write (s ks) w))"

definition mem_fjall :: "(string \<Rightarrow> mem_kv) fjall" where
  "mem_fjall =
     \<lparr> fj_get = \<lambda>s ks k. Inr (kv_get (s ks) k),
       fj_insert = \<lambda>s ks k v. Inr (s(ks := kv_put (s ks) k v)),
       fj_remove = \<lambda>s ks k. Inr (s(ks := kv_delete (s ks) k)),
       fj_prefix = \<lambda>s ks p. map Inr (scan_prefix (s ks) p),
       fj_range = \<lambda>s ks a b. map Inr (case scan_range (s ks) a b of None \<Rightarrow> [] | Some xs \<Rightarrow> xs),
       fj_commit = \<lambda>s b. Inr (foldl mem_write s b),
       fj_persist = \<lambda>s. Inr s,
       fj_keyspace = \<lambda>s ks. Inr s \<rparr>"

definition mem_view :: "(string \<Rightarrow> mem_kv) \<Rightarrow> string \<Rightarrow> bytes \<Rightarrow> bytes option" where
  "mem_view s ks = kv_get (s ks)"

definition mem_db_ok :: "(string \<Rightarrow> mem_kv) \<Rightarrow> bool" where
  "mem_db_ok s \<longleftrightarrow> (\<forall>ks. kv_ok (s ks))"

lemma mem_commit:
  "mem_db_ok s \<Longrightarrow> mem_db_ok (foldl mem_write s b)
    \<and> (\<forall>ks. mem_view (foldl mem_write s b) ks
          = foldl op_effect (mem_view s ks) (ops_for ks b))"
proof (induction b arbitrary: s)
  case (Cons x b)
  obtain n w where x: "x = (n, w)" by force
  have ok: "mem_db_ok (mem_write s x)" using Cons.prems by (simp add: mem_db_ok_def mem_write_def x inv_intros)
  have "mem_view (mem_write s x) ks = (if ks = n then op_effect (mem_view s ks) w else mem_view s ks)" for ks
    using kv_get_apply_write [of "s n" w] by (simp add: mem_view_def mem_write_def x)
  with Cons.IH [OF ok] show ?case by (simp add: x)
qed simp

interpretation memdb: fjall_db mem_fjall mem_view mem_db_ok
proof
  fix s ks k v b p
  assume s: "mem_db_ok s"
  show "fj_get mem_fjall s ks k = Inr (mem_view s ks k)" by (simp add: mem_fjall_def mem_view_def)
  show "\<exists>s'. fj_insert mem_fjall s ks k v = Inr s' \<and> mem_db_ok s' \<and> mem_view s' = (mem_view s)(ks := (mem_view s ks)(k \<mapsto> v))"
    using s by (intro exI [of _ "s(ks := kv_put (s ks) k v)"])
      (simp add: mem_fjall_def mem_view_def mem_db_ok_def kv_get_put fun_eq_iff inv_intros)
  show "\<exists>s'. fj_remove mem_fjall s ks k = Inr s' \<and> mem_db_ok s' \<and> mem_view s' = (mem_view s)(ks := (mem_view s ks)(k := None))"
    using s by (intro exI [of _ "s(ks := kv_delete (s ks) k)"])
      (simp add: mem_fjall_def mem_view_def mem_db_ok_def kv_get_delete fun_eq_iff inv_intros)
  show "\<exists>s'. fj_commit mem_fjall s b = Inr s' \<and> mem_db_ok s' \<and> (\<forall>ks. mem_view s' ks = foldl op_effect (mem_view s ks) (ops_for ks b))"
    using mem_commit [OF s] by (simp add: mem_fjall_def)
  show "\<exists>s'. fj_persist mem_fjall s = Inr s' \<and> mem_db_ok s' \<and> mem_view s' = mem_view s"
    "\<exists>s'. fj_keyspace mem_fjall s ks = Inr s' \<and> mem_db_ok s' \<and> mem_view s' = mem_view s"
    using s by (simp_all add: mem_fjall_def)
  have ok: "kv_ok (s ks)" using s by (simp add: mem_db_ok_def)
  show "\<exists>xs. fj_prefix mem_fjall s ks p = map Inr xs \<and> sorted_wrt (<) (map fst xs) \<and> set xs = {(k, v). mem_view s ks k = Some v \<and> prefix p k}"
    using memkv.scanp_set [OF ok] memkv.scanp_sorted [OF ok] by (auto simp: mem_fjall_def mem_view_def)
  fix a b' :: bytes
  assume "a \<le> b'"
  then show "\<exists>xs. fj_range mem_fjall s ks a b' = map Inr xs \<and> sorted_wrt (<) (map fst xs) \<and> set xs = {(k, v). mem_view s ks k = Some v \<and> a \<le> k \<and> k < b'}"
    using memkv.scanr_total [OF ok] memkv.scanr_set [OF ok] memkv.scanr_sorted [OF ok]
    by (fastforce simp: mem_fjall_def mem_view_def)
qed

text \<open>The two backends agree: on a database without I/O errors, a durable keyspace and a \<open>MemKv\<close>
  that hold the same pairs still hold the same pairs after the same batch, and from then on answer
  every read, prefix scan and range scan alike; no other keyspace changes.\<close>

theorem backends_agree:
  assumes "fjall_db F view db_ok" and "db_ok s" and "kv_ok m" and "view s ks = kv_get m" and "lo \<le> hi"
  shows "\<exists>s'. ks_write_batch F ks s ops = (s', Inr ())
    \<and> (\<forall>k. ks_get F ks s' k = Inr (kv_get (write_batch m ops) k))
    \<and> ks_scan_prefix F ks s' p = Inr (scan_prefix (write_batch m ops) p)
    \<and> (\<exists>xs. ks_scan_range F ks s' lo hi = Inr xs \<and> scan_range (write_batch m ops) lo hi = Some xs)
    \<and> (\<forall>n. n \<noteq> ks \<longrightarrow> view s' n = view s n)"
proof -
  obtain s' where s': "ks_write_batch F ks s ops = (s', Inr ())" "db_ok s'"
    "view s' ks = foldl op_effect (view s ks) ops" "\<And>n. n \<noteq> ks \<Longrightarrow> view s' n = view s n"
    using fjall_db.ks_batch_view [OF assms(1,2)] by blast
  let ?m = "write_batch m ops"
  have ok: "kv_ok ?m" using assms(3) by (rule kv_ok_batch)
  have view: "view s' ks = kv_get ?m" using s'(3) assms(4) by (simp add: kv_get_batch)
  obtain xs where xs: "fj_prefix F s' ks p = map Inr xs" "sorted_wrt (<) (map fst xs)"
    "set xs = {(k, v). kv_get ?m k = Some v \<and> prefix p k}"
    using fjall_db.fj_prefix [OF assms(1) s'(2), of ks p] unfolding view by blast
  obtain ys where ys: "fj_range F s' ks lo hi = map Inr ys" "sorted_wrt (<) (map fst ys)"
    "set ys = {(k, v). kv_get ?m k = Some v \<and> lo \<le> k \<and> k < hi}"
    using fjall_db.fj_range [OF assms(1) s'(2) assms(5), of ks] unfolding view by blast
  obtain zs where zs: "scan_range ?m lo hi = Some zs" using memkv.scanr_total [OF ok assms(5)] by blast
  have "xs = scan_prefix ?m p"
    using xs memkv.scanp_set [OF ok] memkv.scanp_sorted [OF ok] by (intro sorted_pairs_unique) auto
  moreover have "ys = zs"
    using ys memkv.scanr_set [OF ok assms(5) zs] memkv.scanr_sorted [OF ok assms(5) zs]
    by (intro sorted_pairs_unique) auto
  ultimately show ?thesis
    using s' view xs(1) ys(1) zs fjall_db.collect_Inr [OF assms(1)] fjall_db.ks_get_view [OF assms(1) s'(2)]
    by (simp add: ks_scan_prefix_def ks_scan_range_def del: write_batch_simps)
qed

theorem backends_agree_witness:
  "\<exists>s'. ks_write_batch mem_fjall ''data'' (\<lambda>_. kv_new) [Put [1] [2], Put [1, 3] [4], Delete [1]] = (s', Inr ())
     \<and> ks_get mem_fjall ''data'' s' [1, 3] = Inr (Some [4])"
proof -
  have ok: "mem_db_ok (\<lambda>_. kv_new)" "mem_view (\<lambda>_. kv_new) ''data'' = kv_get kv_new"
    by (simp_all add: mem_db_ok_def mem_view_def)
  from backends_agree [OF memdb.fjall_db_axioms, OF ok(1) kv_ok_new ok(2) order_refl [of "[]"],
      of "[Put [1] [2], Put [1, 3] [4], Delete [1]]" "[]"]
  obtain s' where s': "ks_write_batch mem_fjall ''data'' (\<lambda>_. kv_new) [Put [1] [2], Put [1, 3] [4], Delete [1]] = (s', Inr ())"
    "\<And>k. ks_get mem_fjall ''data'' s' k = Inr (kv_get (write_batch kv_new [Put [1] [2], Put [1, 3] [4], Delete [1]]) k)"
    by (elim exE conjE) (rule that, assumption, erule spec)
  have "kv_get (write_batch kv_new [Put [1] [2], Put [1, 3] [4], Delete [1]]) [1, 3] = Some [4]"
    by (simp add: kv_get_batch del: write_batch_simps)
  with s' show ?thesis by auto
qed

end
