(* ===== verification/StateMachine.thy ===== *)
theory StateMachine
  imports Clog Allocator
begin

text \<open>
  The replicated state machine of a range: \<open>cluster/src/types.rs\<close> and the state-machine half of
  \<open>cluster/src/store.rs\<close>. Committed log entries are write batches; applying one merges the counters
  by maximum and keeps a terminal commit decision. The theorems: counters never regress, a decision
  is written once, replaying entries changes nothing, and installing a snapshot reproduces the state
  it was built from.

  Log ids, memberships and JSON belong to \<open>openraft\<close> and \<open>serde_json\<close>: a leader id and a membership
  are elements of type variables, serialisation is a parameter. \<open>None\<close> as the result of an
  application is a panic (a stored counter that is not eight bytes long).
\<close>

section \<open>Entries\<close>

record 'l log_id =
  li_leader :: 'l
  li_index :: u64

datatype 'm entry_payload = Blank | Normal "write_op list" | Membership 'm

record ('l, 'm) entry =
  en_log_id :: "'l log_id"
  en_payload :: "'m entry_payload"

type_synonym ('l, 'm) stored_membership = "'l log_id option \<times> 'm"

section \<open>Applying one operation\<close>

definition is_seq_key :: "bytes \<Rightarrow> bool" where
  "is_seq_key key =
     (let pre = seq_key 0; plen = length pre - 4
      in length key = length pre \<and> take plen key = take plen pre)"

definition is_counter_key :: "bytes \<Rightarrow> bool" where
  "is_counter_key key \<longleftrightarrow> key = next_xid_key \<or> is_seq_key key"

definition is_clog_key :: "bytes \<Rightarrow> bool" where
  "is_clog_key key \<longleftrightarrow> length clog_prefix \<le> length key \<and> take (length clog_prefix) key = clog_prefix"

definition u64_be :: "bytes \<Rightarrow> u64 option" where
  "u64_be b = read_u64_prefix b"

definition apply_op :: "mem_kv \<Rightarrow> write_op \<Rightarrow> mem_kv option" where
  "apply_op kv w =
     (case w of
        Put key val \<Rightarrow>
          if is_counter_key key then
            (case u64_be val of
               None \<Rightarrow> None
             | Some incoming \<Rightarrow>
                 (case (case kv_get kv key of None \<Rightarrow> Some 0 | Some b \<Rightarrow> u64_be b) of
                    None \<Rightarrow> None
                  | Some existing \<Rightarrow> Some (kv_put kv key (be_bytes (max existing incoming)))))
          else if is_clog_key key then
            (let keep = (case kv_get kv key of None \<Rightarrow> False | Some b \<Rightarrow> is_terminal b)
             in Some (if keep then kv else kv_put kv key val))
          else Some (kv_put kv key val)
      | Delete key \<Rightarrow> Some (kv_delete kv key))"

fun apply_ops :: "mem_kv \<Rightarrow> write_op list \<Rightarrow> mem_kv option" where
  "apply_ops kv [] = Some kv"
| "apply_ops kv (w # ws) = (case apply_op kv w of None \<Rightarrow> None | Some kv \<Rightarrow> apply_ops kv ws)"

section \<open>The state machine\<close>

record ('l, 'm) snapshot_meta =
  sn_last_log_id :: "'l log_id option"
  sn_last_membership :: "('l, 'm) stored_membership"
  sn_snapshot_id :: string

record ('l, 'm) snapshot_payload =
  sp_last_applied :: "'l log_id option"
  sp_last_membership :: "('l, 'm) stored_membership"
  sp_kv :: "(bytes \<times> bytes) list"

record ('l, 'm) state_machine =
  sm_kv :: mem_kv
  sm_last_applied :: "'l log_id option"
  sm_last_membership :: "('l, 'm) stored_membership"
  sm_snapshot_idx :: u64
  sm_current_snapshot :: "(('l, 'm) snapshot_meta \<times> bytes) option"

datatype storage_error = ReadStateMachine | WriteStateMachine | ReadSnapshot | ReadLogs | WriteLogs

definition applied_state ::
  "('l, 'm) state_machine \<Rightarrow> 'l log_id option \<times> ('l, 'm) stored_membership" where
  "applied_state sm = (sm_last_applied sm, sm_last_membership sm)"

definition apply_entry ::
  "('l, 'm) state_machine \<Rightarrow> ('l, 'm) entry \<Rightarrow> ('l, 'm) state_machine option" where
  "apply_entry sm e =
     (let sm = sm\<lparr> sm_last_applied := Some (en_log_id e) \<rparr>
      in case en_payload e of
           Blank \<Rightarrow> Some sm
         | Normal ops \<Rightarrow> map_option (\<lambda>kv. sm\<lparr> sm_kv := kv \<rparr>) (apply_ops (sm_kv sm) ops)
         | Membership mem \<Rightarrow> Some (sm\<lparr> sm_last_membership := (Some (en_log_id e), mem) \<rparr>))"

fun sm_apply ::
  "('l, 'm) state_machine \<Rightarrow> ('l, 'm) entry list \<Rightarrow> ('l, 'm) state_machine option" where
  "sm_apply sm [] = Some sm"
| "sm_apply sm (e # es) = (case apply_entry sm e of None \<Rightarrow> None | Some sm \<Rightarrow> sm_apply sm es)"

definition build_snapshot ::
  "('l \<Rightarrow> string) \<Rightarrow> (('l, 'm) snapshot_payload \<Rightarrow> bytes option) \<Rightarrow> ('l, 'm) state_machine \<Rightarrow>
   storage_error + (('l, 'm) state_machine \<times> ('l, 'm) snapshot_meta \<times> bytes)" where
  "build_snapshot show_leader to_json sm =
     (let payload = \<lparr> sp_last_applied = sm_last_applied sm, sp_last_membership = sm_last_membership sm,
                      sp_kv = scan_prefix (sm_kv sm) [] \<rparr>
      in rbind (ok_or ReadStateMachine (to_json payload)) (\<lambda>data.
           let idx = sm_snapshot_idx sm + 1;
               snapshot_id = (case sm_last_applied sm of
                   Some lid \<Rightarrow> show_leader (li_leader lid) @ ''-'' @ dec_nat (unat (li_index lid)) @ ''-'' @ dec_nat (unat idx)
                 | None \<Rightarrow> ''--'' @ dec_nat (unat idx));
               meta = \<lparr> sn_last_log_id = sm_last_applied sm, sn_last_membership = sm_last_membership sm,
                        sn_snapshot_id = snapshot_id \<rparr>
           in Inr (sm\<lparr> sm_snapshot_idx := idx, sm_current_snapshot := Some (meta, data) \<rparr>, meta, data)))"

definition install_snapshot ::
  "(bytes \<Rightarrow> ('l, 'm) snapshot_payload option) \<Rightarrow> ('l, 'm) state_machine \<Rightarrow> ('l, 'm) snapshot_meta \<Rightarrow> bytes \<Rightarrow>
   storage_error + ('l, 'm) state_machine" where
  "install_snapshot of_json sm meta data =
     rbind (ok_or ReadSnapshot (of_json data)) (\<lambda>payload.
       let existing = scan_prefix (sm_kv sm) [];
           cleared = foldl (\<lambda>m (k, _). kv_delete m k) (sm_kv sm) existing;
           kv = foldl (\<lambda>m (k, v). kv_put m k v) cleared (sp_kv payload)
       in Inr (sm\<lparr> sm_kv := kv, sm_last_applied := sn_last_log_id meta,
                   sm_last_membership := sn_last_membership meta, sm_current_snapshot := Some (meta, data) \<rparr>))"

definition get_current_snapshot ::
  "('l, 'm) state_machine \<Rightarrow> (('l, 'm) snapshot_meta \<times> bytes) option" where
  "get_current_snapshot sm = sm_current_snapshot sm"

section \<open>One key at a time\<close>

text \<open>
  What an operation does to the value under one key. Counter operations are assumed well formed:
  every counter value, stored or incoming, has its eight bytes.
\<close>

definition counter_ok :: "bytes \<Rightarrow> bytes option \<Rightarrow> bool" where
  "counter_ok k v \<longleftrightarrow> (is_counter_key k \<longrightarrow> (case v of None \<Rightarrow> True | Some b \<Rightarrow> 8 \<le> length b))"

definition counter_val :: "bytes option \<Rightarrow> u64" where
  "counter_val v = (case v of None \<Rightarrow> 0 | Some b \<Rightarrow> of_be (take 8 b))"

definition put_value :: "bytes \<Rightarrow> bytes option \<Rightarrow> bytes \<Rightarrow> bytes" where
  "put_value k v val =
     (if is_counter_key k then be_bytes (max (counter_val v) (counter_val (Some val)))
      else if is_clog_key k \<and> (case v of None \<Rightarrow> False | Some b \<Rightarrow> is_terminal b) then the v
      else val)"

fun key_step :: "bytes \<Rightarrow> bytes option \<Rightarrow> write_op \<Rightarrow> bytes option" where
  "key_step k v (Put key val) = (if key = k then Some (put_value k v val) else v)"
| "key_step k v (Delete key) = (if key = k then None else v)"

fun op_ok :: "write_op \<Rightarrow> bool" where
  "op_ok (Put key val) = counter_ok key (Some val)"
| "op_ok (Delete key) = True"

definition store_ok :: "mem_kv \<Rightarrow> bool" where
  "store_ok kv \<longleftrightarrow> (\<forall>k. counter_ok k (kv_get kv k))"

lemma clog_key_head: "is_clog_key k \<Longrightarrow> take 5 k = [0, 0, 0, 0, 0x63]"
proof -
  assume "is_clog_key k"
  then have "take 9 k = clog_prefix" by (simp add: is_clog_key_def key_simps)
  then have "take 5 (take 9 k) = take 5 clog_prefix" by (rule arg_cong)
  then show ?thesis by (simp add: clog_prefix_snoc min_def)
qed

lemma length_seq_key [key_simps]: "length (seq_key t) = 12"
  by (simp add: system_key_bytes)

lemma counter_key_head: "is_counter_key k \<Longrightarrow> take 5 k \<noteq> [0, 0, 0, 0, 0x63]"
proof -
  assume "is_counter_key k"
  then consider "k = next_xid_key" | "take 8 k = take 8 (seq_key 0)"
    by (auto simp: is_counter_key_def is_seq_key_def Let_def length_seq_key)
  then show ?thesis
  proof cases
    case 2
    then have "take 5 (take 8 k) = take 5 (take 8 (seq_key 0))" by (rule arg_cong)
    then show ?thesis by (simp add: system_key_bytes min_def)
  qed (simp add: system_key_bytes)
qed

lemma counter_not_clog: "is_counter_key k \<Longrightarrow> \<not> is_clog_key k"
  using clog_key_head counter_key_head by blast

lemma u64_be_ok: "8 \<le> length b \<Longrightarrow> u64_be b = Some (of_be (take 8 b))"
  by (simp add: u64_be_def read_u64_prefix_def)

lemma counter_ok_put_value: "counter_ok k (Some (put_value k v val))" if "counter_ok k (Some val)"
  using that by (simp add: counter_ok_def put_value_def)

lemma apply_op_get:
  assumes "store_ok kv" and "op_ok w"
  shows "\<exists>kv'. apply_op kv w = Some kv' \<and> (\<forall>k. kv_get kv' k = key_step k (kv_get kv k) w) \<and> store_ok kv'"
proof (cases w)
  case (Delete key)
  then have "apply_op kv w = Some (kv_delete kv key)" by (simp add: apply_op_def)
  moreover have "\<forall>k. kv_get (kv_delete kv key) k = key_step k (kv_get kv k) w"
    by (simp add: Delete kv_get_delete)
  moreover have "store_ok (kv_delete kv key)"
    using assms(1) by (simp add: store_ok_def kv_get_delete counter_ok_def)
  ultimately show ?thesis by blast
next
  case (Put key val)
  let ?v = "put_value key (kv_get kv key) val"
  have ok: "counter_ok key (kv_get kv key)" "counter_ok key (Some val)"
    using assms Put by (auto simp: store_ok_def)
  have get: "\<forall>k. kv_get (kv_put kv key ?v) k = key_step k (kv_get kv k) w"
    by (auto simp: Put kv_get_put)
  have st: "store_ok (kv_put kv key ?v)"
    using assms(1) counter_ok_put_value [OF ok(2)] by (simp add: store_ok_def kv_get_put)
  show ?thesis
  proof (cases "is_counter_key key")
    case True
    have "u64_be val = Some (counter_val (Some val))"
      "(case kv_get kv key of None \<Rightarrow> Some 0 | Some b \<Rightarrow> u64_be b) = Some (counter_val (kv_get kv key))"
      using ok True by (auto simp: counter_ok_def counter_val_def u64_be_ok split: option.splits)
    then have "apply_op kv w = Some (kv_put kv key ?v)"
      by (simp add: apply_op_def Put True put_value_def)
    with get st show ?thesis by blast
  next
    case nc: False
    show ?thesis
    proof (cases "is_clog_key key \<and> (case kv_get kv key of None \<Rightarrow> False | Some b \<Rightarrow> is_terminal b)")
      case True
      then obtain b where b: "kv_get kv key = Some b" by (auto split: option.splits)
      then have "apply_op kv w = Some kv" using True nc by (simp add: apply_op_def Put)
      moreover have "\<forall>k. kv_get kv k = key_step k (kv_get kv k) w"
        using True nc b by (simp add: Put put_value_def)
      ultimately show ?thesis using assms(1) by blast
    next
      case False
      then have "apply_op kv w = Some (kv_put kv key ?v)"
        using nc by (auto simp: apply_op_def Put put_value_def Let_def split: option.splits)
      with get st show ?thesis by blast
    qed
  qed
qed

text \<open>A batch acts on each key by folding \<open>key_step\<close>; it cannot panic.\<close>

lemma apply_ops_get:
  assumes "store_ok kv" and "list_all op_ok ws"
  obtains kv' where "apply_ops kv ws = Some kv'" and "\<And>k. kv_get kv' k = foldl (key_step k) (kv_get kv k) ws"
    and "store_ok kv'"
proof -
  have "\<exists>kv'. apply_ops kv ws = Some kv' \<and> (\<forall>k. kv_get kv' k = foldl (key_step k) (kv_get kv k) ws) \<and> store_ok kv'"
    using assms
  proof (induction ws arbitrary: kv)
    case (Cons w ws)
    then obtain kv1 where 1: "apply_op kv w = Some kv1" "\<forall>k. kv_get kv1 k = key_step k (kv_get kv k) w" "store_ok kv1"
      using apply_op_get [of kv w] by auto
    with Cons.IH [of kv1] Cons.prems show ?case by auto
  qed simp
  then show thesis using that by blast
qed

section \<open>Counters and decisions\<close>

abbreviation fold_key :: "bytes \<Rightarrow> bytes option \<Rightarrow> write_op list \<Rightarrow> bytes option" where
  "fold_key k v ws \<equiv> foldl (key_step k) v ws"

lemma counter_val_be [simp]: "counter_val (Some (be_bytes n)) = n"
  by (simp add: counter_val_def)

lemma counter_step:
  assumes "is_counter_key k" and "w \<noteq> Delete k"
  shows "counter_val v \<le> counter_val (key_step k v w)"
  using assms by (cases w) (auto simp: put_value_def)

lemma counter_fold:
  assumes "is_counter_key k" and "Delete k \<notin> set ws"
  shows "counter_val v \<le> counter_val (fold_key k v ws)"
  using assms(2)
proof (induction ws arbitrary: v)
  case (Cons w ws)
  then have "counter_val v \<le> counter_val (key_step k v w)" using counter_step [OF assms(1)] by auto
  also have "\<dots> \<le> counter_val (fold_key k (key_step k v w) ws)" using Cons by simp
  finally show ?case by simp
qed simp

lemma counter_fold_put:
  assumes "is_counter_key k" and "Delete k \<notin> set ws" and "Put k val \<in> set ws"
  shows "counter_val (Some val) \<le> counter_val (fold_key k v ws)"
proof -
  from assms(3) obtain as bs where ws: "ws = as @ Put k val # bs" by (meson split_list)
  have "counter_val (Some val) \<le> counter_val (key_step k (fold_key k v as) (Put k val))"
    using assms(1) by (simp add: put_value_def)
  also have "\<dots> \<le> counter_val (fold_key k (key_step k (fold_key k v as) (Put k val)) bs)"
    using assms(2) by (intro counter_fold [OF assms(1)]) (simp add: ws)
  finally show ?thesis by (simp add: ws)
qed

lemma decided_fold:
  assumes "is_clog_key k" and "Delete k \<notin> set ws" and "is_terminal b"
  shows "fold_key k (Some b) ws = Some b"
  using assms(2)
proof (induction ws)
  case (Cons w ws)
  then have "key_step k (Some b) w = Some b"
    using assms(1,3) counter_not_clog [of k] by (cases w) (auto simp: put_value_def)
  with Cons show ?case by simp
qed simp


lemma next_xid_counter [simp]: "is_counter_key next_xid_key"
  by (simp add: is_counter_key_def)

lemma clog_key_is_clog [simp]: "is_clog_key (clog_key x)"
  by (simp add: is_clog_key_def clog_key_prefix)

lemma clog_key_not_counter [simp]: "\<not> is_counter_key (clog_key x)"
  using counter_not_clog clog_key_is_clog by blast

lemma store_ok_new [simp]: "store_ok kv_new"
  by (simp add: store_ok_def kv_new_def kv_get_def counter_ok_def)

lemma store_ok_put [simp]: "\<lbrakk>store_ok kv; counter_ok k (Some v)\<rbrakk> \<Longrightarrow> store_ok (kv_put kv k v)"
  by (simp add: store_ok_def kv_get_put)


text \<open>C27. A commit decision is written once: when a transaction's clog entry holds a terminal status,
  no well-formed batch that does not delete the entry changes it, whatever conflicting decisions the
  batch carries.\<close>

theorem decision_written_once:
  assumes "store_ok kv" and "list_all op_ok ws" and "kv_get kv (clog_key x) = Some b" and "is_terminal b"
    and "Delete (clog_key x) \<notin> set ws"
  shows "\<exists>kv'. apply_ops kv ws = Some kv' \<and> kv_get kv' (clog_key x) = Some b"
proof -
  from apply_ops_get [OF assms(1,2)] obtain kv' where "apply_ops kv ws = Some kv'"
    "\<And>k. kv_get kv' k = fold_key k (kv_get kv k) ws" by metis
  then show ?thesis
    using decided_fold [OF clog_key_is_clog assms(5,4)] assms(3) by auto
qed

lemma op_ok_clog [simp]: "op_ok (clog_put_op x st)"
  by (simp add: clog_put_op_def counter_ok_def)

theorem decision_written_once_witness:
  "\<exists>kv kv'. kv_get kv (clog_key 5) = Some (clog_value Aborted) \<and> apply_ops kv [clog_put_op 5 Committed] = Some kv'
     \<and> kv_get kv' (clog_key 5) = Some (clog_value Aborted)"
proof -
  let ?kv = "kv_put kv_new (clog_key 5) (clog_value Aborted)"
  have ok: "store_ok ?kv" by (rule store_ok_put) (simp_all add: counter_ok_def)
  have "list_all op_ok [clog_put_op 5 Committed]" by simp
  then have "\<exists>kv'. apply_ops ?kv [clog_put_op 5 Committed] = Some kv' \<and> kv_get kv' (clog_key 5) = Some (clog_value Aborted)"
    by (rule decision_written_once [OF ok]) (simp_all add: kv_get_put is_terminal_def clog_put_op_def)
  moreover have "kv_get ?kv (clog_key 5) = Some (clog_value Aborted)" by (simp add: kv_get_put)
  ultimately show ?thesis by blast
qed

section \<open>Replay\<close>

text \<open>An operation sequence with a delete of the key forgets what was there before.\<close>

lemma fold_key_delete: "Delete k \<in> set ws \<Longrightarrow> fold_key k v ws = fold_key k v' ws"
proof -
  assume "Delete k \<in> set ws"
  then obtain as bs where "ws = as @ Delete k # bs" by (meson split_list)
  then show ?thesis by simp
qed

text \<open>A value that absorbs every write of the sequence stays.\<close>

lemma fold_key_absorb: "(\<And>w. w \<in> set ws \<Longrightarrow> key_step k r w = r) \<Longrightarrow> fold_key k r ws = r"
  by (induction ws) simp_all

text \<open>A decided entry is stuck; anything else is overwritten by the next write.\<close>

definition stuck :: "bytes \<Rightarrow> bytes option \<Rightarrow> bool" where
  "stuck k v \<longleftrightarrow> is_clog_key k \<and> (case v of None \<Rightarrow> False | Some b \<Rightarrow> is_terminal b)"

lemma fold_key_fresh:
  assumes "\<not> is_counter_key k" and "Put k val \<in> set ws" and "Delete k \<notin> set ws"
    and "\<not> stuck k v" and "\<not> stuck k v'"
  shows "fold_key k v ws = fold_key k v' ws"
  using assms(2,3)
proof (induction ws)
  case (Cons w ws)
  show ?case
  proof (cases "op_key w = k")
    case True
    with Cons.prems obtain x where "w = Put k x" by (cases w) auto
    then have "key_step k v w = key_step k v' w"
      using assms(1,4,5) by (auto simp: put_value_def stuck_def)
    then show ?thesis by simp
  next
    case False
    then have "key_step k u w = u" for u by (cases w) auto
    with Cons False show ?thesis by auto
  qed
qed simp

lemma fold_key_counter:
  assumes "is_counter_key k" and "Put k val \<in> set ws" and "Delete k \<notin> set ws"
  shows "\<exists>n :: u64. fold_key k v ws = Some (be_bytes n)"
  using assms(2,3)
proof (induction ws rule: rev_induct)
  case (snoc w ws)
  show ?case
  proof (cases "op_key w = k")
    case True
    with snoc.prems obtain x where "w = Put k x" by (cases w) auto
    then show ?thesis using assms(1) by (auto simp: put_value_def)
  next
    case False
    then have "key_step k u w = u" for u by (cases w) auto
    with snoc False show ?thesis by auto
  qed
qed simp

lemma fold_key_replay: "fold_key k (fold_key k v ws) ws = fold_key k v ws"
proof (cases "Delete k \<in> set ws \<or> (\<forall>val. Put k val \<notin> set ws)")
  case True
  then show ?thesis
  proof
    assume no: "\<forall>val. Put k val \<notin> set ws"
    show ?thesis
    proof (cases "Delete k \<in> set ws")
      case False
      have "key_step k u w = u" if "w \<in> set ws" for u w
        using no False that by (cases w) auto
      then show ?thesis by (simp add: fold_key_absorb)
    qed (rule fold_key_delete)
  qed (rule fold_key_delete)
next
  case False
  then obtain val where put: "Put k val \<in> set ws" and del: "Delete k \<notin> set ws" by auto
  let ?r = "fold_key k v ws"
  show ?thesis
  proof (cases "is_counter_key k")
    case c: True
    obtain n :: u64 where n: "?r = Some (be_bytes n)" using fold_key_counter [OF c put del] by blast
    have "key_step k ?r w = ?r" if "w \<in> set ws" for w
    proof (cases w)
      case (Put key x)
      show ?thesis
      proof (cases "key = k")
        case True
        then have "counter_val (Some x) \<le> counter_val ?r"
          using counter_fold_put [OF c del, of x v] Put that by simp
        then show ?thesis using c Put True by (simp add: n put_value_def max_absorb1)
      qed (simp add: Put)
    qed (use del that in auto)
    then show ?thesis by (rule fold_key_absorb)
  next
    case nc: False
    show ?thesis
    proof (cases "stuck k ?r")
      case True
      then obtain b where "is_clog_key k" "?r = Some b" "is_terminal b" by (auto simp: stuck_def split: option.splits)
      then show ?thesis using decided_fold [OF _ del] by simp
    next
      case False
      have "\<not> stuck k v"
      proof
        assume "stuck k v"
        then obtain b where "is_clog_key k" "v = Some b" "is_terminal b" by (auto simp: stuck_def split: option.splits)
        with decided_fold [OF _ del] have "?r = v" by simp
        with \<open>stuck k v\<close> False show False by simp
      qed
      then show ?thesis using fold_key_fresh [OF nc put del False] by simp
    qed
  qed
qed

text \<open>Replay is harmless: applying a sequence of operations a second time, as a restart that lost
  the record of its last applied entry does, leaves every key as the first application left it.\<close>

theorem replay_idempotent:
  assumes "store_ok kv" and "list_all op_ok ws"
  shows "\<exists>kv' kv''. apply_ops kv ws = Some kv' \<and> apply_ops kv' ws = Some kv'' \<and> kv_get kv'' = kv_get kv'"
proof -
  from apply_ops_get [OF assms] obtain kv' where 1: "apply_ops kv ws = Some kv'"
    "\<And>k. kv_get kv' k = fold_key k (kv_get kv k) ws" "store_ok kv'" by metis
  from apply_ops_get [OF 1(3) assms(2)] obtain kv'' where 2: "apply_ops kv' ws = Some kv''"
    "\<And>k. kv_get kv'' k = fold_key k (kv_get kv' k) ws" by metis
  have "kv_get kv'' = kv_get kv'" by (simp add: fun_eq_iff 1(2) 2(2) fold_key_replay)
  with 1(1) 2(1) show ?thesis by blast
qed

theorem replay_idempotent_witness:
  "\<exists>kv' kv''. apply_ops kv_new [clog_put_op 5 (Prepared 9), clog_put_op 5 Committed, Delete [1]] = Some kv'
     \<and> apply_ops kv' [clog_put_op 5 (Prepared 9), clog_put_op 5 Committed, Delete [1]] = Some kv''
     \<and> kv_get kv'' = kv_get kv'"
  by (rule replay_idempotent) simp_all

section \<open>Snapshots\<close>

lemma scan_all: "kv_ok m \<Longrightarrow> scan_prefix m [] = m"
  by (simp add: scan_prefix_filter)

lemma kv_ext: "\<lbrakk>kv_ok m; kv_ok m'; kv_get m = kv_get m'\<rbrakk> \<Longrightarrow> m = m'"
  using memkv.scanp_ext [of m m' "[]"] by (simp add: scan_all)

lemma foldl_delete_get:
  "kv_get (foldl (\<lambda>m (k, _). kv_delete m k) m xs) k = (if k \<in> fst ` set xs then None else kv_get m k)"
  by (induction xs arbitrary: m) (auto simp: kv_get_delete)

lemma foldl_delete_ok: "kv_ok m \<Longrightarrow> kv_ok (foldl (\<lambda>m (k, _). kv_delete m k) m xs)"
  by (induction xs arbitrary: m) (auto intro: inv_intros)

lemma foldl_put_get:
  "distinct (map fst xs) \<Longrightarrow> kv_get (foldl (\<lambda>m (k, v). kv_put m k v) m xs) = kv_get m ++ map_of xs"
proof (induction xs arbitrary: m)
  case (Cons x xs)
  then have "fst x \<notin> dom (map_of xs)" by (simp add: dom_map_of_conv_image_fst)
  with Cons show ?case by (auto simp: case_prod_beta kv_get_put fun_eq_iff map_add_def split: option.splits)
qed simp

lemma foldl_put_ok: "kv_ok m \<Longrightarrow> kv_ok (foldl (\<lambda>m (k, v). kv_put m k v) m xs)"
  by (induction xs arbitrary: m) (auto intro: inv_intros)

text \<open>A snapshot reproduces the state machine: when JSON reads back what it wrote, installing on
  any node the snapshot another node built gives that node exactly the builder's store, last applied
  log id and membership.\<close>

theorem snapshot_install_exact:
  assumes "kv_ok (sm_kv sm)" and "kv_ok (sm_kv sm2)"
    and "\<And>p d. to_json p = Some d \<Longrightarrow> of_json d = Some p"
    and "build_snapshot show_leader to_json sm = Inr (sm1, meta, data)"
  shows "\<exists>sm3. install_snapshot of_json sm2 meta data = Inr sm3 \<and> sm_kv sm3 = sm_kv sm \<and> applied_state sm3 = applied_state sm"
proof -
  from assms(4) obtain p where p: "to_json p = Some data" "sp_kv p = scan_prefix (sm_kv sm) []"
    and meta: "sn_last_log_id meta = sm_last_applied sm" "sn_last_membership meta = sm_last_membership sm"
    by (auto simp: build_snapshot_def Let_def ok_or_def split: option.splits)
  let ?cleared = "foldl (\<lambda>m (k, _). kv_delete m k) (sm_kv sm2) (scan_prefix (sm_kv sm2) [])"
  let ?kv = "foldl (\<lambda>m (k, v). kv_put m k v) ?cleared (sm_kv sm)"
  have cl: "kv_get ?cleared k = None" for k
    using assms(2) by (simp add: foldl_delete_get scan_all kv_get_def [of "sm_kv sm2"] map_of_eq_None_iff)
  have d: "distinct (map fst (sm_kv sm))" using assms(1) by (simp add: kv_ok_def bt_ok_distinct)
  have "?kv = sm_kv sm"
  proof (rule kv_ext)
    show "kv_ok ?kv" by (intro foldl_put_ok foldl_delete_ok assms(2))
    show "kv_get ?kv = kv_get (sm_kv sm)"
      by (simp add: fun_eq_iff foldl_put_get [OF d] cl map_add_def kv_get_def [of "sm_kv sm"] split: option.splits)
  qed (rule assms(1))
  moreover have "of_json data = Some p" using p(1) by (rule assms(3))
  ultimately show ?thesis
    using p(2) meta by (simp add: install_snapshot_def scan_all [OF assms(1)] Let_def applied_state_def del: rbind_eq_Inr)
qed

text \<open>A concrete serialiser for the witness: it knows one payload and refuses every other.\<close>

theorem snapshot_install_exact_witness:
  "\<exists>p :: (unit, unit) snapshot_payload. \<exists>sm1 meta data sm3.
     sp_kv p = [([1], [2])] \<and>
     build_snapshot (\<lambda>_. ''L'') (\<lambda>q. if q = p then Some [7] else None)
       \<lparr> sm_kv = [([1], [2])], sm_last_applied = Some \<lparr> li_leader = (), li_index = 3 \<rparr>,
         sm_last_membership = (None, ()), sm_snapshot_idx = 0, sm_current_snapshot = None \<rparr> = Inr (sm1, meta, data) \<and>
     install_snapshot (\<lambda>d. if d = [7] then Some p else None)
       \<lparr> sm_kv = [([0], [5]), ([4], [6])], sm_last_applied = None, sm_last_membership = (None, ()),
         sm_snapshot_idx = 4, sm_current_snapshot = None \<rparr> meta data = Inr sm3 \<and> sm_kv sm3 = [([1], [2])]"
proof -
  let ?sm = "\<lparr> sm_kv = [([1], [2])], sm_last_applied = Some \<lparr> li_leader = (), li_index = 3 \<rparr>,
    sm_last_membership = (None, ()), sm_snapshot_idx = 0, sm_current_snapshot = None \<rparr>"
  let ?sm2 = "\<lparr> sm_kv = [([0], [5]), ([4], [6])], sm_last_applied = None, sm_last_membership = (None, ()),
    sm_snapshot_idx = 4, sm_current_snapshot = None \<rparr>"
  let ?p = "\<lparr> sp_last_applied = Some \<lparr> li_leader = (), li_index = 3 \<rparr>, sp_last_membership = (None, ()),
    sp_kv = [([1], [2])] \<rparr> :: (unit, unit) snapshot_payload"
  have ok: "kv_ok (sm_kv ?sm)" "kv_ok (sm_kv ?sm2)" by (simp_all add: kv_ok_def)
  have sc: "scan_prefix [([1], [2])] [] = [([1], [2])]" using scan_all [OF ok(1)] by simp
  have "\<exists>sm1 meta data. build_snapshot (\<lambda>_. ''L'') (\<lambda>q. if q = ?p then Some [7] else None) ?sm = Inr (sm1, meta, data)"
    by (simp add: build_snapshot_def sc ok_or_def Let_def)
  then obtain sm1 meta data where
    b: "build_snapshot (\<lambda>_. ''L'') (\<lambda>q. if q = ?p then Some [7] else None) ?sm = Inr (sm1, meta, data)" by blast
  have "\<exists>sm3. install_snapshot (\<lambda>d. if d = [7] then Some ?p else None) ?sm2 meta data = Inr sm3
      \<and> sm_kv sm3 = sm_kv ?sm \<and> applied_state sm3 = applied_state ?sm"
    by (rule snapshot_install_exact [OF ok _ b]) (simp split: if_splits)
  with b show ?thesis by (intro exI [of _ ?p]) auto
qed

end
