(* ===== verification/PlainJson.thy ===== *)
theory PlainJson
  imports StateMachine
begin

text \<open>
  A concrete serialiser for Raft's stored values, at one leader and one membership. It stands in for
  \<open>serde_json\<close> where a theorem assumes that every value can be written and reads back: it shows that
  the assumption can hold. Nothing else depends on its format.
\<close>

fun pj_bytes :: "bytes \<Rightarrow> bytes" where
  "pj_bytes [] = [0]"
| "pj_bytes (b # bs) = 1 # b # pj_bytes bs"

fun pj_take_bytes :: "bytes \<Rightarrow> (bytes \<times> bytes) option" where
  "pj_take_bytes (t # cur) =
     (if t = 0 then Some ([], cur)
      else (case cur of [] \<Rightarrow> None | b # cur \<Rightarrow> map_option (\<lambda>(bs, cur). (b # bs, cur)) (pj_take_bytes cur)))"
| "pj_take_bytes [] = None"

lemma pj_take_bytes [simp]: "pj_take_bytes (pj_bytes bs @ cur) = Some (bs, cur)"
  by (induction bs) simp_all

fun pj_list :: "('a \<Rightarrow> bytes) \<Rightarrow> 'a list \<Rightarrow> bytes" where
  "pj_list enc [] = [0]"
| "pj_list enc (x # xs) = 1 # enc x @ pj_list enc xs"

text \<open>The fuel is the length of the input.\<close>

fun pj_take_list :: "(bytes \<Rightarrow> ('a \<times> bytes) option) \<Rightarrow> nat \<Rightarrow> bytes \<Rightarrow> ('a list \<times> bytes) option" where
  "pj_take_list dec (Suc n) (t # cur) =
     (if t = 0 then Some ([], cur)
      else (case dec cur of None \<Rightarrow> None
            | Some (x, cur) \<Rightarrow> map_option (\<lambda>(xs, cur). (x # xs, cur)) (pj_take_list dec n cur)))"
| "pj_take_list dec _ _ = None"

lemma pj_take_list:
  "(\<And>x cur. dec (enc x @ cur) = Some (x, cur)) \<Longrightarrow> length xs < n \<Longrightarrow>
   pj_take_list dec n (pj_list enc xs @ cur) = Some (xs, cur)"
proof (induction xs arbitrary: n)
  case (Cons x xs)
  then obtain m where "n = Suc m" "length xs < m" by (cases n) auto
  with Cons show ?case by simp
qed (auto simp: less_eq_Suc_le elim!: Suc_le_D [THEN exE])

lemma length_pj_list: "length xs < length (pj_list enc xs)"
  by (induction xs) simp_all

section \<open>Log ids and memberships\<close>

fun pj_lid :: "unit log_id option \<Rightarrow> bytes" where
  "pj_lid None = [0]"
| "pj_lid (Some l) = 1 # be_bytes (li_index l)"

fun pj_take_lid :: "bytes \<Rightarrow> (unit log_id option \<times> bytes) option" where
  "pj_take_lid (t # cur) =
     (if t = 0 then Some (None, cur) else Some (Some \<lparr> li_leader = (), li_index = of_be (take 8 cur) \<rparr>, drop 8 cur))"
| "pj_take_lid [] = None"

lemma pj_take_lid [simp]: "pj_take_lid (pj_lid l @ cur) = Some (l, cur)"
  by (cases l) simp_all

definition pj_mem :: "(unit, unit) stored_membership \<Rightarrow> bytes" where
  "pj_mem m = pj_lid (fst m)"

definition pj_take_mem :: "bytes \<Rightarrow> ((unit, unit) stored_membership \<times> bytes) option" where
  "pj_take_mem cur = map_option (\<lambda>(l, cur). ((l, ()), cur)) (pj_take_lid cur)"

lemma pj_take_mem [simp]: "pj_take_mem (pj_mem m @ cur) = Some (m, cur)"
  by (cases m) (simp add: pj_mem_def pj_take_mem_def)

section \<open>Snapshot payloads\<close>

definition pj_pair :: "bytes \<times> bytes \<Rightarrow> bytes" where
  "pj_pair p = pj_bytes (fst p) @ pj_bytes (snd p)"

definition pj_take_pair :: "bytes \<Rightarrow> ((bytes \<times> bytes) \<times> bytes) option" where
  "pj_take_pair cur =
     (case pj_take_bytes cur of None \<Rightarrow> None
      | Some (k, cur) \<Rightarrow> map_option (\<lambda>(v, cur). ((k, v), cur)) (pj_take_bytes cur))"

lemma pj_take_pair [simp]: "pj_take_pair (pj_pair p @ cur) = Some (p, cur)"
  by (simp add: pj_pair_def pj_take_pair_def)

definition pj_payload :: "(unit, unit) snapshot_payload \<Rightarrow> bytes" where
  "pj_payload p = pj_lid (sp_last_applied p) @ pj_mem (sp_last_membership p) @ pj_list pj_pair (sp_kv p)"

definition pj_of_payload :: "bytes \<Rightarrow> (unit, unit) snapshot_payload option" where
  "pj_of_payload cur =
     (case pj_take_lid cur of None \<Rightarrow> None
      | Some (l, cur) \<Rightarrow>
          (case pj_take_mem cur of None \<Rightarrow> None
           | Some (m, cur) \<Rightarrow>
               map_option (\<lambda>(kv, _). \<lparr> sp_last_applied = l, sp_last_membership = m, sp_kv = kv \<rparr>)
                 (pj_take_list pj_take_pair (length cur) cur)))"

lemma pj_of_payload [simp]: "pj_of_payload (pj_payload p) = Some p"
  using pj_take_list [of pj_take_pair pj_pair "sp_kv p" "length (pj_list pj_pair (sp_kv p))" "[]"]
  by (simp add: pj_payload_def pj_of_payload_def length_pj_list)

section \<open>Log entries\<close>

fun pj_op :: "write_op \<Rightarrow> bytes" where
  "pj_op (Put k v) = 0 # pj_bytes k @ pj_bytes v"
| "pj_op (Delete k) = 1 # pj_bytes k"

definition pj_take_op :: "bytes \<Rightarrow> (write_op \<times> bytes) option" where
  "pj_take_op cur =
     (case cur of [] \<Rightarrow> None
      | t # cur \<Rightarrow>
          if t = 0 then map_option (\<lambda>((k, v), cur). (Put k v, cur)) (pj_take_pair cur)
          else map_option (\<lambda>(k, cur). (Delete k, cur)) (pj_take_bytes cur))"

lemma pj_take_op [simp]: "pj_take_op (pj_op w @ cur) = Some (w, cur)"
  by (cases w) (simp_all add: pj_take_op_def pj_take_pair_def)

fun pj_entry_payload :: "unit entry_payload \<Rightarrow> bytes" where
  "pj_entry_payload Blank = [0]"
| "pj_entry_payload (Normal ops) = 1 # pj_list pj_op ops"
| "pj_entry_payload (Membership _) = [2]"

definition pj_of_entry_payload :: "bytes \<Rightarrow> unit entry_payload option" where
  "pj_of_entry_payload cur =
     (case cur of [] \<Rightarrow> None
      | t # cur \<Rightarrow>
          if t = 0 then Some Blank
          else if t = 1 then map_option (Normal \<circ> fst) (pj_take_list pj_take_op (length cur) cur)
          else Some (Membership ()))"

lemma pj_of_entry_payload [simp]: "pj_of_entry_payload (pj_entry_payload p) = Some p"
proof (cases p)
  case (Normal ops)
  then show ?thesis
    using pj_take_list [of pj_take_op pj_op ops "length (pj_list pj_op ops)" "[]"]
    by (simp add: pj_of_entry_payload_def length_pj_list)
qed (simp_all add: pj_of_entry_payload_def)

definition pj_entry :: "(unit, unit) entry \<Rightarrow> bytes" where
  "pj_entry e = be_bytes (li_index (en_log_id e)) @ pj_entry_payload (en_payload e)"

definition pj_of_entry :: "bytes \<Rightarrow> (unit, unit) entry option" where
  "pj_of_entry cur =
     map_option (\<lambda>p. \<lparr> en_log_id = \<lparr> li_leader = (), li_index = of_be (take 8 cur) \<rparr>, en_payload = p \<rparr>)
       (pj_of_entry_payload (drop 8 cur))"

lemma pj_of_entry [simp]: "pj_of_entry (pj_entry e) = Some e"
  by (simp add: pj_entry_def pj_of_entry_def)

end
