(* ===== verification/RaftLog.thy ===== *)
theory RaftLog
  imports FjallStore PlainJson
begin

text \<open>
  The Raft log: \<open>LogStore\<close> of \<open>cluster/src/store.rs\<close>, a \<open>BTreeMap\<close> in memory, and \<open>DurableLogStore\<close>
  of \<open>cluster/src/durable.rs\<close>, entries under big-endian keys of the \<open>raft\<close> keyspace with a cache of
  the first and last log id. A simulation relates them: on every history that keeps Raft's contract
  they answer alike, and reopening the durable store rebuilds its cache.

  Votes and the order on log ids belong to \<open>openraft\<close>; \<open>serde_json\<close> and \<open>fjall\<close> are parameters.
\<close>

section \<open>Ranges of indices\<close>

datatype bound = Included u64 | Excluded u64 | Unbounded

fun above :: "bound \<Rightarrow> u64 \<Rightarrow> bool" where
  "above (Included a) i = (a \<le> i)"
| "above (Excluded a) i = (a < i)"
| "above Unbounded i = True"

fun below :: "bound \<Rightarrow> u64 \<Rightarrow> bool" where
  "below (Included b) i = (i \<le> b)"
| "below (Excluded b) i = (i < b)"
| "below Unbounded i = True"

definition contains :: "bound \<times> bound \<Rightarrow> u64 \<Rightarrow> bool" where
  "contains r i \<longleftrightarrow> above (fst r) i \<and> below (snd r) i"

text \<open>\<open>BTreeMap::range\<close> panics on a range that ends before it starts.\<close>

fun bounds_panic :: "bound \<times> bound \<Rightarrow> bool" where
  "bounds_panic (Included a, Included b) = (b < a)"
| "bounds_panic (Included a, Excluded b) = (b < a)"
| "bounds_panic (Excluded a, Included b) = (b < a)"
| "bounds_panic (Excluded a, Excluded b) = (b \<le> a)"
| "bounds_panic _ = False"

section \<open>The in-memory log\<close>

record ('l, 'm, 'v) log_store =
  ls_last_purged :: "'l log_id option"
  ls_log :: "(u64, ('l, 'm) entry) btree"
  ls_committed :: "'l log_id option"
  ls_vote :: "'v option"

record 'l log_state =
  st_last_purged :: "'l log_id option"
  st_last :: "'l log_id option"

definition log_store_new :: "('l, 'm, 'v) log_store" where
  "log_store_new = \<lparr> ls_last_purged = None, ls_log = [], ls_committed = None, ls_vote = None \<rparr>"

definition try_get_log_entries :: "('l, 'm, 'v) log_store \<Rightarrow> bound \<times> bound \<Rightarrow> ('l, 'm) entry list option" where
  "try_get_log_entries ls r =
     (if bounds_panic r then None else Some (map snd (filter (\<lambda>(i, _). contains r i) (ls_log ls))))"

definition get_log_state :: "('l, 'm, 'v) log_store \<Rightarrow> 'l log_state" where
  "get_log_state ls =
     (let last_id = (if ls_log ls = [] then None else Some (en_log_id (snd (last (ls_log ls)))));
          last_purged = ls_last_purged ls
      in \<lparr> st_last_purged = last_purged, st_last = (case last_id of Some l \<Rightarrow> Some l | None \<Rightarrow> last_purged) \<rparr>)"

definition save_committed :: "('l, 'm, 'v) log_store \<Rightarrow> 'l log_id option \<Rightarrow> ('l, 'm, 'v) log_store" where
  "save_committed ls c = ls\<lparr> ls_committed := c \<rparr>"

definition read_committed :: "('l, 'm, 'v) log_store \<Rightarrow> 'l log_id option" where
  "read_committed ls = ls_committed ls"

definition save_vote :: "('l, 'm, 'v) log_store \<Rightarrow> 'v \<Rightarrow> ('l, 'm, 'v) log_store" where
  "save_vote ls v = ls\<lparr> ls_vote := Some v \<rparr>"

definition read_vote :: "('l, 'm, 'v) log_store \<Rightarrow> 'v option" where
  "read_vote ls = ls_vote ls"

abbreviation entry_index :: "('l, 'm) entry \<Rightarrow> u64" where
  "entry_index e \<equiv> li_index (en_log_id e)"

definition log_append :: "('l, 'm, 'v) log_store \<Rightarrow> ('l, 'm) entry list \<Rightarrow> ('l, 'm, 'v) log_store" where
  "log_append ls es = ls\<lparr> ls_log := foldl (\<lambda>m e. bt_insert (entry_index e) e m) (ls_log ls) es \<rparr>"

definition remove_keys :: "'k list \<Rightarrow> ('k, 'v) btree \<Rightarrow> ('k, 'v) btree" where
  "remove_keys ks m = foldl (\<lambda>m k. bt_remove k m) m ks"

definition log_truncate :: "('l, 'm, 'v) log_store \<Rightarrow> 'l log_id \<Rightarrow> ('l, 'm, 'v) log_store" where
  "log_truncate ls lid = ls\<lparr> ls_log := remove_keys (map fst (bt_range_from (li_index lid) (ls_log ls))) (ls_log ls) \<rparr>"

text \<open>The order of log ids, lifted to \<open>Option\<close> as Rust derives it.\<close>

definition purge_allowed :: "('l log_id \<Rightarrow> 'l log_id \<Rightarrow> bool) \<Rightarrow> 'l log_id option \<Rightarrow> 'l log_id \<Rightarrow> bool" where
  "purge_allowed lid_le p lid = (case p of None \<Rightarrow> True | Some p \<Rightarrow> lid_le p lid)"

definition log_purge ::
  "('l log_id \<Rightarrow> 'l log_id \<Rightarrow> bool) \<Rightarrow> ('l, 'm, 'v) log_store \<Rightarrow> 'l log_id \<Rightarrow> ('l, 'm, 'v) log_store option" where
  "log_purge lid_le ls lid =
     (if purge_allowed lid_le (ls_last_purged ls) lid
      then Some (ls\<lparr> ls_last_purged := Some lid,
                     ls_log := remove_keys (map fst (takeWhile (\<lambda>(i, _). i \<le> li_index lid) (ls_log ls))) (ls_log ls) \<rparr>)
      else None)"

section \<open>The durable log\<close>

definition LOG_PREFIX :: bytes where "LOG_PREFIX = ascii ''log/''"
definition VOTE_KEY :: bytes where "VOTE_KEY = ascii ''vote''"
definition COMMITTED_KEY :: bytes where "COMMITTED_KEY = ascii ''committed''"
definition PURGED_KEY :: bytes where "PURGED_KEY = ascii ''last_purged''"

definition log_key :: "u64 \<Rightarrow> bytes" where
  "log_key index = LOG_PREFIX @ be_bytes index"

definition log_index :: "bytes \<Rightarrow> u64 option" where
  "log_index key =
     (if prefix LOG_PREFIX key
      then (let suffix = drop (length LOG_PREFIX) key in if length suffix = 8 then Some (of_be suffix) else None)
      else None)"

text \<open>\<open>lj_some_of\<close> reads a \<open>LogId\<close>, \<open>lj_lid_of\<close> an \<open>Option<LogId>\<close>.\<close>

record ('l, 'm, 'v) log_json =
  lj_entry_to :: "('l, 'm) entry \<Rightarrow> bytes option"
  lj_entry_of :: "bytes \<Rightarrow> ('l, 'm) entry option"
  lj_lid_to :: "'l log_id option \<Rightarrow> bytes option"
  lj_lid_of :: "bytes \<Rightarrow> 'l log_id option option"
  lj_some_of :: "bytes \<Rightarrow> 'l log_id option"
  lj_vote_to :: "'v \<Rightarrow> bytes option"
  lj_vote_of :: "bytes \<Rightarrow> 'v option"

record 'l log_cache =
  lc_last_log_id :: "'l log_id option"
  lc_last_purged :: "'l log_id option"

definition read_json :: "'s fjall \<Rightarrow> 's \<Rightarrow> string \<Rightarrow> (bytes \<Rightarrow> 'a option) \<Rightarrow> bytes \<Rightarrow> storage_error + 'a option" where
  "read_json F db ks of_json key =
     (case fj_get F db ks key of
        Inl _ \<Rightarrow> Inl ReadLogs
      | Inr None \<Rightarrow> Inr None
      | Inr (Some b) \<Rightarrow> rbind (ok_or ReadLogs (of_json b)) (\<lambda>v. Inr (Some v)))"

definition write_json :: "'s fjall \<Rightarrow> 's \<Rightarrow> string \<Rightarrow> bytes \<Rightarrow> bytes option \<Rightarrow> storage_error + 's" where
  "write_json F db ks key json =
     rbind (ok_or WriteLogs json) (\<lambda>b. map_err (\<lambda>_. WriteLogs) (fj_insert F db ks key b))"

definition log_persist :: "'s fjall \<Rightarrow> 's \<Rightarrow> 's \<times> (storage_error + unit)" where
  "log_persist F db = (case fj_persist F db of Inl _ \<Rightarrow> (db, Inl WriteLogs) | Inr db \<Rightarrow> (db, Inr ()))"

definition highest_log_id ::
  "'s fjall \<Rightarrow> ('l, 'm, 'v) log_json \<Rightarrow> string \<Rightarrow> 's \<Rightarrow> storage_error + 'l log_id option" where
  "highest_log_id F J ks db =
     (let guards = fj_prefix F db ks LOG_PREFIX
      in if guards = [] then Inr None
         else rbind (map_err (\<lambda>_. ReadLogs) (last guards)) (\<lambda>(_, v).
              rbind (ok_or ReadLogs (lj_entry_of J v)) (\<lambda>e. Inr (Some (en_log_id e)))))"

definition durable_log_open ::
  "'s fjall \<Rightarrow> ('l, 'm, 'v) log_json \<Rightarrow> string \<Rightarrow> 's \<Rightarrow> storage_error + 'l log_cache" where
  "durable_log_open F J ks db =
     rbind (read_json F db ks (lj_some_of J) PURGED_KEY) (\<lambda>last_purged.
     rbind (highest_log_id F J ks db) (\<lambda>highest.
       Inr \<lparr> lc_last_log_id = (case highest of Some l \<Rightarrow> Some l | None \<Rightarrow> last_purged), lc_last_purged = last_purged \<rparr>))"

fun read_guards ::
  "('l, 'm, 'v) log_json \<Rightarrow> bound \<times> bound \<Rightarrow> (string + (bytes \<times> bytes)) list \<Rightarrow> storage_error + ('l, 'm) entry list" where
  "read_guards J r [] = Inr []"
| "read_guards J r (g # gs) =
     rbind (map_err (\<lambda>_. ReadLogs) g) (\<lambda>(k, v).
       case log_index k of
         None \<Rightarrow> read_guards J r gs
       | Some index \<Rightarrow>
           if \<not> contains r index then read_guards J r gs
           else rbind (ok_or ReadLogs (lj_entry_of J v)) (\<lambda>e. rbind (read_guards J r gs) (\<lambda>es. Inr (e # es))))"

definition durable_get_log_entries ::
  "'s fjall \<Rightarrow> ('l, 'm, 'v) log_json \<Rightarrow> string \<Rightarrow> 's \<Rightarrow> bound \<times> bound \<Rightarrow> storage_error + ('l, 'm) entry list" where
  "durable_get_log_entries F J ks db r = read_guards J r (fj_prefix F db ks LOG_PREFIX)"

definition durable_log_state :: "'l log_cache \<Rightarrow> 'l log_state" where
  "durable_log_state c = \<lparr> st_last_purged = lc_last_purged c, st_last = lc_last_log_id c \<rparr>"

definition durable_write_json ::
  "'s fjall \<Rightarrow> string \<Rightarrow> 's \<Rightarrow> bytes \<Rightarrow> bytes option \<Rightarrow> 's \<times> (storage_error + unit)" where
  "durable_write_json F ks db key json =
     (case write_json F db ks key json of Inl e \<Rightarrow> (db, Inl e) | Inr db \<Rightarrow> log_persist F db)"

definition durable_save_committed ::
  "'s fjall \<Rightarrow> ('l, 'm, 'v) log_json \<Rightarrow> string \<Rightarrow> 's \<Rightarrow> 'l log_id option \<Rightarrow> 's \<times> (storage_error + unit)" where
  "durable_save_committed F J ks db c = durable_write_json F ks db COMMITTED_KEY (lj_lid_to J c)"

definition durable_read_committed ::
  "'s fjall \<Rightarrow> ('l, 'm, 'v) log_json \<Rightarrow> string \<Rightarrow> 's \<Rightarrow> storage_error + 'l log_id option" where
  "durable_read_committed F J ks db =
     rbind (read_json F db ks (lj_lid_of J) COMMITTED_KEY) (\<lambda>c. Inr (case c of None \<Rightarrow> None | Some c \<Rightarrow> c))"

definition durable_save_vote ::
  "'s fjall \<Rightarrow> ('l, 'm, 'v) log_json \<Rightarrow> string \<Rightarrow> 's \<Rightarrow> 'v \<Rightarrow> 's \<times> (storage_error + unit)" where
  "durable_save_vote F J ks db v = durable_write_json F ks db VOTE_KEY (lj_vote_to J v)"

definition durable_read_vote ::
  "'s fjall \<Rightarrow> ('l, 'm, 'v) log_json \<Rightarrow> string \<Rightarrow> 's \<Rightarrow> storage_error + 'v option" where
  "durable_read_vote F J ks db = read_json F db ks (lj_vote_of J) VOTE_KEY"

fun append_batch ::
  "('l, 'm, 'v) log_json \<Rightarrow> string \<Rightarrow> (string \<times> write_op) list \<Rightarrow> 'l log_id option \<Rightarrow> ('l, 'm) entry list \<Rightarrow>
   storage_error + ((string \<times> write_op) list \<times> 'l log_id option)" where
  "append_batch J ks batch max_id [] = Inr (batch, max_id)"
| "append_batch J ks batch max_id (e # es) =
     rbind (ok_or WriteLogs (lj_entry_to J e)) (\<lambda>b.
       append_batch J ks (batch @ [(ks, Put (log_key (entry_index e)) b)])
         (case max_id of None \<Rightarrow> Some (en_log_id e)
          | Some m \<Rightarrow> if li_index m < entry_index e then Some (en_log_id e) else max_id) es)"

text \<open>The mutating methods return the database, the cache and the result; \<open>None\<close> is the failed
  assertion of \<open>purge\<close>.\<close>

definition durable_append ::
  "'s fjall \<Rightarrow> ('l, 'm, 'v) log_json \<Rightarrow> string \<Rightarrow> 's \<Rightarrow> 'l log_cache \<Rightarrow> ('l, 'm) entry list \<Rightarrow>
   's \<times> 'l log_cache \<times> (storage_error + unit)" where
  "durable_append F J ks db cache es =
     (case append_batch J ks [] None es of
        Inl e \<Rightarrow> (db, cache, Inl e)
      | Inr (batch, max_id) \<Rightarrow>
          (case fj_commit F db batch of
             Inl _ \<Rightarrow> (db, cache, Inl WriteLogs)
           | Inr db \<Rightarrow>
               (let cache = (case max_id of None \<Rightarrow> cache
                   | Some m \<Rightarrow> (case lc_last_log_id cache of
                       None \<Rightarrow> cache\<lparr> lc_last_log_id := Some m \<rparr>
                     | Some l \<Rightarrow> if li_index l < li_index m then cache\<lparr> lc_last_log_id := Some m \<rparr> else cache));
                    (db, res) = log_persist F db
                in (db, cache, res))))"

fun guard_keys :: "(u64 \<Rightarrow> bool) \<Rightarrow> (string + (bytes \<times> bytes)) list \<Rightarrow> storage_error + bytes list" where
  "guard_keys P [] = Inr []"
| "guard_keys P (g # gs) =
     rbind (map_err (\<lambda>_. ReadLogs) g) (\<lambda>(k, _).
     rbind (guard_keys P gs) (\<lambda>ks.
       Inr (case log_index k of None \<Rightarrow> ks | Some index \<Rightarrow> if P index then k # ks else ks)))"

definition durable_truncate ::
  "'s fjall \<Rightarrow> ('l, 'm, 'v) log_json \<Rightarrow> string \<Rightarrow> 's \<Rightarrow> 'l log_cache \<Rightarrow> 'l log_id \<Rightarrow>
   's \<times> 'l log_cache \<times> (storage_error + unit)" where
  "durable_truncate F J ks db cache lid =
     (case guard_keys (\<lambda>index. li_index lid \<le> index) (fj_prefix F db ks LOG_PREFIX) of
        Inl e \<Rightarrow> (db, cache, Inl e)
      | Inr keys \<Rightarrow>
          (case fj_commit F db (map (\<lambda>k. (ks, Delete k)) keys) of
             Inl _ \<Rightarrow> (db, cache, Inl WriteLogs)
           | Inr db \<Rightarrow>
               (case highest_log_id F J ks db of
                  Inl e \<Rightarrow> (db, cache, Inl e)
                | Inr highest \<Rightarrow>
                    (let cache = cache\<lparr> lc_last_log_id := (case highest of Some l \<Rightarrow> Some l | None \<Rightarrow> lc_last_purged cache) \<rparr>;
                         (db, res) = log_persist F db
                     in (db, cache, res)))))"

definition durable_purge ::
  "'s fjall \<Rightarrow> ('l, 'm, 'v) log_json \<Rightarrow> ('l log_id \<Rightarrow> 'l log_id \<Rightarrow> bool) \<Rightarrow> string \<Rightarrow> 's \<Rightarrow> 'l log_cache \<Rightarrow> 'l log_id \<Rightarrow>
   ('s \<times> 'l log_cache \<times> (storage_error + unit)) option" where
  "durable_purge F J lid_le ks db cache lid =
     (if \<not> purge_allowed lid_le (lc_last_purged cache) lid then None
      else Some
        (case guard_keys (\<lambda>index. index \<le> li_index lid) (fj_prefix F db ks LOG_PREFIX) of
           Inl e \<Rightarrow> (db, cache, Inl e)
         | Inr keys \<Rightarrow>
             (case lj_lid_to J (Some lid) of
                None \<Rightarrow> (db, cache, Inl WriteLogs)
              | Some purged_bytes \<Rightarrow>
                  (case fj_commit F db (map (\<lambda>k. (ks, Delete k)) keys @ [(ks, Put PURGED_KEY purged_bytes)]) of
                     Inl _ \<Rightarrow> (db, cache, Inl WriteLogs)
                   | Inr db \<Rightarrow>
                       (let cache = cache\<lparr> lc_last_purged := Some lid,
                              lc_last_log_id := (case lc_last_log_id cache of
                                  None \<Rightarrow> Some lid
                                | Some l \<Rightarrow> if li_index l < li_index lid then Some lid else Some l) \<rparr>;
                            (db, res) = log_persist F db
                        in (db, cache, res))))))"

section \<open>Keys\<close>

lemma log_index_key [simp]: "log_index (log_key i) = Some i"
  by (simp add: log_index_def log_key_def Let_def)

lemma log_key_inj [simp]: "log_key i = log_key j \<longleftrightarrow> i = j"
  by (simp add: log_key_def)

lemma log_key_less [simp]: "log_key i < log_key j \<longleftrightarrow> i < j"
  by (simp add: log_key_def)

lemma prefix_log_key [simp]: "prefix LOG_PREFIX (log_key i)"
  by (simp add: log_key_def)

lemma other_keys [simp]:
  "\<not> prefix LOG_PREFIX VOTE_KEY" "\<not> prefix LOG_PREFIX COMMITTED_KEY" "\<not> prefix LOG_PREFIX PURGED_KEY"
  "VOTE_KEY \<noteq> COMMITTED_KEY" "VOTE_KEY \<noteq> PURGED_KEY" "COMMITTED_KEY \<noteq> PURGED_KEY"
  "COMMITTED_KEY \<noteq> VOTE_KEY" "PURGED_KEY \<noteq> VOTE_KEY" "PURGED_KEY \<noteq> COMMITTED_KEY"
  by (simp_all add: LOG_PREFIX_def VOTE_KEY_def COMMITTED_KEY_def PURGED_KEY_def)

lemma log_key_other [simp]:
  "log_key i \<noteq> VOTE_KEY" "log_key i \<noteq> COMMITTED_KEY" "log_key i \<noteq> PURGED_KEY"
  "VOTE_KEY \<noteq> log_key i" "COMMITTED_KEY \<noteq> log_key i" "PURGED_KEY \<noteq> log_key i"
  using prefix_log_key [of i] other_keys by metis+

section \<open>The in-memory log as a map\<close>

lemma bt_insert_last: "\<forall>k' \<in> fst ` set m. k' < k \<Longrightarrow> bt_insert k v m = m @ [(k, v)]"
  by (induction k v m rule: bt_insert.induct) auto

lemma remove_keys_filter: "remove_keys ks m = filter (\<lambda>(k, _). k \<notin> set ks) m"
  by (induction ks arbitrary: m) (auto simp: remove_keys_def bt_remove_def intro!: filter_cong)

lemma remove_selected: "remove_keys (map fst (filter (\<lambda>(i, _). P i) m)) m = filter (\<lambda>(i, _). \<not> P i) m"
proof -
  have "i \<notin> set (map fst (filter (\<lambda>(i, _). P i) m)) \<longleftrightarrow> \<not> P i" if "(i, e) \<in> set m" for i e
    using that by force
  then show ?thesis unfolding remove_keys_filter by (intro filter_cong) auto
qed

lemma log_truncate_filter:
  assumes "bt_ok (ls_log ls)"
  shows "ls_log (log_truncate ls lid) = filter (\<lambda>(i, _). i < li_index lid) (ls_log ls)"
  using assms by (simp add: log_truncate_def bt_range_from_filter remove_selected not_le)

lemma log_purge_filter:
  assumes "bt_ok (ls_log ls)" and "log_purge lid_le ls lid = Some ls'"
  shows "ls_log ls' = filter (\<lambda>(i, _). li_index lid < i) (ls_log ls)"
proof -
  have "takeWhile (\<lambda>(i, _). i \<le> li_index lid) (ls_log ls) = filter (\<lambda>(i, _). i \<le> li_index lid) (ls_log ls)"
    by (intro takeWhile_filter_sorted [OF assms(1)]) auto
  then show ?thesis
    using assms(2) by (auto simp: log_purge_def remove_selected not_le split: if_splits)
qed

lemma log_append_snoc:
  assumes "sorted_wrt (<) (map entry_index es)" and "\<forall>i \<in> fst ` set m. \<forall>e \<in> set es. i < entry_index e"
  shows "foldl (\<lambda>m e. bt_insert (entry_index e) e m) m es = m @ map (\<lambda>e. (entry_index e, e)) es"
  using assms
proof (induction es arbitrary: m)
  case (Cons e es)
  have "bt_insert (entry_index e) e m = m @ [(entry_index e, e)]"
    using Cons.prems(2) by (intro bt_insert_last) auto
  moreover have "\<forall>i \<in> fst ` set (m @ [(entry_index e, e)]). \<forall>e \<in> set es. i < entry_index e"
    using Cons.prems by auto
  ultimately show ?case using Cons.IH [of "m @ [(entry_index e, e)]"] Cons.prems(1) by simp
qed simp

section \<open>The simulation\<close>

text \<open>What \<open>serde_json\<close> promises of the values the log stores.\<close>

definition log_json_law :: "('l, 'm, 'v) log_json \<Rightarrow> bool" where
  "log_json_law J \<longleftrightarrow>
     (\<forall>x. \<exists>d. lj_entry_to J x = Some d \<and> lj_entry_of J d = Some x) \<and>
     (\<forall>x. \<exists>d. lj_lid_to J x = Some d \<and> lj_lid_of J d = Some x \<and> (\<forall>l. x = Some l \<longrightarrow> lj_some_of J d = Some l)) \<and>
     (\<forall>x. \<exists>d. lj_vote_to J x = Some d \<and> lj_vote_of J d = Some x)"

lemma log_json_lawD:
  assumes "log_json_law J"
  shows "\<exists>d. lj_entry_to J e = Some d \<and> lj_entry_of J d = Some e"
    and "\<exists>d. lj_lid_to J c = Some d \<and> lj_lid_of J d = Some c"
    and "\<exists>d. lj_lid_to J (Some l) = Some d \<and> lj_some_of J d = Some l"
    and "\<exists>d. lj_vote_to J v = Some d \<and> lj_vote_of J d = Some v"
  using assms unfolding log_json_law_def by (elim conjE; blast)+

text \<open>What the durable keyspace \<open>f\<close> holds when the in-memory log is \<open>ls\<close>.\<close>

definition log_ok :: "('l, 'm, 'v) log_store \<Rightarrow> bool" where
  "log_ok ls \<longleftrightarrow> bt_ok (ls_log ls) \<and> (\<forall>(i, e) \<in> set (ls_log ls). entry_index e = i)"

definition entries_rel :: "('l, 'm, 'v) log_json \<Rightarrow> (bytes \<rightharpoonup> bytes) \<Rightarrow> (u64, ('l, 'm) entry) btree \<Rightarrow> bool" where
  "entries_rel J f log \<longleftrightarrow>
     (\<forall>k b. f k = Some b \<and> prefix LOG_PREFIX k \<longrightarrow> (\<exists>i e. k = log_key i \<and> lj_entry_of J b = Some e \<and> (i, e) \<in> set log)) \<and>
     (\<forall>(i, e) \<in> set log. \<exists>b. f (log_key i) = Some b \<and> lj_entry_of J b = Some e)"

definition value_rel :: "(bytes \<Rightarrow> 'a option) \<Rightarrow> bytes option \<Rightarrow> 'a option \<Rightarrow> bool" where
  "value_rel of_json b x \<longleftrightarrow> (case b of None \<Rightarrow> x = None | Some d \<Rightarrow> x \<noteq> None \<and> of_json d = x)"

definition stored_rel :: "('l, 'm, 'v) log_json \<Rightarrow> (bytes \<rightharpoonup> bytes) \<Rightarrow> ('l, 'm, 'v) log_store \<Rightarrow> bool" where
  "stored_rel J f ls \<longleftrightarrow>
     entries_rel J f (ls_log ls) \<and>
     value_rel (lj_some_of J) (f PURGED_KEY) (ls_last_purged ls) \<and>
     (case f COMMITTED_KEY of None \<Rightarrow> ls_committed ls = None | Some b \<Rightarrow> lj_lid_of J b = Some (ls_committed ls)) \<and>
     value_rel (lj_vote_of J) (f VOTE_KEY) (ls_vote ls)"

lemma read_value_rel: "value_rel of_json (f k) x \<Longrightarrow> fj_get F db ks k = Inr (f k) \<Longrightarrow> read_json F db ks of_json k = Inr x"
  by (auto simp: value_rel_def read_json_def split: option.splits)

definition log_rel :: "('l, 'm, 'v) log_json \<Rightarrow> (bytes \<rightharpoonup> bytes) \<Rightarrow> 'l log_cache \<Rightarrow> ('l, 'm, 'v) log_store \<Rightarrow> bool" where
  "log_rel J f cache ls \<longleftrightarrow> log_ok ls \<and> stored_rel J f ls \<and> durable_log_state cache = get_log_state ls"

text \<open>A sorted list of the stored entries is the in-memory log.\<close>

lemma stored_entries:
  assumes "bt_ok log" and "entries_rel J f log" and "sorted_wrt (<) (map fst xs)"
    and "set xs = {(k, v). f k = Some v \<and> prefix LOG_PREFIX k}"
  shows "list_all2 (\<lambda>(k, b) (i, e). k = log_key i \<and> lj_entry_of J b = Some e) xs log"
proof -
  define dec where "dec = (\<lambda>(k :: bytes, b :: bytes). (the (log_index k), the (lj_entry_of J b)))"
  have el: "\<exists>i e. k = log_key i \<and> lj_entry_of J b = Some e \<and> (i, e) \<in> set log" if "(k, b) \<in> set xs" for k b
    using that assms(2,4) by (auto simp: entries_rel_def)
  have set_eq: "set (map dec xs) = set log"
  proof
    show "set (map dec xs) \<subseteq> set log" using el by (fastforce simp: dec_def)
    show "set log \<subseteq> set (map dec xs)"
    proof
      fix p assume "p \<in> set log"
      then obtain i e b where p: "p = (i, e)" "f (log_key i) = Some b" "lj_entry_of J b = Some e"
        using assms(2) by (cases p) (auto simp: entries_rel_def)
      then have "(log_key i, b) \<in> set xs" by (simp add: assms(4))
      then show "p \<in> set (map dec xs)" using p by (force simp: dec_def)
    qed
  qed
  have "sorted_wrt (\<lambda>x y. fst (dec x) < fst (dec y)) xs"
  proof (rule sorted_wrt_mono_rel [rotated])
    show "sorted_wrt (\<lambda>x y. fst x < fst y) xs" using assms(3) by (simp add: sorted_wrt_map)
    fix x y assume "x \<in> set xs" "y \<in> set xs" "fst x < fst y"
    then show "fst (dec x) < fst (dec y)"
      using el [of "fst x" "snd x"] el [of "fst y" "snd y"] by (auto simp: dec_def case_prod_beta)
  qed
  then have "sorted_wrt (<) (map fst (map dec xs))" by (simp add: sorted_wrt_map)
  with set_eq assms(1) have "map dec xs = log" by (intro sorted_pairs_unique) (simp_all add: bt_ok_def)
  moreover have "list_all2 (\<lambda>(k, b) (i, e). k = log_key i \<and> lj_entry_of J b = Some e) xs (map dec xs)"
    unfolding list_all2_map2 using el by (fastforce simp: dec_def intro!: list.rel_refl_strong)
  ultimately show ?thesis by simp
qed

lemma entries_relD:
  "\<lbrakk>entries_rel J f log; f k = Some b; prefix LOG_PREFIX k\<rbrakk> \<Longrightarrow> \<exists>i e. k = log_key i \<and> lj_entry_of J b = Some e \<and> (i, e) \<in> set log"
  "\<lbrakk>entries_rel J f log; (i, e) \<in> set log\<rbrakk> \<Longrightarrow> \<exists>b. f (log_key i) = Some b \<and> lj_entry_of J b = Some e"
  unfolding entries_rel_def by blast+

lemma entries_relI:
  assumes "\<And>k b. \<lbrakk>f k = Some b; prefix LOG_PREFIX k\<rbrakk> \<Longrightarrow> \<exists>i e. k = log_key i \<and> lj_entry_of J b = Some e \<and> (i, e) \<in> set log"
    and "\<And>i e. (i, e) \<in> set log \<Longrightarrow> \<exists>b. f (log_key i) = Some b \<and> lj_entry_of J b = Some e"
  shows "entries_rel J f log"
  unfolding entries_rel_def using assms by blast

lemma entries_rel_cong:
  assumes "entries_rel J f log" and "\<And>k. prefix LOG_PREFIX k \<Longrightarrow> g k = f k"
  shows "entries_rel J g log"
  using assms(2) entries_relD [OF assms(1)] by (intro entries_relI) (metis, metis prefix_log_key)

lemma entries_rel_put:
  assumes "entries_rel J f log" and "lj_entry_of J b = Some e" and "i \<notin> fst ` set log"
  shows "entries_rel J (f(log_key i \<mapsto> b)) (log @ [(i, e)])"
proof (rule entries_relI)
  fix k b' assume "(f(log_key i \<mapsto> b)) k = Some b'" "prefix LOG_PREFIX k"
  then show "\<exists>i' e'. k = log_key i' \<and> lj_entry_of J b' = Some e' \<and> (i', e') \<in> set (log @ [(i, e)])"
    using assms(2) entries_relD(1) [OF assms(1), of k b'] by (cases "k = log_key i") fastforce+
next
  fix j e' assume j: "(j, e') \<in> set (log @ [(i, e)])"
  show "\<exists>b'. (f(log_key i \<mapsto> b)) (log_key j) = Some b' \<and> lj_entry_of J b' = Some e'"
  proof (cases "j = i")
    case True
    with j assms(3) have "e' = e" by force
    with True assms(2) show ?thesis by simp
  qed (use j entries_relD(2) [OF assms(1)] in auto)
qed

lemma entries_rel_append:
  assumes "entries_rel J f log" and "\<forall>e \<in> set es. lj_entry_of J (enc e) = Some e"
    and "distinct (map fst log @ map entry_index es)"
  shows "entries_rel J (foldl op_effect f (map (\<lambda>e. Put (log_key (entry_index e)) (enc e)) es))
    (log @ map (\<lambda>e. (entry_index e, e)) es)"
  using assms
proof (induction es arbitrary: f log)
  case (Cons e es)
  have "entries_rel J (f(log_key (entry_index e) \<mapsto> enc e)) (log @ [(entry_index e, e)])"
    using Cons.prems by (intro entries_rel_put) auto
  from Cons.IH [OF this] Cons.prems show ?case by (auto simp: fun_upd_def)
qed simp

lemma effect_delete_keys: "foldl op_effect f (map Delete ks) k = (if k \<in> set ks then None else f k)"
  by (induction ks arbitrary: f) auto

lemma entries_rel_remove:
  assumes "entries_rel J f log" and "distinct (map fst log)"
  shows "entries_rel J (foldl op_effect f (map Delete (map log_key (filter P (map fst log))))) (filter (\<lambda>(i, _). \<not> P i) log)"
proof (rule entries_relI)
  let ?g = "foldl op_effect f (map Delete (map log_key (filter P (map fst log))))"
  fix k b assume g: "?g k = Some b" and k: "prefix LOG_PREFIX k"
  then have fk: "f k = Some b" and nd: "k \<notin> set (map log_key (filter P (map fst log)))"
    by (auto simp only: effect_delete_keys split: if_splits)
  from entries_relD(1) [OF assms(1) fk k] obtain i e where i: "k = log_key i" "lj_entry_of J b = Some e" "(i, e) \<in> set log" by blast
  then have "\<not> P i" using nd by force
  with i show "\<exists>i e. k = log_key i \<and> lj_entry_of J b = Some e \<and> (i, e) \<in> set (filter (\<lambda>(i, _). \<not> P i) log)" by auto
next
  fix i e assume "(i, e) \<in> set (filter (\<lambda>(i, _). \<not> P i) log)"
  then have "(i, e) \<in> set log" "\<not> P i" by auto
  then show "\<exists>b. foldl op_effect f (map Delete (map log_key (filter P (map fst log)))) (log_key i) = Some b \<and> lj_entry_of J b = Some e"
    using entries_relD(2) [OF assms(1)] by (auto simp: effect_delete_keys simp del: map_map)
qed

subsection \<open>Reading the keyspace\<close>

abbreviation stored_as :: "('l, 'm, 'v) log_json \<Rightarrow> (bytes \<times> bytes) list \<Rightarrow> (u64, ('l, 'm) entry) btree \<Rightarrow> bool" where
  "stored_as J xs log \<equiv> list_all2 (\<lambda>(k, b) (i, e). k = log_key i \<and> lj_entry_of J b = Some e) xs log"

lemma read_guards_stored:
  "stored_as J xs log \<Longrightarrow> read_guards J r (map Inr xs) = Inr (map snd (filter (\<lambda>(i, _). contains r i) log))"
  by (induction rule: list_all2_induct) (auto simp del: rbind_eq_Inr)

lemma guard_keys_stored:
  "stored_as J xs log \<Longrightarrow> guard_keys P (map Inr xs) = Inr (map log_key (filter P (map fst log)))"
  by (induction rule: list_all2_induct) (auto simp del: rbind_eq_Inr)

lemma stored_last:
  "\<lbrakk>stored_as J xs log; log \<noteq> []\<rbrakk> \<Longrightarrow> xs \<noteq> [] \<and> lj_entry_of J (snd (last xs)) = Some (snd (last log))"
  by (induction rule: list_all2_induct) auto

definition last_log_id :: "(u64, ('l, 'm) entry) btree \<Rightarrow> 'l log_id option" where
  "last_log_id log = (if log = [] then None else Some (en_log_id (snd (last log))))"

lemma st_last_get: "st_last (get_log_state ls) = (case last_log_id (ls_log ls) of Some l \<Rightarrow> Some l | None \<Rightarrow> ls_last_purged ls)"
  by (simp add: get_log_state_def last_log_id_def Let_def)

lemma st_purged_get: "st_last_purged (get_log_state ls) = ls_last_purged ls"
  by (simp add: get_log_state_def Let_def)

lemma log_rel_cache:
  assumes "log_rel J f cache ls"
  shows "lc_last_log_id cache = st_last (get_log_state ls)" and "lc_last_purged cache = ls_last_purged ls"
proof -
  have eq: "durable_log_state cache = get_log_state ls" using assms by (simp add: log_rel_def)
  show "lc_last_log_id cache = st_last (get_log_state ls)" by (simp flip: eq add: durable_log_state_def)
  show "lc_last_purged cache = ls_last_purged ls"
    by (simp flip: st_purged_get eq add: durable_log_state_def)
qed

lemma log_relI:
  assumes "log_ok ls" and "stored_rel J f ls"
    and "lc_last_log_id cache = (case last_log_id (ls_log ls) of Some l \<Rightarrow> Some l | None \<Rightarrow> ls_last_purged ls)"
    and "lc_last_purged cache = ls_last_purged ls"
  shows "log_rel J f cache ls"
  using assms by (simp add: log_rel_def durable_log_state_def get_log_state_def last_log_id_def Let_def)

context fjall_db
begin

lemma stored_guards:
  assumes "db_ok db" and "bt_ok log" and "entries_rel J (view db ks) log"
  obtains xs where "fj_prefix F db ks LOG_PREFIX = map Inr xs" and "stored_as J xs log"
proof -
  obtain xs where "fj_prefix F db ks LOG_PREFIX = map Inr xs" "sorted_wrt (<) (map fst xs)"
    "set xs = {(k, v). view db ks k = Some v \<and> prefix LOG_PREFIX k}"
    using fj_prefix [OF assms(1)] by blast
  with stored_entries [OF assms(2,3)] that show thesis by blast
qed

lemma highest_stored:
  assumes "db_ok db" and "bt_ok log" and "entries_rel J (view db ks) log"
  shows "highest_log_id F J ks db = Inr (last_log_id log)"
proof -
  obtain xs where xs: "fj_prefix F db ks LOG_PREFIX = map Inr xs" "stored_as J xs log" by (rule stored_guards [OF assms])
  show ?thesis
  proof (cases "log = []")
    case True
    then have "xs = []" using xs(2) by simp
    then show ?thesis using True xs(1) by (simp add: highest_log_id_def last_log_id_def)
  next
    case False
    with stored_last [OF xs(2)] have "xs \<noteq> []" "lj_entry_of J (snd (last xs)) = Some (snd (last log))" by auto
    then show ?thesis using False xs(1) by (simp add: highest_log_id_def last_log_id_def last_map Let_def case_prod_beta)
  qed
qed

lemma persist_view: "db_ok db \<Longrightarrow> \<exists>db'. log_persist F db = (db', Inr ()) \<and> db_ok db' \<and> view db' = view db"
  using fj_persist [of db] by (auto simp: log_persist_def)

lemma open_stored:
  assumes "db_ok db" and "log_rel J (view db ks) cache ls"
  shows "durable_log_open F J ks db = Inr cache"
proof -
  have "bt_ok (ls_log ls)" "entries_rel J (view db ks) (ls_log ls)"
    using assms(2) by (simp_all add: log_rel_def log_ok_def stored_rel_def)
  from highest_stored [OF assms(1) this] have h: "highest_log_id F J ks db = Inr (last_log_id (ls_log ls))" .
  have "read_json F db ks (lj_some_of J) PURGED_KEY = Inr (ls_last_purged ls)"
    using assms(2) fj_get [OF assms(1), of ks PURGED_KEY] by (intro read_value_rel) (simp_all add: log_rel_def stored_rel_def)
  moreover have "lc_last_log_id cache = st_last (get_log_state ls)" "lc_last_purged cache = ls_last_purged ls"
    using log_rel_cache [OF assms(2)] by auto
  ultimately show ?thesis using h by (simp add: durable_log_open_def st_last_get)
qed

end

section \<open>Histories\<close>

datatype ('l, 'm, 'v) log_op =
    OpAppend "('l, 'm) entry list"
  | OpTruncate "'l log_id"
  | OpPurge "'l log_id"
  | OpVote 'v
  | OpCommitted "'l log_id option"

fun mem_step ::
  "('l log_id \<Rightarrow> 'l log_id \<Rightarrow> bool) \<Rightarrow> ('l, 'm, 'v) log_store \<Rightarrow> ('l, 'm, 'v) log_op \<Rightarrow> ('l, 'm, 'v) log_store option" where
  "mem_step lid_le ls (OpAppend es) = Some (log_append ls es)"
| "mem_step lid_le ls (OpTruncate lid) = Some (log_truncate ls lid)"
| "mem_step lid_le ls (OpPurge lid) = log_purge lid_le ls lid"
| "mem_step lid_le ls (OpVote v) = Some (save_vote ls v)"
| "mem_step lid_le ls (OpCommitted c) = Some (save_committed ls c)"

fun durable_step ::
  "'s fjall \<Rightarrow> ('l, 'm, 'v) log_json \<Rightarrow> ('l log_id \<Rightarrow> 'l log_id \<Rightarrow> bool) \<Rightarrow> string \<Rightarrow> 's \<Rightarrow> 'l log_cache \<Rightarrow>
   ('l, 'm, 'v) log_op \<Rightarrow> ('s \<times> 'l log_cache \<times> (storage_error + unit)) option" where
  "durable_step F J lid_le ks db cache (OpAppend es) = Some (durable_append F J ks db cache es)"
| "durable_step F J lid_le ks db cache (OpTruncate lid) = Some (durable_truncate F J ks db cache lid)"
| "durable_step F J lid_le ks db cache (OpPurge lid) = durable_purge F J lid_le ks db cache lid"
| "durable_step F J lid_le ks db cache (OpVote v) = Some (let (db, r) = durable_save_vote F J ks db v in (db, cache, r))"
| "durable_step F J lid_le ks db cache (OpCommitted c) = Some (let (db, r) = durable_save_committed F J ks db c in (db, cache, r))"

text \<open>
  Raft's side of the contract: entries are appended after the last log id in increasing order, and a
  purge names the id of the entry stored at its index and never goes back.
\<close>

fun log_op_ok :: "('l log_id \<Rightarrow> 'l log_id \<Rightarrow> bool) \<Rightarrow> ('l, 'm, 'v) log_store \<Rightarrow> ('l, 'm, 'v) log_op \<Rightarrow> bool" where
  "log_op_ok lid_le ls (OpAppend es) \<longleftrightarrow>
     sorted_wrt (<) (map entry_index es) \<and>
     (\<forall>l. st_last (get_log_state ls) = Some l \<longrightarrow> (\<forall>e \<in> set es. li_index l < entry_index e))"
| "log_op_ok lid_le ls (OpPurge lid) \<longleftrightarrow>
     purge_allowed lid_le (ls_last_purged ls) lid \<and>
     (\<forall>e. (li_index lid, e) \<in> set (ls_log ls) \<longrightarrow> en_log_id e = lid) \<and>
     (\<forall>p. ls_last_purged ls = Some p \<longrightarrow> li_index p < li_index lid \<or> p = lid)"
| "log_op_ok lid_le ls _ \<longleftrightarrow> True"

lemma stored_rel_entries:
  assumes "stored_rel J f ls" and "entries_rel J g log"
    and "g PURGED_KEY = f PURGED_KEY" and "g COMMITTED_KEY = f COMMITTED_KEY" and "g VOTE_KEY = f VOTE_KEY"
  shows "stored_rel J g (ls\<lparr> ls_log := log \<rparr>)"
  using assms by (auto simp: stored_rel_def split: option.splits)

lemma log_okD: "log_ok ls \<Longrightarrow> bt_ok (ls_log ls)" "\<lbrakk>log_ok ls; (i, e) \<in> set (ls_log ls)\<rbrakk> \<Longrightarrow> entry_index e = i"
  by (auto simp: log_ok_def)

lemma log_ok_filter: "log_ok ls \<Longrightarrow> log_ok (ls\<lparr> ls_log := filter P (ls_log ls) \<rparr>)"
  by (auto simp: log_ok_def bt_ok_filter)

lemma bt_ok_last: "\<lbrakk>bt_ok m; (i, e) \<in> set m\<rbrakk> \<Longrightarrow> i \<le> fst (last m)"
  by (induction m rule: rev_induct) (auto simp: bt_ok_def sorted_wrt_append less_imp_le)

lemma log_below_last:
  assumes "log_ok ls" and "(i, e) \<in> set (ls_log ls)"
  shows "\<exists>l. st_last (get_log_state ls) = Some l \<and> i \<le> li_index l"
proof -
  let ?log = "ls_log ls"
  have ne: "?log \<noteq> []" using assms(2) by auto
  have "last ?log \<in> set ?log" using ne by simp
  then have l: "entry_index (snd (last ?log)) = fst (last ?log)" using log_okD(2) [OF assms(1)] by (metis prod.collapse)
  have "i \<le> fst (last ?log)"
    using log_okD(1) [OF assms(1)] assms(2) by (rule bt_ok_last)
  with ne l show ?thesis by (simp add: st_last_get last_log_id_def)
qed

lemma ops_for_deletes: "ops_for ks (map (\<lambda>k. (ks, Delete k)) keys) = map Delete keys"
  by (simp add: ops_for_map)

lemma last_log_id_snoc:
  "last_log_id (log @ map (\<lambda>e. (entry_index e, e)) es) = (if es = [] then last_log_id log else Some (en_log_id (last es)))"
  by (auto simp: last_log_id_def last_map)

lemma append_batch_eq:
  assumes "\<forall>e \<in> set es. lj_entry_to J e = Some (enc e)" and "sorted_wrt (<) (map entry_index es)"
    and "\<And>m. max_id = Some m \<Longrightarrow> \<forall>e \<in> set es. li_index m < entry_index e"
  shows "append_batch J ks batch max_id es
    = Inr (batch @ map (\<lambda>e. (ks, Put (log_key (entry_index e)) (enc e))) es,
           if es = [] then max_id else Some (en_log_id (last es)))"
  using assms
proof (induction es arbitrary: batch max_id)
  case (Cons e es)
  have "(case max_id of None \<Rightarrow> Some (en_log_id e)
      | Some m \<Rightarrow> if li_index m < entry_index e then Some (en_log_id e) else max_id) = Some (en_log_id e)"
    using Cons.prems(3) by (auto split: option.splits)
  with Cons.IH [of "Some (en_log_id e)" "batch @ [(ks, Put (log_key (entry_index e)) (enc e))]"] Cons.prems(1,2)
  show ?case by simp
qed simp

text \<open>After a purge the cache's last id is the last remaining entry's, or the purged id.\<close>

lemma purge_last_id:
  assumes "log_ok ls" and "log_op_ok lid_le ls (OpPurge lid)"
  shows "(case st_last (get_log_state ls) of None \<Rightarrow> Some lid | Some l \<Rightarrow> if li_index l < li_index lid then Some lid else Some l)
    = (case last_log_id (filter (\<lambda>(i, _). \<not> i \<le> li_index lid) (ls_log ls)) of Some l \<Rightarrow> Some l | None \<Rightarrow> Some lid)"
proof (cases "ls_log ls = []")
  case True
  then show ?thesis using assms(2) by (auto simp: st_last_get last_log_id_def split: option.splits)
next
  case False
  then obtain log i e where log: "ls_log ls = log @ [(i, e)]" by (metis rev_exhaust prod.exhaust)
  then have i: "entry_index e = i" using log_okD(2) [OF assms(1)] by simp
  have st: "st_last (get_log_state ls) = Some (en_log_id e)" by (simp add: st_last_get last_log_id_def log)
  show ?thesis
  proof (cases "i \<le> li_index lid")
    case True
    have "\<forall>(j, _) \<in> set log. j \<le> li_index lid"
      using log_okD(1) [OF assms(1)] True by (fastforce simp: bt_ok_def log sorted_wrt_append)
    then have "filter (\<lambda>(i, _). \<not> i \<le> li_index lid) (ls_log ls) = []"
      using True by (auto simp: log filter_empty_conv)
    moreover have "en_log_id e = lid" if "i = li_index lid" using assms(2) that by (auto simp: log)
    ultimately show ?thesis using True by (auto simp: st i last_log_id_def)
  qed (simp add: st i last_log_id_def log)
qed

context fjall_db
begin

lemma append_step:
  assumes "db_ok db" and "log_json_law J" and rel: "log_rel J (view db ks) cache ls" and ok: "log_op_ok lid_le ls (OpAppend es)"
  shows "\<exists>db' cache'. durable_append F J ks db cache es = (db', cache', Inr ()) \<and> db_ok db'
    \<and> log_rel J (view db' ks) cache' (log_append ls es) \<and> (\<forall>n. n \<noteq> ks \<longrightarrow> view db' n = view db n)"
proof -
  obtain enc where enc: "\<forall>e. lj_entry_to J e = Some (enc e) \<and> lj_entry_of J (enc e) = Some e"
    using log_json_lawD(1) [OF assms(2)] by metis
  let ?puts = "map (\<lambda>e. Put (log_key (entry_index e)) (enc e)) es"
  let ?max = "if es = [] then None else Some (en_log_id (last es))"
  have srt: "sorted_wrt (<) (map entry_index es)"
    and above: "\<And>l. st_last (get_log_state ls) = Some l \<Longrightarrow> \<forall>e \<in> set es. li_index l < entry_index e"
    using ok by auto
  have lok: "log_ok ls" and st: "stored_rel J (view db ks) ls" using rel by (simp_all add: log_rel_def)
  have gt: "\<forall>i \<in> fst ` set (ls_log ls). \<forall>e \<in> set es. i < entry_index e"
    using log_below_last [OF lok] above by force
  have app: "log_append ls es = ls\<lparr> ls_log := ls_log ls @ map (\<lambda>e. (entry_index e, e)) es \<rparr>"
    unfolding log_append_def by (simp add: log_append_snoc [OF srt gt])
  have b: "append_batch J ks [] None es = Inr (map (\<lambda>w. (ks, w)) ?puts, ?max)"
    using append_batch_eq [of es J enc None ks "[]"] enc srt by (simp add: comp_def)
  obtain db1 where 1: "fj_commit F db (map (\<lambda>w. (ks, w)) ?puts) = Inr db1" "db_ok db1"
    "\<And>n. view db1 n = foldl op_effect (view db n) (ops_for n (map (\<lambda>w. (ks, w)) ?puts))"
    using fj_commit [OF assms(1), of "map (\<lambda>w. (ks, w)) ?puts"] by blast
  obtain db2 where 2: "log_persist F db1 = (db2, Inr ())" "db_ok db2" "view db2 = view db1"
    using persist_view [OF 1(2)] by blast
  define cache' where "cache' = (if es = [] then cache else cache\<lparr> lc_last_log_id := Some (en_log_id (last es)) \<rparr>)"
  have c: "(case ?max of None \<Rightarrow> cache
     | Some m \<Rightarrow> (case lc_last_log_id cache of None \<Rightarrow> cache\<lparr> lc_last_log_id := Some m \<rparr>
       | Some l \<Rightarrow> if li_index l < li_index m then cache\<lparr> lc_last_log_id := Some m \<rparr> else cache)) = cache'"
    using above by (auto simp: cache'_def log_rel_cache(1) [OF rel] split: option.splits)
  have "durable_append F J ks db cache es = (db2, cache', Inr ())"
    using b 1(1) 2(1) c by (simp add: durable_append_def Let_def)
  moreover have view: "view db2 n = (if n = ks then foldl op_effect (view db ks) ?puts else view db n)" for n
    by (simp add: 2(3) 1(3) ops_for_map [of _ _ "\<lambda>w. w", simplified] del: map_map)
  have "log_rel J (view db2 ks) cache' (log_append ls es)"
  proof (rule log_relI)
    have "distinct (map fst (ls_log ls) @ map entry_index es)"
      using log_okD(1) [OF lok, THEN bt_ok_distinct] srt gt by (fastforce simp: strict_sorted_iff)
    then have "entries_rel J (view db2 ks) (ls_log ls @ map (\<lambda>e. (entry_index e, e)) es)"
      using st enc by (simp add: view entries_rel_append stored_rel_def)
    moreover have "view db2 ks k = view db ks k" if "\<not> prefix LOG_PREFIX k" for k
      using that prefix_log_key by (auto simp: view intro!: op_effect_frame)
    ultimately show "stored_rel J (view db2 ks) (log_append ls es)"
      unfolding app by (intro stored_rel_entries [OF st]) simp_all
    show "log_ok (log_append ls es)"
      using lok srt gt by (auto simp: app log_ok_def bt_ok_def sorted_wrt_append comp_def)
    show "lc_last_log_id cache' = (case last_log_id (ls_log (log_append ls es)) of Some l \<Rightarrow> Some l | None \<Rightarrow> ls_last_purged (log_append ls es))"
      unfolding app by (simp add: last_log_id_snoc cache'_def log_rel_cache(1) [OF rel] st_last_get split: option.split)
    show "lc_last_purged cache' = ls_last_purged (log_append ls es)"
      unfolding app by (simp add: cache'_def log_rel_cache(2) [OF rel])
  qed
  ultimately show ?thesis using 2(2) view by auto
qed

lemma truncate_step:
  assumes "db_ok db" and rel: "log_rel J (view db ks) cache ls"
  shows "\<exists>db' cache'. durable_truncate F J ks db cache lid = (db', cache', Inr ()) \<and> db_ok db'
    \<and> log_rel J (view db' ks) cache' (log_truncate ls lid) \<and> (\<forall>n. n \<noteq> ks \<longrightarrow> view db' n = view db n)"
proof -
  have lok: "log_ok ls" and st: "stored_rel J (view db ks) ls" and er: "entries_rel J (view db ks) (ls_log ls)"
    using rel by (simp_all add: log_rel_def stored_rel_def)
  obtain xs where xs: "fj_prefix F db ks LOG_PREFIX = map Inr xs" "stored_as J xs (ls_log ls)"
    by (rule stored_guards [OF assms(1) log_okD(1) [OF lok] er])
  let ?keys = "map log_key (filter (\<lambda>i. li_index lid \<le> i) (map fst (ls_log ls)))"
  let ?log = "filter (\<lambda>(i, _). \<not> li_index lid \<le> i) (ls_log ls)"
  obtain db1 where 1: "fj_commit F db (map (\<lambda>k. (ks, Delete k)) ?keys) = Inr db1" "db_ok db1"
    "\<And>n. view db1 n = foldl op_effect (view db n) (ops_for n (map (\<lambda>k. (ks, Delete k)) ?keys))"
    using fj_commit [OF assms(1)] by blast
  have tr: "log_truncate ls lid = ls\<lparr> ls_log := ?log \<rparr>"
    using log_truncate_filter [OF log_okD(1) [OF lok], of lid] by (simp add: log_truncate_def not_le)
  have view: "view db1 n = (if n = ks then foldl op_effect (view db ks) (map Delete ?keys) else view db n)" for n
    by (simp add: 1(3) ops_for_map del: map_map)
  have er1: "entries_rel J (view db1 ks) ?log"
    using entries_rel_remove [OF er bt_ok_distinct [OF log_okD(1) [OF lok]], of "\<lambda>i. li_index lid \<le> i"] by (simp add: view)
  have lok1: "log_ok (log_truncate ls lid)" unfolding tr by (rule log_ok_filter [OF lok])
  then have h: "highest_log_id F J ks db1 = Inr (last_log_id ?log)"
    using highest_stored [OF 1(2) _ er1] by (simp add: tr log_ok_def)
  obtain db2 where 2: "log_persist F db1 = (db2, Inr ())" "db_ok db2" "view db2 = view db1"
    using persist_view [OF 1(2)] by blast
  let ?cache = "cache\<lparr> lc_last_log_id := (case last_log_id ?log of Some l \<Rightarrow> Some l | None \<Rightarrow> lc_last_purged cache) \<rparr>"
  have "durable_truncate F J ks db cache lid = (db2, ?cache, Inr ())"
    using xs(1) guard_keys_stored [OF xs(2)] 1(1) h 2(1) by (simp add: durable_truncate_def Let_def del: map_map)
  moreover have "log_rel J (view db2 ks) ?cache (log_truncate ls lid)"
  proof (rule log_relI [OF lok1])
    have "view db1 ks k = view db ks k" if "\<not> prefix LOG_PREFIX k" for k
      using that prefix_log_key by (auto simp: view effect_delete_keys simp del: map_map)
    then show "stored_rel J (view db2 ks) (log_truncate ls lid)"
      unfolding tr 2(3) by (intro stored_rel_entries [OF st er1]) simp_all
  qed (unfold tr, simp_all add: log_rel_cache(2) [OF rel] split: option.split)
  ultimately show ?thesis using 2 view by auto
qed

lemma purge_step:
  assumes "db_ok db" and "log_json_law J" and rel: "log_rel J (view db ks) cache ls" and ok: "log_op_ok lid_le ls (OpPurge lid)"
  shows "\<exists>ls' db' cache'. log_purge lid_le ls lid = Some ls' \<and> durable_purge F J lid_le ks db cache lid = Some (db', cache', Inr ())
    \<and> db_ok db' \<and> log_rel J (view db' ks) cache' ls' \<and> (\<forall>n. n \<noteq> ks \<longrightarrow> view db' n = view db n)"
proof -
  have lok: "log_ok ls" and st: "stored_rel J (view db ks) ls" and er: "entries_rel J (view db ks) (ls_log ls)"
    using rel by (simp_all add: log_rel_def stored_rel_def)
  obtain ls' where ls': "log_purge lid_le ls lid = Some ls'" using ok by (simp add: log_purge_def)
  let ?log = "filter (\<lambda>(i, _). \<not> i \<le> li_index lid) (ls_log ls)"
  have pu: "ls' = ls\<lparr> ls_last_purged := Some lid, ls_log := ?log \<rparr>"
    using ls' log_purge_filter [OF log_okD(1) [OF lok] ls'] by (auto simp: log_purge_def not_le split: if_splits)
  obtain xs where xs: "fj_prefix F db ks LOG_PREFIX = map Inr xs" "stored_as J xs (ls_log ls)"
    by (rule stored_guards [OF assms(1) log_okD(1) [OF lok] er])
  obtain d where d: "lj_lid_to J (Some lid) = Some d" "lj_some_of J d = Some lid"
    using log_json_lawD(3) [OF assms(2)] by blast
  let ?keys = "map log_key (filter (\<lambda>i. i \<le> li_index lid) (map fst (ls_log ls)))"
  let ?b = "map (\<lambda>k. (ks, Delete k)) ?keys @ [(ks, Put PURGED_KEY d)]"
  obtain db1 where 1: "fj_commit F db ?b = Inr db1" "db_ok db1" "\<And>n. view db1 n = foldl op_effect (view db n) (ops_for n ?b)"
    using fj_commit [OF assms(1)] by blast
  have view: "view db1 n = (if n = ks then (foldl op_effect (view db ks) (map Delete ?keys))(PURGED_KEY \<mapsto> d) else view db n)" for n
    by (simp add: 1(3) ops_for_map del: map_map)
  have er1: "entries_rel J (view db1 ks) ?log"
    using entries_rel_remove [OF er bt_ok_distinct [OF log_okD(1) [OF lok]], of "\<lambda>i. i \<le> li_index lid"]
    by (rule entries_rel_cong) (auto simp: view)
  obtain db2 where 2: "log_persist F db1 = (db2, Inr ())" "db_ok db2" "view db2 = view db1"
    using persist_view [OF 1(2)] by blast
  let ?cache = "cache\<lparr> lc_last_purged := Some lid, lc_last_log_id := (case lc_last_log_id cache of
      None \<Rightarrow> Some lid | Some l \<Rightarrow> if li_index l < li_index lid then Some lid else Some l) \<rparr>"
  have "durable_purge F J lid_le ks db cache lid = Some (db2, ?cache, Inr ())"
    using ok xs(1) guard_keys_stored [OF xs(2)] d(1) 1(1) 2(1) log_rel_cache(2) [OF rel]
    by (simp add: durable_purge_def Let_def del: map_map)
  moreover have "log_rel J (view db2 ks) ?cache ls'"
  proof (rule log_relI)
    show "log_ok ls'" using log_ok_filter [OF lok] by (simp add: pu log_ok_def)
    have keep: "view db1 ks k = view db ks k" if "\<not> prefix LOG_PREFIX k" "k \<noteq> PURGED_KEY" for k
      using that prefix_log_key by (auto simp: view effect_delete_keys simp del: map_map)
    have "view db1 ks COMMITTED_KEY = view db ks COMMITTED_KEY" "view db1 ks VOTE_KEY = view db ks VOTE_KEY"
      by (rule keep; simp)+
    then show "stored_rel J (view db2 ks) ls'"
      using st er1 d(2) unfolding pu 2(3) stored_rel_def by (simp add: view value_rel_def cong: option.case_cong)
    show "lc_last_log_id ?cache = (case last_log_id (ls_log ls') of Some l \<Rightarrow> Some l | None \<Rightarrow> ls_last_purged ls')"
      using purge_last_id [OF lok ok] unfolding pu log_rel_cache(1) [OF rel] by (simp cong: option.case_cong)
  qed (simp add: pu)
  ultimately show ?thesis using ls' 2 view by auto
qed

lemma write_json_step:
  assumes "db_ok db"
  shows "\<exists>db'. durable_write_json F ks db key (Some d) = (db', Inr ()) \<and> db_ok db' \<and> view db' = (view db)(ks := (view db ks)(key \<mapsto> d))"
proof -
  obtain db1 where 1: "fj_insert F db ks key d = Inr db1" "db_ok db1" "view db1 = (view db)(ks := (view db ks)(key \<mapsto> d))"
    using fj_insert [OF assms] by blast
  with persist_view [OF 1(2)] show ?thesis by (auto simp: durable_write_json_def write_json_def)
qed

lemma vote_step:
  assumes "db_ok db" and "log_json_law J" and rel: "log_rel J (view db ks) cache ls"
  shows "\<exists>db'. durable_save_vote F J ks db v = (db', Inr ()) \<and> db_ok db' \<and> log_rel J (view db' ks) cache (save_vote ls v)
    \<and> (\<forall>n. n \<noteq> ks \<longrightarrow> view db' n = view db n)"
proof -
  obtain d where d: "lj_vote_to J v = Some d" "lj_vote_of J d = Some v" using log_json_lawD(4) [OF assms(2)] by blast
  obtain db' where db': "durable_write_json F ks db VOTE_KEY (Some d) = (db', Inr ())" "db_ok db'"
    "view db' = (view db)(ks := (view db ks)(VOTE_KEY \<mapsto> d))"
    using write_json_step [OF assms(1), of ks VOTE_KEY d] by (elim exE conjE) (rule that)
  have "entries_rel J (view db' ks) (ls_log ls)"
    by (rule entries_rel_cong [of J "view db ks"]) (use rel in \<open>auto simp: log_rel_def stored_rel_def db'(3)\<close>)
  then have "log_rel J (view db' ks) cache (save_vote ls v)"
    using rel d(2) by (simp add: log_rel_def log_ok_def stored_rel_def save_vote_def db'(3) get_log_state_def value_rel_def cong: option.case_cong)
  then show ?thesis using db' d(1) by (simp add: durable_save_vote_def)
qed

lemma committed_step:
  assumes "db_ok db" and "log_json_law J" and rel: "log_rel J (view db ks) cache ls"
  shows "\<exists>db'. durable_save_committed F J ks db c = (db', Inr ()) \<and> db_ok db' \<and> log_rel J (view db' ks) cache (save_committed ls c)
    \<and> (\<forall>n. n \<noteq> ks \<longrightarrow> view db' n = view db n)"
proof -
  obtain d where d: "lj_lid_to J c = Some d" "lj_lid_of J d = Some c" using log_json_lawD(2) [OF assms(2)] by blast
  obtain db' where db': "durable_write_json F ks db COMMITTED_KEY (Some d) = (db', Inr ())" "db_ok db'"
    "view db' = (view db)(ks := (view db ks)(COMMITTED_KEY \<mapsto> d))"
    using write_json_step [OF assms(1), of ks COMMITTED_KEY d] by (elim exE conjE) (rule that)
  have "entries_rel J (view db' ks) (ls_log ls)"
    by (rule entries_rel_cong [of J "view db ks"]) (use rel in \<open>auto simp: log_rel_def stored_rel_def db'(3)\<close>)
  then have "log_rel J (view db' ks) cache (save_committed ls c)"
    using rel d(2) by (simp add: log_rel_def log_ok_def stored_rel_def save_committed_def db'(3) get_log_state_def)
  then show ?thesis using db' d(1) by (simp add: durable_save_committed_def)
qed

lemma log_step:
  assumes "db_ok db" and "log_json_law J" and "log_rel J (view db ks) cache ls" and "log_op_ok lid_le ls op"
  shows "\<exists>ls' db' cache'. mem_step lid_le ls op = Some ls' \<and> durable_step F J lid_le ks db cache op = Some (db', cache', Inr ())
    \<and> db_ok db' \<and> log_rel J (view db' ks) cache' ls' \<and> (\<forall>n. n \<noteq> ks \<longrightarrow> view db' n = view db n)"
proof (cases op)
  case (OpAppend es)
  then show ?thesis using append_step [OF assms(1-3), of lid_le es] assms(4) by auto
next
  case (OpTruncate lid)
  then show ?thesis using truncate_step [OF assms(1,3)] by auto
next
  case (OpPurge lid)
  then show ?thesis using purge_step [OF assms(1-3), of lid_le lid] assms(4) by auto
next
  case (OpVote v)
  then show ?thesis using vote_step [OF assms(1-3), of v] by auto
next
  case (OpCommitted c)
  then show ?thesis using committed_step [OF assms(1-3), of c] by auto
qed

end

fun mem_run :: "('l log_id \<Rightarrow> 'l log_id \<Rightarrow> bool) \<Rightarrow> ('l, 'm, 'v) log_store \<Rightarrow> ('l, 'm, 'v) log_op list \<Rightarrow> ('l, 'm, 'v) log_store option" where
  "mem_run lid_le ls [] = Some ls"
| "mem_run lid_le ls (op # ops) = (case mem_step lid_le ls op of None \<Rightarrow> None | Some ls \<Rightarrow> mem_run lid_le ls ops)"

fun durable_run ::
  "'s fjall \<Rightarrow> ('l, 'm, 'v) log_json \<Rightarrow> ('l log_id \<Rightarrow> 'l log_id \<Rightarrow> bool) \<Rightarrow> string \<Rightarrow> 's \<Rightarrow> 'l log_cache \<Rightarrow>
   ('l, 'm, 'v) log_op list \<Rightarrow> ('s \<times> 'l log_cache \<times> (storage_error + unit)) option" where
  "durable_run F J lid_le ks db cache [] = Some (db, cache, Inr ())"
| "durable_run F J lid_le ks db cache (op # ops) =
     (case durable_step F J lid_le ks db cache op of
        None \<Rightarrow> None
      | Some (db, cache, Inl e) \<Rightarrow> Some (db, cache, Inl e)
      | Some (db, cache, Inr _) \<Rightarrow> durable_run F J lid_le ks db cache ops)"

text \<open>Every operation of the history keeps the contract in the state it is called in.\<close>

fun history_ok :: "('l log_id \<Rightarrow> 'l log_id \<Rightarrow> bool) \<Rightarrow> ('l, 'm, 'v) log_store \<Rightarrow> ('l, 'm, 'v) log_op list \<Rightarrow> bool" where
  "history_ok lid_le ls [] = True"
| "history_ok lid_le ls (op # ops) =
     (log_op_ok lid_le ls op \<and> (case mem_step lid_le ls op of None \<Rightarrow> False | Some ls \<Rightarrow> history_ok lid_le ls ops))"

definition empty_cache :: "'l log_cache" where
  "empty_cache = \<lparr> lc_last_log_id = None, lc_last_purged = None \<rparr>"

lemma log_rel_new: "log_rel J Map.empty empty_cache log_store_new"
  by (simp add: log_rel_def log_ok_def stored_rel_def entries_rel_def value_rel_def log_store_new_def empty_cache_def
      durable_log_state_def get_log_state_def)

context fjall_db
begin

lemma log_run:
  assumes "db_ok db" and "log_json_law J" and "log_rel J (view db ks) cache ls" and "history_ok lid_le ls ops"
  shows "\<exists>ls' db' cache'. mem_run lid_le ls ops = Some ls' \<and> durable_run F J lid_le ks db cache ops = Some (db', cache', Inr ())
    \<and> db_ok db' \<and> log_rel J (view db' ks) cache' ls' \<and> (\<forall>n. n \<noteq> ks \<longrightarrow> view db' n = view db n)"
  using assms(1,3,4)
proof (induction ops arbitrary: db cache ls)
  case (Cons op ops)
  have "log_op_ok lid_le ls op" using Cons.prems(3) by simp
  from log_step [OF Cons.prems(1) assms(2) Cons.prems(2) this]
  obtain ls1 db1 cache1 where 1: "mem_step lid_le ls op = Some ls1" "durable_step F J lid_le ks db cache op = Some (db1, cache1, Inr ())"
    "db_ok db1" "log_rel J (view db1 ks) cache1 ls1" "\<forall>n. n \<noteq> ks \<longrightarrow> view db1 n = view db n" by blast
  have "history_ok lid_le ls1 ops" using Cons.prems(3) 1(1) by simp
  from Cons.IH [OF 1(3,4) this] 1 show ?case by fastforce
qed auto

lemma log_reads:
  assumes "db_ok db" and rel: "log_rel J (view db ks) cache ls"
  shows "durable_get_log_entries F J ks db r = Inr (map snd (filter (\<lambda>(i, _). contains r i) (ls_log ls)))"
    and "durable_read_vote F J ks db = Inr (read_vote ls)" and "durable_read_committed F J ks db = Inr (read_committed ls)"
proof -
  have "bt_ok (ls_log ls)" "entries_rel J (view db ks) (ls_log ls)" and st: "stored_rel J (view db ks) ls"
    using rel by (simp_all add: log_rel_def log_ok_def stored_rel_def)
  then obtain xs where xs: "fj_prefix F db ks LOG_PREFIX = map Inr xs" "stored_as J xs (ls_log ls)"
    using stored_guards [OF assms(1)] by metis
  show "durable_get_log_entries F J ks db r = Inr (map snd (filter (\<lambda>(i, _). contains r i) (ls_log ls)))"
    using read_guards_stored [OF xs(2)] by (simp add: durable_get_log_entries_def xs(1))
  show "durable_read_vote F J ks db = Inr (read_vote ls)"
    using st fj_get [OF assms(1)] unfolding durable_read_vote_def read_vote_def
    by (intro read_value_rel [of _ "view db ks"]) (simp_all add: stored_rel_def)
  show "durable_read_committed F J ks db = Inr (read_committed ls)"
    using st by (auto simp: durable_read_committed_def read_json_def fj_get [OF assms(1)] read_committed_def stored_rel_def
        split: option.splits)
qed

end

text \<open>C20. The durable log is the in-memory log: over any history of appends, truncations, purges, votes
  and commit records that keeps Raft's contract, started on an empty keyspace, neither store fails,
  and afterwards they return the same entries for every range, the same log state, vote and commit
  record. Reopening the durable store rebuilds exactly the cache it had, and no other keyspace has
  changed.\<close>

theorem durable_log_agrees:
  assumes "fjall_db F view db_ok" and "db_ok db" and "view db ks = Map.empty" and "log_json_law J"
    and "history_ok lid_le log_store_new ops"
  shows "\<exists>ls db' cache. mem_run lid_le log_store_new ops = Some ls
    \<and> durable_run F J lid_le ks db empty_cache ops = Some (db', cache, Inr ())
    \<and> (\<forall>r. \<not> bounds_panic r \<longrightarrow> (\<exists>es. try_get_log_entries ls r = Some es \<and> durable_get_log_entries F J ks db' r = Inr es))
    \<and> durable_log_state cache = get_log_state ls
    \<and> durable_read_vote F J ks db' = Inr (read_vote ls) \<and> durable_read_committed F J ks db' = Inr (read_committed ls)
    \<and> durable_log_open F J ks db' = Inr cache
    \<and> (\<forall>n. n \<noteq> ks \<longrightarrow> view db' n = view db n)"
proof -
  have "log_rel J (view db ks) empty_cache log_store_new" by (simp add: assms(3) log_rel_new)
  from fjall_db.log_run [OF assms(1), OF assms(2,4) this assms(5)]
  obtain ls db' cache where r: "mem_run lid_le log_store_new ops = Some ls"
    "durable_run F J lid_le ks db empty_cache ops = Some (db', cache, Inr ())" "db_ok db'"
    "log_rel J (view db' ks) cache ls" "\<forall>n. n \<noteq> ks \<longrightarrow> view db' n = view db n" by blast
  note reads = fjall_db.log_reads [OF assms(1), OF r(3,4)]
  show ?thesis
    using r(1,2,5) reads fjall_db.open_stored [OF assms(1), OF r(3,4)] r(4)
    by (auto simp: try_get_log_entries_def log_rel_def)
qed

definition plain_log_json :: "(unit, unit, unit) log_json" where
  "plain_log_json =
     \<lparr> lj_entry_to = \<lambda>e. Some (pj_entry e), lj_entry_of = pj_of_entry,
       lj_lid_to = \<lambda>l. Some (pj_lid l), lj_lid_of = \<lambda>d. map_option fst (pj_take_lid d),
       lj_some_of = \<lambda>d. (case pj_take_lid d of Some (Some l, _) \<Rightarrow> Some l | _ \<Rightarrow> None),
       lj_vote_to = \<lambda>_. Some [], lj_vote_of = \<lambda>_. Some () \<rparr>"

lemma plain_log_json_law: "log_json_law plain_log_json"
  using pj_take_lid [of _ "[]"] by (auto simp: log_json_law_def plain_log_json_def)

definition blank_entry :: "u64 \<Rightarrow> (unit, unit) entry" where
  "blank_entry i = \<lparr> en_log_id = \<lparr> li_leader = (), li_index = i \<rparr>, en_payload = Blank \<rparr>"

theorem durable_log_agrees_witness:
  "\<exists>ls db' cache.
     mem_run (\<lambda>a b. li_index a \<le> li_index b) log_store_new
       [OpAppend [blank_entry 1, blank_entry 2, blank_entry 3], OpVote (), OpPurge \<lparr> li_leader = (), li_index = 1 \<rparr>,
        OpTruncate \<lparr> li_leader = (), li_index = 3 \<rparr>] = Some ls
     \<and> durable_run mem_fjall plain_log_json (\<lambda>a b. li_index a \<le> li_index b) ''raft-r0'' (\<lambda>_. kv_new) empty_cache
       [OpAppend [blank_entry 1, blank_entry 2, blank_entry 3], OpVote (), OpPurge \<lparr> li_leader = (), li_index = 1 \<rparr>,
        OpTruncate \<lparr> li_leader = (), li_index = 3 \<rparr>] = Some (db', cache, Inr ())
     \<and> durable_get_log_entries mem_fjall plain_log_json ''raft-r0'' db' (Unbounded, Unbounded) = Inr [blank_entry 2]
     \<and> durable_log_open mem_fjall plain_log_json ''raft-r0'' db' = Inr cache"
proof -
  let ?ops = "[OpAppend [blank_entry 1, blank_entry 2, blank_entry 3], OpVote (), OpPurge \<lparr> li_leader = (), li_index = 1 \<rparr>,
        OpTruncate \<lparr> li_leader = (), li_index = 3 \<rparr>]" and ?le = "\<lambda>a b. li_index a \<le> li_index b"
  have ok: "mem_db_ok (\<lambda>_. kv_new)" "mem_view (\<lambda>_. kv_new) ''raft-r0'' = Map.empty"
    by (simp_all add: mem_db_ok_def kv_ok_def mem_view_def kv_get_def kv_new_def fun_eq_iff)
  note defs = log_store_new_def log_append_def blank_entry_def save_vote_def log_purge_def purge_allowed_def
    remove_keys_def bt_remove_def log_truncate_def bt_range_from_def
  have h: "history_ok ?le log_store_new ?ops" by (simp add: defs get_log_state_def Let_def)
  have m: "mem_run ?le log_store_new ?ops = Some \<lparr> ls_last_purged = Some \<lparr> li_leader = (), li_index = 1 \<rparr>,
      ls_log = [(2, blank_entry 2)], ls_committed = None, ls_vote = Some () \<rparr>" by (simp add: defs word_le_nat_alt)
  from durable_log_agrees [OF memdb.fjall_db_axioms, OF ok plain_log_json_law h]
  obtain ls db' cache where r: "mem_run ?le log_store_new ?ops = Some ls"
    "durable_run mem_fjall plain_log_json ?le ''raft-r0'' (\<lambda>_. kv_new) empty_cache ?ops = Some (db', cache, Inr ())"
    "\<forall>r. \<not> bounds_panic r \<longrightarrow> (\<exists>es. try_get_log_entries ls r = Some es \<and> durable_get_log_entries mem_fjall plain_log_json ''raft-r0'' db' r = Inr es)"
    "durable_log_open mem_fjall plain_log_json ''raft-r0'' db' = Inr cache"
    by (elim exE conjE) (rule that)
  from r(1) m have "try_get_log_entries ls (Unbounded, Unbounded) = Some [blank_entry 2]"
    by (auto simp: try_get_log_entries_def contains_def)
  moreover have "\<not> bounds_panic (Unbounded, Unbounded)" by simp
  ultimately have "durable_get_log_entries mem_fjall plain_log_json ''raft-r0'' db' (Unbounded, Unbounded) = Inr [blank_entry 2]"
    using r(3) by (metis option.inject)
  with r(1,2,4) show ?thesis by (intro exI conjI)
qed

end
