(* ===== verification/Durable.thy ===== *)
theory Durable
  imports RaftLog RangeMap
begin

text \<open>
  The durable replica: the node store and the state-machine half of \<open>cluster/src/durable.rs\<close>. One
  application of log entries collects a batch, folding counters and decisions through maps of what is
  pending, and commits it with the advanced metadata in one step. The theorems relate it to the
  in-memory state machine: they agree on every key unless a counter or a decision is deleted, a restart
  recovers the metadata, and an example shows that the exception is real.

  \<open>fjall\<close> and \<open>serde_json\<close> are parameters. The database is threaded through the operations, as it is
  shared by every store of a node; \<open>None\<close> is a panic.
\<close>

section \<open>The node store\<close>

record range_keyspaces =
  rk_data :: string
  rk_raft :: string

definition keyspace_names :: "range_id \<Rightarrow> range_keyspaces" where
  "keyspace_names r =
     \<lparr> rk_data = ''data-r'' @ dec_nat (unat r), rk_raft = ''raft-r'' @ dec_nat (unat r) \<rparr>"

type_synonym node_ranges = "range_id \<rightharpoonup> range_keyspaces"

definition open_keyspaces :: "'s fjall \<Rightarrow> 's \<Rightarrow> range_id \<Rightarrow> kv_error + ('s \<times> range_keyspaces)" where
  "open_keyspaces F db r =
     (let names = keyspace_names r
      in rbind (map_err io_err (fj_keyspace F db (rk_data names))) (\<lambda>db.
         rbind (map_err io_err (fj_keyspace F db (rk_raft names))) (\<lambda>db. Inr (db, names))))"

fun open_ranges :: "'s fjall \<Rightarrow> 's \<Rightarrow> node_ranges \<Rightarrow> range_id list \<Rightarrow> kv_error + ('s \<times> node_ranges)" where
  "open_ranges F db ranges [] = Inr (db, ranges)"
| "open_ranges F db ranges (r # rs) =
     rbind (open_keyspaces F db r) (\<lambda>(db, names). open_ranges F db (ranges(r \<mapsto> names)) rs)"

definition node_open :: "'s fjall \<Rightarrow> kv_error + 's \<Rightarrow> range_map \<Rightarrow> kv_error + ('s \<times> node_ranges)" where
  "node_open F opened rm = rbind opened (\<lambda>db. open_ranges F db Map.empty (range_ids rm))"

definition open_range :: "'s fjall \<Rightarrow> 's \<Rightarrow> node_ranges \<Rightarrow> range_id \<Rightarrow> kv_error + ('s \<times> node_ranges)" where
  "open_range F db ranges r =
     (if ranges r \<noteq> None then Inr (db, ranges)
      else rbind (open_keyspaces F db r) (\<lambda>(db, names). Inr (db, ranges(r \<mapsto> names))))"

definition keyspaces :: "node_ranges \<Rightarrow> range_id \<Rightarrow> range_keyspaces option" where
  "keyspaces ranges r = ranges r"

section \<open>The state machine\<close>

definition SM_APPLIED_KEY :: bytes where
  "SM_APPLIED_KEY = ascii ''sm/last_applied''"

definition SM_MEMBERSHIP_KEY :: bytes where
  "SM_MEMBERSHIP_KEY = ascii ''sm/last_membership''"

record ('l, 'm) sm_json =
  j_lid_to :: "'l log_id option \<Rightarrow> bytes option"
  j_lid_of :: "bytes \<Rightarrow> 'l log_id option option"
  j_mem_to :: "('l, 'm) stored_membership \<Rightarrow> bytes option"
  j_mem_of :: "bytes \<Rightarrow> ('l, 'm) stored_membership option"
  j_pay_to :: "('l, 'm) snapshot_payload \<Rightarrow> bytes option"
  j_pay_of :: "bytes \<Rightarrow> ('l, 'm) snapshot_payload option"

record ('l, 'm) durable_sm =
  dm_last_applied :: "'l log_id option"
  dm_last_membership :: "('l, 'm) stored_membership"
  dm_snapshot_idx :: u64
  dm_current_snapshot :: "(('l, 'm) snapshot_meta \<times> bytes) option"

definition durable_open ::
  "'s fjall \<Rightarrow> ('l, 'm) sm_json \<Rightarrow> ('l, 'm) stored_membership \<Rightarrow> range_keyspaces \<Rightarrow> 's \<Rightarrow> storage_error + ('l, 'm) durable_sm" where
  "durable_open F J default_membership rk db =
     rbind (read_json F db (rk_raft rk) (j_lid_of J) SM_APPLIED_KEY) (\<lambda>applied.
     rbind (read_json F db (rk_raft rk) (j_mem_of J) SM_MEMBERSHIP_KEY) (\<lambda>membership.
       Inr \<lparr> dm_last_applied = (case applied of None \<Rightarrow> None | Some a \<Rightarrow> a),
             dm_last_membership = (case membership of None \<Rightarrow> default_membership | Some m \<Rightarrow> m),
             dm_snapshot_idx = 0, dm_current_snapshot = None \<rparr>))"

definition durable_applied_state ::
  "('l, 'm) durable_sm \<Rightarrow> 'l log_id option \<times> ('l, 'm) stored_membership" where
  "durable_applied_state dm = (dm_last_applied dm, dm_last_membership dm)"

text \<open>What one call of \<open>apply\<close> has collected so far.\<close>

record pending =
  pd_counters :: "bytes \<rightharpoonup> u64"
  pd_decided :: "bytes \<rightharpoonup> bool"
  pd_batch :: "(string \<times> write_op) list"

definition durable_op ::
  "'s fjall \<Rightarrow> 's \<Rightarrow> string \<Rightarrow> pending \<Rightarrow> write_op \<Rightarrow> (storage_error + pending) option" where
  "durable_op F db data pd w =
     (case w of
        Put key val \<Rightarrow>
          if is_counter_key key then
            (case u64_be val of
               None \<Rightarrow> None
             | Some incoming \<Rightarrow>
                 (case (case pd_counters pd key of
                          Some c \<Rightarrow> Some (Inr c)
                        | None \<Rightarrow> (case fj_get F db data key of
                                    Inl _ \<Rightarrow> Some (Inl WriteStateMachine)
                                  | Inr None \<Rightarrow> Some (Inr 0)
                                  | Inr (Some b) \<Rightarrow> map_option Inr (u64_be b))) of
                    None \<Rightarrow> None
                  | Some (Inl e) \<Rightarrow> Some (Inl e)
                  | Some (Inr cur) \<Rightarrow>
                      let merged = max cur incoming
                      in Some (Inr (pd\<lparr> pd_counters := (pd_counters pd)(key \<mapsto> merged),
                                        pd_batch := pd_batch pd @ [(data, Put key (be_bytes merged))] \<rparr>))))
          else if is_clog_key key then
            (case (case pd_decided pd key of
                     Some t \<Rightarrow> Inr t
                   | None \<Rightarrow> (case fj_get F db data key of
                               Inl _ \<Rightarrow> Inl WriteStateMachine
                             | Inr None \<Rightarrow> Inr False
                             | Inr (Some b) \<Rightarrow> Inr (is_terminal b))) of
               Inl e \<Rightarrow> Some (Inl e)
             | Inr already_terminal \<Rightarrow>
                 Some (Inr (if \<not> already_terminal
                   then pd\<lparr> pd_batch := pd_batch pd @ [(data, Put key val)],
                            pd_decided := (pd_decided pd)(key \<mapsto> is_terminal val) \<rparr>
                   else pd\<lparr> pd_decided := (pd_decided pd)(key \<mapsto> True) \<rparr>)))
          else Some (Inr (pd\<lparr> pd_batch := pd_batch pd @ [(data, Put key val)] \<rparr>))
      | Delete key \<Rightarrow> Some (Inr (pd\<lparr> pd_batch := pd_batch pd @ [(data, Delete key)] \<rparr>)))"

fun durable_ops ::
  "'s fjall \<Rightarrow> 's \<Rightarrow> string \<Rightarrow> pending \<Rightarrow> write_op list \<Rightarrow> (storage_error + pending) option" where
  "durable_ops F db data pd [] = Some (Inr pd)"
| "durable_ops F db data pd (w # ws) =
     (case durable_op F db data pd w of
        None \<Rightarrow> None
      | Some (Inl e) \<Rightarrow> Some (Inl e)
      | Some (Inr pd) \<Rightarrow> durable_ops F db data pd ws)"

fun durable_entries ::
  "'s fjall \<Rightarrow> 's \<Rightarrow> string \<Rightarrow> 'l log_id option \<Rightarrow> ('l, 'm) stored_membership \<Rightarrow> pending \<Rightarrow> ('l, 'm) entry list \<Rightarrow>
   (storage_error + ('l log_id option \<times> ('l, 'm) stored_membership \<times> pending)) option" where
  "durable_entries F db data last_id membership pd [] = Some (Inr (last_id, membership, pd))"
| "durable_entries F db data last_id membership pd (e # es) =
     (let last_id = Some (en_log_id e)
      in case en_payload e of
           Blank \<Rightarrow> durable_entries F db data last_id membership pd es
         | Normal ops \<Rightarrow>
             (case durable_ops F db data pd ops of
                None \<Rightarrow> None
              | Some (Inl err) \<Rightarrow> Some (Inl err)
              | Some (Inr pd) \<Rightarrow> durable_entries F db data last_id membership pd es)
         | Membership mem \<Rightarrow> durable_entries F db data last_id (last_id, mem) pd es)"

definition pending_new :: pending where
  "pending_new = \<lparr> pd_counters = Map.empty, pd_decided = Map.empty, pd_batch = [] \<rparr>"

text \<open>The database after a call, the store's own record, and the result.\<close>

definition commit_meta ::
  "'s fjall \<Rightarrow> ('l, 'm) sm_json \<Rightarrow> range_keyspaces \<Rightarrow> 's \<Rightarrow> (string \<times> write_op) list \<Rightarrow> 'l log_id option \<Rightarrow>
   ('l, 'm) stored_membership \<Rightarrow> 's \<times> (storage_error + unit)" where
  "commit_meta F J rk db batch last_id membership =
     (case j_lid_to J last_id of
        None \<Rightarrow> (db, Inl WriteStateMachine)
      | Some lid_bytes \<Rightarrow>
          (case j_mem_to J membership of
             None \<Rightarrow> (db, Inl WriteStateMachine)
           | Some mem_bytes \<Rightarrow>
               (case fj_commit F db (batch @ [(rk_raft rk, Put SM_APPLIED_KEY lid_bytes),
                                              (rk_raft rk, Put SM_MEMBERSHIP_KEY mem_bytes)]) of
                  Inl _ \<Rightarrow> (db, Inl WriteStateMachine)
                | Inr db \<Rightarrow>
                    (case fj_persist F db of
                       Inl _ \<Rightarrow> (db, Inl WriteStateMachine)
                     | Inr db \<Rightarrow> (db, Inr ())))))"

definition durable_apply ::
  "'s fjall \<Rightarrow> ('l, 'm) sm_json \<Rightarrow> range_keyspaces \<Rightarrow> 's \<Rightarrow> ('l, 'm) durable_sm \<Rightarrow> ('l, 'm) entry list \<Rightarrow>
   ('s \<times> ('l, 'm) durable_sm \<times> (storage_error + unit)) option" where
  "durable_apply F J rk db dm es =
     (case durable_entries F db (rk_data rk) (dm_last_applied dm) (dm_last_membership dm) pending_new es of
        None \<Rightarrow> None
      | Some (Inl e) \<Rightarrow> Some (db, dm, Inl e)
      | Some (Inr (last_id, membership, pd)) \<Rightarrow>
          Some (case commit_meta F J rk db (pd_batch pd) last_id membership of
                  (db, Inl e) \<Rightarrow> (db, dm, Inl e)
                | (db, Inr _) \<Rightarrow> (db, dm\<lparr> dm_last_applied := last_id, dm_last_membership := membership \<rparr>, Inr ())))"

definition durable_build_snapshot ::
  "'s fjall \<Rightarrow> ('l \<Rightarrow> string) \<Rightarrow> ('l, 'm) sm_json \<Rightarrow> range_keyspaces \<Rightarrow> 's \<Rightarrow> ('l, 'm) durable_sm \<Rightarrow>
   storage_error + (('l, 'm) durable_sm \<times> ('l, 'm) snapshot_meta \<times> bytes)" where
  "durable_build_snapshot F show_leader J rk db dm =
     rbind (map_err (\<lambda>_. ReadStateMachine) (ks_scan_prefix F (rk_data rk) db [])) (\<lambda>kv.
       let payload = \<lparr> sp_last_applied = dm_last_applied dm, sp_last_membership = dm_last_membership dm, sp_kv = kv \<rparr>
       in rbind (ok_or ReadStateMachine (j_pay_to J payload)) (\<lambda>data.
            let idx = dm_snapshot_idx dm + 1;
                snapshot_id = (case dm_last_applied dm of
                    Some lid \<Rightarrow> show_leader (li_leader lid) @ ''-'' @ dec_nat (unat (li_index lid)) @ ''-'' @ dec_nat (unat idx)
                  | None \<Rightarrow> ''--'' @ dec_nat (unat idx));
                meta = \<lparr> sn_last_log_id = dm_last_applied dm, sn_last_membership = dm_last_membership dm,
                         sn_snapshot_id = snapshot_id \<rparr>
            in Inr (dm\<lparr> dm_snapshot_idx := idx, dm_current_snapshot := Some (meta, data) \<rparr>, meta, data)))"

definition durable_install_snapshot ::
  "'s fjall \<Rightarrow> ('l, 'm) sm_json \<Rightarrow> range_keyspaces \<Rightarrow> 's \<Rightarrow> ('l, 'm) durable_sm \<Rightarrow> ('l, 'm) snapshot_meta \<Rightarrow> bytes \<Rightarrow>
   's \<times> ('l, 'm) durable_sm \<times> (storage_error + unit)" where
  "durable_install_snapshot F J rk db dm meta data =
     (case j_pay_of J data of
        None \<Rightarrow> (db, dm, Inl ReadSnapshot)
      | Some payload \<Rightarrow>
          (case ks_scan_prefix F (rk_data rk) db [] of
             Inl _ \<Rightarrow> (db, dm, Inl ReadStateMachine)
           | Inr existing \<Rightarrow>
               (let batch = map (\<lambda>(k, _). (rk_data rk, Delete k)) existing
                          @ map (\<lambda>(k, v). (rk_data rk, Put k v)) (sp_kv payload)
                in case commit_meta F J rk db batch (sn_last_log_id meta) (sn_last_membership meta) of
                     (db, Inl e) \<Rightarrow> (db, dm, Inl e)
                   | (db, Inr _) \<Rightarrow>
                       (db, dm\<lparr> dm_last_applied := sn_last_log_id meta, dm_last_membership := sn_last_membership meta,
                                dm_current_snapshot := Some (meta, data) \<rparr>, Inr ()))))"

definition durable_get_current_snapshot ::
  "('l, 'm) durable_sm \<Rightarrow> (('l, 'm) snapshot_meta \<times> bytes) option" where
  "durable_get_current_snapshot dm = dm_current_snapshot dm"

section \<open>Agreement with the in-memory state machine\<close>

text \<open>What \<open>serde_json\<close> promises: every value can be written and reads back.\<close>

definition json_law :: "('l, 'm) sm_json \<Rightarrow> bool" where
  "json_law J \<longleftrightarrow>
     (\<forall>x. \<exists>d. j_lid_to J x = Some d \<and> j_lid_of J d = Some x) \<and>
     (\<forall>x. \<exists>d. j_mem_to J x = Some d \<and> j_mem_of J d = Some x) \<and>
     (\<forall>x. \<exists>d. j_pay_to J x = Some d \<and> j_pay_of J d = Some x)"

text \<open>Deleting a counter or a decision is what the pending maps do not see.\<close>

fun merge_safe :: "write_op \<Rightarrow> bool" where
  "merge_safe (Put _ _) = True"
| "merge_safe (Delete k) = (\<not> is_counter_key k \<and> \<not> is_clog_key k)"

definition entry_ops :: "('l, 'm) entry \<Rightarrow> write_op list" where
  "entry_ops e = (case en_payload e of Normal ops \<Rightarrow> ops | _ \<Rightarrow> [])"

definition membership_step :: "('l, 'm) stored_membership \<Rightarrow> ('l, 'm) entry \<Rightarrow> ('l, 'm) stored_membership" where
  "membership_step mem e = (case en_payload e of Membership m \<Rightarrow> (Some (en_log_id e), m) | _ \<Rightarrow> mem)"

text \<open>
  The pending state after the operations \<open>ws\<close>, over a stored map \<open>f\<close>: the batch has the effect of the
  operations, and the maps hold what the batch has made of each counter and decision it touched.
\<close>

definition pending_inv :: "string \<Rightarrow> (bytes \<rightharpoonup> bytes) \<Rightarrow> write_op list \<Rightarrow> pending \<Rightarrow> bool" where
  "pending_inv data f ws pd \<longleftrightarrow>
     (\<forall>k. foldl op_effect f (ops_for data (pd_batch pd)) k = fold_key k (f k) ws) \<and>
     (\<forall>x \<in> set (pd_batch pd). fst x = data) \<and>
     (\<forall>k. is_counter_key k \<longrightarrow>
        counter_val (fold_key k (f k) ws) = (case pd_counters pd k of None \<Rightarrow> counter_val (f k) | Some c \<Rightarrow> c)) \<and>
     (\<forall>k. is_clog_key k \<longrightarrow>
        stuck k (fold_key k (f k) ws) = (case pd_decided pd k of None \<Rightarrow> stuck k (f k) | Some t \<Rightarrow> t))"

lemma pending_inv_new: "pending_inv data f [] pending_new"
  by (simp add: pending_inv_def pending_new_def)

lemma key_step_other: "op_key w \<noteq> k \<Longrightarrow> key_step k v w = v"
  by (cases w) auto

lemma op_effect_apply: "op_effect f w k = (if op_key w = k then (case w of Put _ v \<Rightarrow> Some v | Delete _ \<Rightarrow> None) else f k)"
  by (cases w) auto

text \<open>One step: it suffices to look at the key of the operation.\<close>

lemma pending_inv_step:
  assumes "pending_inv data f ws pd" and "op_key w = k"
    and "pd_batch pd' = pd_batch pd @ map (Pair data) out" and "\<forall>o' \<in> set out. op_key o' = k"
    and "foldl op_effect f (ops_for data (pd_batch pd')) k = key_step k (fold_key k (f k) ws) w"
    and "\<And>l. l \<noteq> k \<Longrightarrow> pd_counters pd' l = pd_counters pd l" and "\<And>l. l \<noteq> k \<Longrightarrow> pd_decided pd' l = pd_decided pd l"
    and "is_counter_key k \<Longrightarrow>
      counter_val (key_step k (fold_key k (f k) ws) w) = (case pd_counters pd' k of None \<Rightarrow> counter_val (f k) | Some c \<Rightarrow> c)"
    and "is_clog_key k \<Longrightarrow>
      stuck k (key_step k (fold_key k (f k) ws) w) = (case pd_decided pd' k of None \<Rightarrow> stuck k (f k) | Some t \<Rightarrow> t)"
  shows "pending_inv data f (ws @ [w]) pd'"
proof -
  have other: "key_step l v w = v" if "l \<noteq> k" for l v using key_step_other assms(2) that by auto
  have out: "foldl op_effect g out l = g l" if "l \<noteq> k" for g l
    using assms(4) that by (intro op_effect_frame) auto
  have eff: "foldl op_effect f (ops_for data (pd_batch pd')) l = fold_key l (f l) (ws @ [w])" for l
  proof (cases "l = k")
    case False
    then show ?thesis
      using assms(1,3) by (simp add: pending_inv_def ops_for_map [of _ _ "\<lambda>w. w", simplified] out other)
  qed (use assms(5) in simp)
  have cnt: "counter_val (fold_key l (f l) (ws @ [w])) = (case pd_counters pd' l of None \<Rightarrow> counter_val (f l) | Some c \<Rightarrow> c)"
    if "is_counter_key l" for l
  proof (cases "l = k")
    case True
    with assms(8) that show ?thesis by auto
  qed (use assms(1,6) that in \<open>simp add: pending_inv_def other\<close>)
  have dec: "stuck l (fold_key l (f l) (ws @ [w])) = (case pd_decided pd' l of None \<Rightarrow> stuck l (f l) | Some t \<Rightarrow> t)"
    if "is_clog_key l" for l
  proof (cases "l = k")
    case True
    with assms(9) that show ?thesis by auto
  qed (use assms(1,7) that in \<open>simp add: pending_inv_def other\<close>)
  from eff cnt dec show ?thesis
    using assms(1,3) unfolding pending_inv_def by auto
qed

lemma pending_effect:
  "pending_inv data f ws pd \<Longrightarrow> foldl op_effect f (ops_for data (pd_batch pd)) = (\<lambda>k. fold_key k (f k) ws)"
  by (simp add: pending_inv_def fun_eq_iff)

lemma put_value_stuck: "\<not> is_counter_key k \<Longrightarrow> put_value k v val = (if stuck k v then the v else val)"
  by (simp add: put_value_def stuck_def)

lemma stuck_Some [simp]: "is_clog_key k \<Longrightarrow> stuck k (Some b) = is_terminal b"
  by (simp add: stuck_def)

lemma stuck_SomeE: "stuck k v \<Longrightarrow> Some (the v) = v"
  by (auto simp: stuck_def split: option.splits)

context fjall_db
begin

lemma durable_counter:
  assumes "db_ok db" and "view db data = f" and "\<forall>k. counter_ok k (f k)" and "is_counter_key key"
    and "8 \<le> length val" and inv: "pending_inv data f ws pd"
  shows "\<exists>pd'. durable_op F db data pd (Put key val) = Some (Inr pd') \<and> pending_inv data f (ws @ [Put key val]) pd'"
proof -
  let ?v = "fold_key key (f key) ws"
  let ?m = "max (counter_val ?v) (counter_val (Some val))"
  let ?pd = "pd\<lparr> pd_counters := (pd_counters pd)(key \<mapsto> ?m), pd_batch := pd_batch pd @ [(data, Put key (be_bytes ?m))] \<rparr>"
  have cur: "counter_val ?v = (case pd_counters pd key of None \<Rightarrow> counter_val (f key) | Some c \<Rightarrow> c)"
    using inv assms(4) by (simp add: pending_inv_def)
  have "(case pd_counters pd key of Some c \<Rightarrow> Some (Inr c)
      | None \<Rightarrow> (case fj_get F db data key of Inl _ \<Rightarrow> Some (Inl WriteStateMachine) | Inr None \<Rightarrow> Some (Inr 0)
               | Inr (Some b) \<Rightarrow> map_option Inr (u64_be b))) = Some (Inr (counter_val ?v))"
    unfolding cur using assms(3,4)
    by (auto simp: fj_get [OF assms(1)] assms(2) counter_ok_def counter_val_def u64_be_ok split: option.splits)
  moreover have "u64_be val = Some (counter_val (Some val))"
    using assms(5) by (simp add: u64_be_ok counter_val_def)
  ultimately have "durable_op F db data pd (Put key val) = Some (Inr ?pd)"
    using assms(4) by (simp add: durable_op_def Let_def)
  moreover have "pending_inv data f (ws @ [Put key val]) ?pd"
    using assms(4) counter_not_clog [OF assms(4)]
    by (intro pending_inv_step [OF inv, of _ key _ "[Put key (be_bytes ?m)]"])
      (simp_all add: pending_effect [OF inv] put_value_def)
  ultimately show ?thesis by blast
qed

lemma durable_clog:
  assumes "db_ok db" and "view db data = f" and "is_clog_key key" and inv: "pending_inv data f ws pd"
  shows "\<exists>pd'. durable_op F db data pd (Put key val) = Some (Inr pd') \<and> pending_inv data f (ws @ [Put key val]) pd'"
proof -
  let ?v = "fold_key key (f key) ws"
  have nc: "\<not> is_counter_key key" using assms(3) counter_not_clog by blast
  have cur: "stuck key ?v = (case pd_decided pd key of None \<Rightarrow> stuck key (f key) | Some t \<Rightarrow> t)"
    using inv assms(3) by (simp add: pending_inv_def)
  have t: "(case pd_decided pd key of Some t \<Rightarrow> Inr t
      | None \<Rightarrow> (case fj_get F db data key of Inl _ \<Rightarrow> Inl WriteStateMachine | Inr None \<Rightarrow> Inr False
               | Inr (Some b) \<Rightarrow> Inr (is_terminal b))) = Inr (stuck key ?v)"
    unfolding cur using assms(3) by (auto simp: fj_get [OF assms(1)] assms(2) stuck_def split: option.splits)
  show ?thesis
  proof (cases "stuck key ?v")
    case True
    let ?pd = "pd\<lparr> pd_decided := (pd_decided pd)(key \<mapsto> True) \<rparr>"
    have "durable_op F db data pd (Put key val) = Some (Inr ?pd)"
      using t True nc assms(3) by (simp add: durable_op_def)
    moreover have "pending_inv data f (ws @ [Put key val]) ?pd"
      using nc assms(3) True
      by (intro pending_inv_step [OF inv, of _ key _ "[]"])
        (simp_all add: pending_effect [OF inv] put_value_stuck stuck_SomeE del: stuck_Some)
    ultimately show ?thesis by blast
  next
    case False
    let ?pd = "pd\<lparr> pd_batch := pd_batch pd @ [(data, Put key val)], pd_decided := (pd_decided pd)(key \<mapsto> is_terminal val) \<rparr>"
    have "durable_op F db data pd (Put key val) = Some (Inr ?pd)"
      using t False nc assms(3) by (simp add: durable_op_def)
    moreover have "pending_inv data f (ws @ [Put key val]) ?pd"
      using nc assms(3) False
      by (intro pending_inv_step [OF inv, of _ key _ "[Put key val]"])
        (simp_all add: pending_effect [OF inv] put_value_stuck)
    ultimately show ?thesis by blast
  qed
qed

lemma durable_plain:
  assumes "\<not> is_counter_key (op_key w)" and "\<not> is_clog_key (op_key w)" and inv: "pending_inv data f ws pd"
  shows "\<exists>pd'. durable_op F db data pd w = Some (Inr pd') \<and> pending_inv data f (ws @ [w]) pd'"
proof -
  let ?pd = "pd\<lparr> pd_batch := pd_batch pd @ [(data, w)] \<rparr>"
  have "durable_op F db data pd w = Some (Inr ?pd)"
    using assms(1,2) by (cases w) (simp_all add: durable_op_def)
  moreover have "\<not> stuck (op_key w) v" for v using assms(2) by (simp add: stuck_def)
  then have "pending_inv data f (ws @ [w]) ?pd"
    using assms(1,2)
    by (intro pending_inv_step [OF inv, of _ "op_key w" _ "[w]"])
      (cases w; simp add: pending_effect [OF inv] put_value_stuck)+
  ultimately show ?thesis by blast
qed

lemma durable_op_inv:
  assumes "db_ok db" and "view db data = f" and "\<forall>k. counter_ok k (f k)" and "op_ok w" and "merge_safe w"
    and inv: "pending_inv data f ws pd"
  shows "\<exists>pd'. durable_op F db data pd w = Some (Inr pd') \<and> pending_inv data f (ws @ [w]) pd'"
proof (cases "is_counter_key (op_key w) \<or> is_clog_key (op_key w)")
  case True
  with assms(5) obtain key val where w: "w = Put key val" by (cases w) auto
  with True assms durable_counter [OF assms(1-3)] durable_clog [OF assms(1,2)] show ?thesis
    by (auto simp: counter_ok_def)
qed (use durable_plain [OF _ _ inv] in blast)

lemma durable_ops_inv:
  assumes "db_ok db" and "view db data = f" and "\<forall>k. counter_ok k (f k)"
    and "list_all op_ok ops" and "list_all merge_safe ops" and "pending_inv data f ws pd"
  shows "\<exists>pd'. durable_ops F db data pd ops = Some (Inr pd') \<and> pending_inv data f (ws @ ops) pd'"
  using assms(4-)
proof (induction ops arbitrary: ws pd)
  case (Cons w ops)
  then obtain pd1 where 1: "durable_op F db data pd w = Some (Inr pd1)" "pending_inv data f (ws @ [w]) pd1"
    using durable_op_inv [OF assms(1-3), of w ws pd] by auto
  with Cons.IH [of "ws @ [w]" pd1] Cons.prems show ?case by simp
qed simp

lemma durable_entries_inv:
  assumes "db_ok db" and "view db data = f" and "\<forall>k. counter_ok k (f k)"
    and "\<forall>e \<in> set es. list_all op_ok (entry_ops e) \<and> list_all merge_safe (entry_ops e)" and "pending_inv data f ws pd"
  shows "\<exists>pd'. durable_entries F db data lid mem pd es
      = Some (Inr (if es = [] then lid else Some (en_log_id (last es)), foldl membership_step mem es, pd'))
    \<and> pending_inv data f (ws @ concat (map entry_ops es)) pd'"
  using assms(4-)
proof (induction es arbitrary: lid mem ws pd)
  case (Cons e es)
  have rest: "\<forall>e \<in> set es. list_all op_ok (entry_ops e) \<and> list_all merge_safe (entry_ops e)" using Cons.prems by simp
  obtain pd1 where 1: "durable_ops F db data pd (entry_ops e) = Some (Inr pd1)" "pending_inv data f (ws @ entry_ops e) pd1"
    using durable_ops_inv [OF assms(1-3), of "entry_ops e" ws pd] Cons.prems by auto
  have step: "durable_entries F db data lid mem pd (e # es)
      = durable_entries F db data (Some (en_log_id e)) (membership_step mem e) pd1 es"
    using 1(1) by (cases "en_payload e") (simp_all add: entry_ops_def membership_step_def Let_def)
  from Cons.IH [OF rest 1(2), where lid = "Some (en_log_id e)" and mem = "membership_step mem e"]
  show ?case unfolding step by (simp split: if_splits)
qed simp

lemma commit_meta_view:
  assumes "db_ok db" and "json_law J" and "rk_data rk \<noteq> rk_raft rk" and "\<forall>x \<in> set b. fst x = rk_data rk"
  shows "\<exists>db'. commit_meta F J rk db b lid mem = (db', Inr ()) \<and> db_ok db'
    \<and> view db' (rk_data rk) = foldl op_effect (view db (rk_data rk)) (ops_for (rk_data rk) b)
    \<and> (\<exists>d. view db' (rk_raft rk) SM_APPLIED_KEY = Some d \<and> j_lid_of J d = Some lid)
    \<and> (\<exists>d. view db' (rk_raft rk) SM_MEMBERSHIP_KEY = Some d \<and> j_mem_of J d = Some mem)
    \<and> (\<forall>n. n \<noteq> rk_data rk \<and> n \<noteq> rk_raft rk \<longrightarrow> view db' n = view db n)"
proof -
  obtain ld md where l: "j_lid_to J lid = Some ld" "j_lid_of J ld = Some lid"
    and m: "j_mem_to J mem = Some md" "j_mem_of J md = Some mem"
    using assms(2) unfolding json_law_def by metis
  let ?b = "b @ [(rk_raft rk, Put SM_APPLIED_KEY ld), (rk_raft rk, Put SM_MEMBERSHIP_KEY md)]"
  obtain db1 where 1: "fj_commit F db ?b = Inr db1" "db_ok db1" "\<And>ks. view db1 ks = foldl op_effect (view db ks) (ops_for ks ?b)"
    using fj_commit [OF assms(1), of ?b] by blast
  obtain db2 where 2: "fj_persist F db1 = Inr db2" "db_ok db2" "view db2 = view db1"
    using fj_persist [OF 1(2)] by blast
  have none: "ops_for n b = []" if "n \<noteq> rk_data rk" for n
    using assms(4) that by (auto simp: ops_for_def filter_empty_conv)
  have ne: "SM_APPLIED_KEY \<noteq> SM_MEMBERSHIP_KEY" by (simp add: SM_APPLIED_KEY_def SM_MEMBERSHIP_KEY_def ascii_def)
  have "commit_meta F J rk db b lid mem = (db2, Inr ())"
    using l(1) m(1) 1(1) 2(1) by (simp add: commit_meta_def)
  then show ?thesis
    using 2 1(3) l(2) m(2) none assms(3) ne by auto
qed

end

lemma sm_apply_ops:
  assumes "store_ok (sm_kv sm)" and "\<forall>e \<in> set es. list_all op_ok (entry_ops e)"
  shows "\<exists>kv'. sm_apply sm es = Some (sm\<lparr> sm_kv := kv',
        sm_last_applied := (if es = [] then sm_last_applied sm else Some (en_log_id (last es))),
        sm_last_membership := foldl membership_step (sm_last_membership sm) es \<rparr>)
    \<and> (\<forall>k. kv_get kv' k = fold_key k (kv_get (sm_kv sm) k) (concat (map entry_ops es)))"
  using assms
proof (induction es arbitrary: sm)
  case (Cons e es)
  obtain kv1 where 1: "apply_ops (sm_kv sm) (entry_ops e) = Some kv1"
    "\<And>k. kv_get kv1 k = fold_key k (kv_get (sm_kv sm) k) (entry_ops e)" "store_ok kv1"
    using apply_ops_get [OF Cons.prems(1), of "entry_ops e"] Cons.prems(2) by auto
  let ?sm = "sm\<lparr> sm_kv := kv1, sm_last_applied := Some (en_log_id e),
    sm_last_membership := membership_step (sm_last_membership sm) e \<rparr>"
  have step: "sm_apply sm (e # es) = sm_apply ?sm es"
    using 1(1) by (cases sm; cases "en_payload e") (auto simp: apply_entry_def entry_ops_def membership_step_def Let_def)
  from Cons.IH [of ?sm] Cons.prems(2) 1(2,3) show ?case unfolding step by (simp split: if_splits)
next
  case Nil
  then show ?case by (intro exI [of _ "sm_kv sm"]) simp
qed


definition plain_json :: "(unit, unit) sm_json" where
  "plain_json =
     \<lparr> j_lid_to = \<lambda>l. Some (pj_lid l), j_lid_of = \<lambda>d. map_option fst (pj_take_lid d),
       j_mem_to = \<lambda>m. Some (pj_mem m), j_mem_of = \<lambda>d. map_option fst (pj_take_mem d),
       j_pay_to = \<lambda>p. Some (pj_payload p), j_pay_of = pj_of_payload \<rparr>"

lemma plain_json_law: "json_law plain_json"
  using pj_take_lid [of _ "[]"] pj_take_mem [of _ "[]"] by (simp add: json_law_def plain_json_def)

definition fresh_sm :: "mem_kv \<Rightarrow> (unit, unit) state_machine" where
  "fresh_sm kv = \<lparr> sm_kv = kv, sm_last_applied = None, sm_last_membership = (None, ()), sm_snapshot_idx = 0,
     sm_current_snapshot = None \<rparr>"

definition fresh_dm :: "(unit, unit) durable_sm" where
  "fresh_dm = \<lparr> dm_last_applied = None, dm_last_membership = (None, ()), dm_snapshot_idx = 0, dm_current_snapshot = None \<rparr>"

definition normal_entry :: "u64 \<Rightarrow> write_op list \<Rightarrow> (unit, unit) entry" where
  "normal_entry i ops = \<lparr> en_log_id = \<lparr> li_leader = (), li_index = i \<rparr>, en_payload = Normal ops \<rparr>"

lemma entry_ops_normal [simp]: "entry_ops (normal_entry i ops) = ops"
  by (simp add: entry_ops_def normal_entry_def)

lemma keyspace_names_ne [simp]: "rk_data (keyspace_names r) \<noteq> rk_raft (keyspace_names r')"
  by (simp add: keyspace_names_def)


section \<open>Where they disagree\<close>

text \<open>One call of \<open>apply\<close> in which a counter is deleted and then written: the pending map has not seen
  the delete, so the durable replica merges with the value the batch removes.\<close>

lemma durable_delete_put:
  assumes "fjall_db F view db_ok" and "db_ok db" and "is_counter_key k" and "view db data k = Some (be_bytes (a :: u64))"
  shows "durable_ops F db data pending_new [Delete k, Put k (be_bytes (b :: u64))]
    = Some (Inr \<lparr> pd_counters = [k \<mapsto> max a b], pd_decided = Map.empty,
                   pd_batch = [(data, Delete k), (data, Put k (be_bytes (max a b)))] \<rparr>)"
  using assms(3,4)
  by (simp add: durable_op_def pending_new_def fjall_db.fj_get [OF assms(1,2)] u64_be_ok Let_def)

text \<open>Batching shows: when a counter is deleted and written again, the durable replica's result
  depends on whether both happen in one call of \<open>apply\<close>. In one call it keeps the larger old value; in
  two calls, and in the in-memory replica, the counter has the new value.\<close>

theorem durable_apply_depends_on_batching:
  assumes "fjall_db F view db_ok" and "db_ok db" and "json_law J" and "rk_data rk \<noteq> rk_raft rk"
    and "is_counter_key k" and "view db (rk_data rk) k = Some (be_bytes (a :: u64))" and "(b :: u64) < a"
  shows "\<exists>db1 dm1 db2 dm2 db3 dm3.
      durable_apply F J rk db dm [\<lparr> en_log_id = l, en_payload = Normal [Delete k, Put k (be_bytes b)] \<rparr>] = Some (db1, dm1, Inr ())
    \<and> view db1 (rk_data rk) k = Some (be_bytes a)
    \<and> durable_apply F J rk db dm [\<lparr> en_log_id = l, en_payload = Normal [Delete k] \<rparr>] = Some (db2, dm2, Inr ())
    \<and> durable_apply F J rk db2 dm2 [\<lparr> en_log_id = l', en_payload = Normal [Put k (be_bytes b)] \<rparr>] = Some (db3, dm3, Inr ())
    \<and> view db3 (rk_data rk) k = Some (be_bytes b)
    \<and> map_option (\<lambda>kv. kv_get kv k) (apply_ops kv [Delete k, Put k (be_bytes b)]) = Some (Some (be_bytes b))"
proof -
  let ?data = "rk_data rk"
  note commit = fjall_db.commit_meta_view [OF assms(1), OF _ assms(3,4)]
  have m: "max a b = a" using assms(7) by simp
  obtain db1 where 1: "commit_meta F J rk db [(?data, Delete k), (?data, Put k (be_bytes a))] (Some l) (dm_last_membership dm) = (db1, Inr ())"
    "view db1 ?data k = Some (be_bytes a)"
    using commit [OF assms(2), of "[(?data, Delete k), (?data, Put k (be_bytes a))]" "Some l" "dm_last_membership dm"] by auto
  obtain db2 where 2: "commit_meta F J rk db [(?data, Delete k)] (Some l) (dm_last_membership dm) = (db2, Inr ())"
    "db_ok db2" "view db2 ?data k = None"
    using commit [OF assms(2), of "[(?data, Delete k)]" "Some l" "dm_last_membership dm"] by auto
  let ?dm2 = "dm\<lparr> dm_last_applied := Some l, dm_last_membership := dm_last_membership dm \<rparr>"
  obtain db3 where 3: "commit_meta F J rk db2 [(?data, Put k (be_bytes b))] (Some l') (dm_last_membership dm) = (db3, Inr ())"
    "view db3 ?data k = Some (be_bytes b)"
    using commit [OF 2(2), of "[(?data, Put k (be_bytes b))]" "Some l'" "dm_last_membership dm"] by auto
  have "durable_apply F J rk db dm [\<lparr> en_log_id = l, en_payload = Normal [Delete k, Put k (be_bytes b)] \<rparr>]
      = Some (db1, ?dm2, Inr ())"
    using 1(1) durable_delete_put [OF assms(1), OF assms(2,5,6), of b] by (simp add: durable_apply_def m del: durable_ops.simps)
  moreover have "durable_apply F J rk db dm [\<lparr> en_log_id = l, en_payload = Normal [Delete k] \<rparr>] = Some (db2, ?dm2, Inr ())"
    using 2(1) by (simp add: durable_apply_def durable_op_def pending_new_def)
  moreover have "durable_ops F db2 ?data pending_new [Put k (be_bytes b)]
      = Some (Inr \<lparr> pd_counters = [k \<mapsto> b], pd_decided = Map.empty, pd_batch = [(?data, Put k (be_bytes b))] \<rparr>)"
    using assms(5) 2(3) by (simp add: durable_op_def pending_new_def fjall_db.fj_get [OF assms(1) 2(2)] u64_be_ok Let_def)
  then have "durable_apply F J rk db2 ?dm2 [\<lparr> en_log_id = l', en_payload = Normal [Put k (be_bytes b)] \<rparr>]
      = Some (db3, ?dm2\<lparr> dm_last_applied := Some l', dm_last_membership := dm_last_membership dm \<rparr>, Inr ())"
    using 3(1) by (simp add: durable_apply_def del: durable_ops.simps)
  moreover have "map_option (\<lambda>kv. kv_get kv k) (apply_ops kv [Delete k, Put k (be_bytes b)]) = Some (Some (be_bytes b))"
    using assms(5) by (simp add: apply_op_def kv_get_delete kv_get_put u64_be_ok)
  ultimately show ?thesis using 1(2) 3(2) by blast
qed

theorem durable_apply_depends_on_batching_witness:
  "\<exists>db db1 dm1. mem_view db (rk_data (keyspace_names 0)) (seq_key 7) = Some (be_bytes (5 :: u64))
     \<and> durable_apply mem_fjall plain_json (keyspace_names 0) db fresh_dm
         [normal_entry 1 [Delete (seq_key 7), Put (seq_key 7) (be_bytes (1 :: u64))]] = Some (db1, dm1, Inr ())
     \<and> mem_view db1 (rk_data (keyspace_names 0)) (seq_key 7) = Some (be_bytes (5 :: u64))"
proof -
  let ?db = "(\<lambda>_. kv_put kv_new (seq_key 7) (be_bytes (5 :: u64)))"
  have ok: "mem_db_ok ?db" by (simp add: mem_db_ok_def inv_intros)
  have c: "is_counter_key (seq_key 7)" by (simp add: is_counter_key_def is_seq_key_def system_key_bytes Let_def)
  have v: "mem_view ?db (rk_data (keyspace_names 0)) (seq_key 7) = Some (be_bytes (5 :: u64))"
    by (simp add: mem_view_def kv_get_put)
  have lt: "(1 :: u64) < 5" by simp
  from durable_apply_depends_on_batching [OF memdb.fjall_db_axioms, OF ok plain_json_law keyspace_names_ne c v lt,
      of fresh_dm "\<lparr> li_leader = (), li_index = 1 \<rparr>" "\<lparr> li_leader = (), li_index = 2 \<rparr>" kv_new]
  obtain db1 dm1 where "durable_apply mem_fjall plain_json (keyspace_names 0) ?db fresh_dm
         [normal_entry 1 [Delete (seq_key 7), Put (seq_key 7) (be_bytes (1 :: u64))]] = Some (db1, dm1, Inr ())"
    "mem_view db1 (rk_data (keyspace_names 0)) (seq_key 7) = Some (be_bytes (5 :: u64))"
    by (elim exE conjE) (rule that, unfold normal_entry_def, assumption+)
  with v show ?thesis by blast
qed

section \<open>Snapshots\<close>

context fjall_db
begin

lemma ks_scan_all: "db_ok db \<Longrightarrow> \<exists>kv. ks_scan_prefix F ks db [] = Inr kv \<and> map_of kv = view db ks \<and> distinct (map fst kv)"
proof -
  assume "db_ok db"
  from fj_prefix [OF this, of ks "[]"] obtain kv where kv: "fj_prefix F db ks [] = map Inr kv"
    "sorted_wrt (<) (map fst kv)" "set kv = {(k, v). view db ks k = Some v}" by auto
  have d: "distinct (map fst kv)" using kv(2) by (simp add: strict_sorted_iff)
  have "map_of kv k = view db ks k" for k
  proof (cases "view db ks k")
    case None
    then have "k \<notin> fst ` set kv" by (auto simp: kv(3))
    with None show ?thesis by (simp add: map_of_eq_None_iff)
  next
    case (Some v)
    then have "(k, v) \<in> set kv" by (simp add: kv(3))
    with Some d show ?thesis by simp
  qed
  with kv(1) d show ?thesis by (auto simp: ks_scan_prefix_def)
qed

end

lemma effect_deletes: "foldl op_effect f (map (\<lambda>p. Delete (fst p)) xs) k = (if k \<in> fst ` set xs then None else f k)"
  by (induction xs arbitrary: f) auto

lemma effect_puts: "distinct (map fst xs) \<Longrightarrow> foldl op_effect f (map (\<lambda>p. Put (fst p) (snd p)) xs) = f ++ map_of xs"
proof (induction xs arbitrary: f)
  case (Cons x xs)
  then have "fst x \<notin> dom (map_of xs)" by (simp add: dom_map_of_conv_image_fst)
  with Cons show ?case by (auto simp: fun_eq_iff map_add_def split: option.splits)
qed simp

text \<open>A snapshot moves a replica's state exactly: what one durable replica builds, another
  installs, whatever it held before; afterwards it has the builder's contents, last applied log id and
  membership, in memory and on disk.\<close>

theorem durable_snapshot_exact:
  assumes "fjall_db F view db_ok" and "db_ok db" and "db_ok db2" and "json_law J" and "rk_data rk2 \<noteq> rk_raft rk2"
  shows "\<exists>dm1 meta data db3 dm3.
      durable_build_snapshot F show_leader J rk db dm = Inr (dm1, meta, data)
    \<and> durable_install_snapshot F J rk2 db2 dm2 meta data = (db3, dm3, Inr ())
    \<and> view db3 (rk_data rk2) = view db (rk_data rk) \<and> durable_applied_state dm3 = durable_applied_state dm
    \<and> map_sum id durable_applied_state (durable_open F J default_membership rk2 db3) = Inr (durable_applied_state dm)
    \<and> durable_get_current_snapshot dm3 = Some (meta, data)"
proof -
  obtain kv where kv: "ks_scan_prefix F (rk_data rk) db [] = Inr kv" "map_of kv = view db (rk_data rk)" "distinct (map fst kv)"
    using fjall_db.ks_scan_all [OF assms(1,2)] by blast
  obtain old where old: "ks_scan_prefix F (rk_data rk2) db2 [] = Inr old" "map_of old = view db2 (rk_data rk2)"
    using fjall_db.ks_scan_all [OF assms(1,3)] by blast
  let ?p = "\<lparr> sp_last_applied = dm_last_applied dm, sp_last_membership = dm_last_membership dm, sp_kv = kv \<rparr>"
  obtain data where data: "j_pay_to J ?p = Some data" "j_pay_of J data = Some ?p"
    using assms(4) unfolding json_law_def by blast
  from kv(1) data(1) obtain dm1 meta where b: "durable_build_snapshot F show_leader J rk db dm = Inr (dm1, meta, data)"
    and meta: "sn_last_log_id meta = dm_last_applied dm" "sn_last_membership meta = dm_last_membership dm"
    by (simp add: durable_build_snapshot_def Let_def)
  let ?b = "map (\<lambda>p. (rk_data rk2, Delete (fst p))) old @ map (\<lambda>p. (rk_data rk2, Put (fst p) (snd p))) kv"
  have "\<forall>x \<in> set ?b. fst x = rk_data rk2" by auto
  from fjall_db.commit_meta_view [OF assms(1), OF assms(3,4,5) this, of "dm_last_applied dm" "dm_last_membership dm"]
  obtain db3 ld md where db3: "commit_meta F J rk2 db2 ?b (dm_last_applied dm) (dm_last_membership dm) = (db3, Inr ())" "db_ok db3"
    "view db3 (rk_data rk2) = foldl op_effect (view db2 (rk_data rk2)) (ops_for (rk_data rk2) ?b)"
    "view db3 (rk_raft rk2) SM_APPLIED_KEY = Some ld" "j_lid_of J ld = Some (dm_last_applied dm)"
    "view db3 (rk_raft rk2) SM_MEMBERSHIP_KEY = Some md" "j_mem_of J md = Some (dm_last_membership dm)" by blast
  have "foldl op_effect (view db2 (rk_data rk2)) (map (\<lambda>p. Delete (fst p)) old) = Map.empty"
    by (rule ext) (auto simp: effect_deletes map_of_eq_None_iff simp flip: old(2))
  then have "view db3 (rk_data rk2) = view db (rk_data rk)"
    unfolding db3(3) by (simp add: ops_for_map effect_puts [OF kv(3)] kv(2))
  moreover have eq: "map (\<lambda>(k, _). (rk_data rk2, Delete k)) old @ map (\<lambda>(k, v). (rk_data rk2, Put k v)) kv = ?b"
    by (simp add: case_prod_beta)
  have "durable_install_snapshot F J rk2 db2 dm2 meta data = (db3, dm2\<lparr> dm_last_applied := dm_last_applied dm,
      dm_last_membership := dm_last_membership dm, dm_current_snapshot := Some (meta, data) \<rparr>, Inr ())"
    using data(2) old(1) db3(1) by (simp add: durable_install_snapshot_def Let_def meta eq)
  moreover have "map_sum id durable_applied_state (durable_open F J default_membership rk2 db3) = Inr (durable_applied_state dm)"
    using db3(4-7) by (simp add: durable_open_def read_json_def fjall_db.fj_get [OF assms(1) db3(2)] durable_applied_state_def)
  ultimately show ?thesis
    using b by (simp add: durable_applied_state_def durable_get_current_snapshot_def)
qed

theorem durable_snapshot_exact_witness:
  "\<exists>dm1 meta data db3 dm3.
      durable_build_snapshot mem_fjall (\<lambda>_. ''L'') plain_json (keyspace_names 0) (\<lambda>_. [([1], [2])]) fresh_dm = Inr (dm1, meta, data)
    \<and> durable_install_snapshot mem_fjall plain_json (keyspace_names 1) (\<lambda>_. [([3], [4])]) fresh_dm meta data = (db3, dm3, Inr ())
    \<and> mem_view db3 (rk_data (keyspace_names 1)) [1] = Some [2] \<and> mem_view db3 (rk_data (keyspace_names 1)) [3] = None"
proof -
  have ok: "mem_db_ok (\<lambda>_. [([1], [2])])" "mem_db_ok (\<lambda>_. [([3], [4])])" by (simp_all add: mem_db_ok_def kv_ok_def)
  have v: "mem_view (\<lambda>_. [([1], [2])]) n k = (if k = [1] then Some [2] else None)" for n k
    by (simp add: mem_view_def kv_get_def)
  from durable_snapshot_exact [OF memdb.fjall_db_axioms, OF ok plain_json_law keyspace_names_ne,
      of "\<lambda>_. ''L''" "keyspace_names 0" fresh_dm 1 fresh_dm "(None, ())"]
  show ?thesis by (elim exE conjE) (intro exI conjI, assumption, assumption, simp_all only: v, simp_all)
qed

end
