(* ===== verification/CatalogSerde.thy ===== *)
theory CatalogSerde
  imports PgTypes Keys
begin

text \<open>
  The stored form of the catalog: \<open>catalog/src/serde.rs\<close> and the catalog's data types of
  \<open>catalog/src/lib.rs\<close>. Every object is written as length-prefixed strings, counted lists and tagged
  types; each reader takes its part off the front of the input. Strings are their UTF-8 bytes.
\<close>

section \<open>Catalog objects\<close>

record column =
  col_name :: bytes
  col_ty :: column_type

type_synonym options = "(bytes \<times> bytes) list"

record foreign_table_meta =
  fm_server :: bytes
  fm_options :: options

record foreign_data_wrapper =
  fdw_name :: bytes
  fdw_options :: options

record foreign_server =
  fs_name :: bytes
  fs_wrapper :: bytes
  fs_options :: options

record user_mapping =
  um_user :: bytes
  um_server :: bytes
  um_options :: options

section \<open>Writing\<close>

definition SCHEMA_VERSION :: byte where
  "SCHEMA_VERSION = 2"

definition ty_BOOL :: byte where "ty_BOOL = 0"
definition ty_INT4 :: byte where "ty_INT4 = 1"
definition ty_INT8 :: byte where "ty_INT8 = 2"
definition ty_TEXT :: byte where "ty_TEXT = 3"
definition ty_FLOAT8 :: byte where "ty_FLOAT8 = 4"
definition ty_NUMERIC :: byte where "ty_NUMERIC = 5"
definition ty_DATE :: byte where "ty_DATE = 6"
definition ty_TIME :: byte where "ty_TIME = 7"
definition ty_TIMESTAMP :: byte where "ty_TIMESTAMP = 8"
definition ty_TIMESTAMPTZ :: byte where "ty_TIMESTAMPTZ = 9"
definition ty_INTERVAL :: byte where "ty_INTERVAL = 10"
definition ty_BYTEA :: byte where "ty_BYTEA = 11"

lemmas ty_defs = ty_BOOL_def ty_INT4_def ty_INT8_def ty_TEXT_def ty_FLOAT8_def ty_NUMERIC_def ty_DATE_def
  ty_TIME_def ty_TIMESTAMP_def ty_TIMESTAMPTZ_def ty_INTERVAL_def ty_BYTEA_def

fun write_type :: "bytes \<Rightarrow> column_type \<Rightarrow> bytes" where
  "write_type out TBool = out @ [ty_BOOL]"
| "write_type out TInt4 = out @ [ty_INT4]"
| "write_type out TInt8 = out @ [ty_INT8]"
| "write_type out TText = out @ [ty_TEXT]"
| "write_type out TFloat8 = out @ [ty_FLOAT8]"
| "write_type out (TNumeric tm) =
     (let out = out @ [ty_NUMERIC]
      in case tm of
           Some t \<Rightarrow> ((out @ [1]) @ be_bytes (precision t)) @ be_bytes (scale t)
         | None \<Rightarrow> out @ [0])"
| "write_type out TDate = out @ [ty_DATE]"
| "write_type out TTime = (out @ [ty_TIME]) @ [0]"
| "write_type out TTimestamp = (out @ [ty_TIMESTAMP]) @ [0]"
| "write_type out TTimestamptz = (out @ [ty_TIMESTAMPTZ]) @ [0]"
| "write_type out TInterval = (out @ [ty_INTERVAL]) @ [0]"
| "write_type out TBytea = out @ [ty_BYTEA]"

text \<open>\<open>as u32\<close> truncates.\<close>

definition write_str :: "bytes \<Rightarrow> bytes \<Rightarrow> bytes" where
  "write_str out s = (out @ be_bytes (word_of_nat (length s) :: u32)) @ s"

fun write_option_pairs :: "bytes \<Rightarrow> options \<Rightarrow> bytes" where
  "write_option_pairs out [] = out"
| "write_option_pairs out ((k, v) # opts) = write_option_pairs (write_str (write_str out k) v) opts"

definition write_options :: "bytes \<Rightarrow> options \<Rightarrow> bytes" where
  "write_options out opts = write_option_pairs (out @ be_bytes (word_of_nat (length opts) :: u32)) opts"

fun write_columns :: "bytes \<Rightarrow> column list \<Rightarrow> bytes" where
  "write_columns out [] = out"
| "write_columns out (c # cs) = write_columns (write_type (write_str out (col_name c)) (col_ty c)) cs"

definition serialize_schema :: "u32 \<Rightarrow> column list \<Rightarrow> foreign_table_meta option \<Rightarrow> bytes" where
  "serialize_schema table_id columns meta =
     (let out = [SCHEMA_VERSION];
          out = out @ be_bytes table_id;
          out = out @ be_bytes (word_of_nat (length columns) :: u32);
          out = write_columns out columns
      in case meta of
           None \<Rightarrow> out @ [0]
         | Some m \<Rightarrow> write_options (write_str (out @ [1]) (fm_server m)) (fm_options m))"

definition serialize_fdw :: "bytes \<Rightarrow> options \<Rightarrow> bytes" where
  "serialize_fdw name opts = write_options (write_str [] name) opts"

definition serialize_server :: "bytes \<Rightarrow> bytes \<Rightarrow> options \<Rightarrow> bytes" where
  "serialize_server name wrapper opts = write_options (write_str (write_str [] name) wrapper) opts"

definition serialize_user_mapping :: "bytes \<Rightarrow> bytes \<Rightarrow> options \<Rightarrow> bytes" where
  "serialize_user_mapping user server opts = write_options (write_str (write_str [] user) server) opts"

section \<open>Reading\<close>

definition cat_take_u8 :: "bytes \<Rightarrow> kv_error + (byte \<times> bytes)" where
  "cat_take_u8 cur = (case cur of [] \<Rightarrow> Inl (CorruptRow ''truncated schema'') | h # rest \<Rightarrow> Inr (h, rest))"

definition cat_take_n :: "bytes \<Rightarrow> nat \<Rightarrow> kv_error + (bytes \<times> bytes)" where
  "cat_take_n cur n =
     (if length cur < n then Inl (CorruptRow ''truncated schema field'') else Inr (take n cur, drop n cur))"

definition read_reserved :: "column_type \<Rightarrow> bytes \<Rightarrow> kv_error + (column_type \<times> bytes)" where
  "read_reserved ty cur =
     rbind (cat_take_u8 cur) (\<lambda>(reserved, cur).
       if reserved \<noteq> 0 then Inl (CorruptRow ''unsupported datetime precision'') else Inr (ty, cur))"

definition read_type :: "bytes \<Rightarrow> kv_error + (column_type \<times> bytes)" where
  "read_type cur =
     rbind (cat_take_u8 cur) (\<lambda>(t, cur).
       if t = ty_BOOL then Inr (TBool, cur)
       else if t = ty_INT4 then Inr (TInt4, cur)
       else if t = ty_INT8 then Inr (TInt8, cur)
       else if t = ty_TEXT then Inr (TText, cur)
       else if t = ty_FLOAT8 then Inr (TFloat8, cur)
       else if t = ty_NUMERIC then
         rbind (cat_take_u8 cur) (\<lambda>(flag, cur).
           if flag = 1 then
             rbind (cat_take_n cur 2) (\<lambda>(p, cur).
             rbind (cat_take_n cur 2) (\<lambda>(s, cur).
               Inr (TNumeric (Some \<lparr> precision = of_be p, scale = of_be s \<rparr>), cur)))
           else Inr (TNumeric None, cur))
       else if t = ty_DATE then Inr (TDate, cur)
       else if t = ty_TIME then read_reserved TTime cur
       else if t = ty_TIMESTAMP then read_reserved TTimestamp cur
       else if t = ty_TIMESTAMPTZ then read_reserved TTimestamptz cur
       else if t = ty_INTERVAL then read_reserved TInterval cur
       else if t = ty_BYTEA then Inr (TBytea, cur)
       else Inl (CorruptRow (''unknown column type tag '' @ dec_nat (unat t))))"

definition read_str :: "bytes \<Rightarrow> kv_error + (bytes \<times> bytes)" where
  "read_str cur = rbind (cat_take_n cur 4) (\<lambda>(len, cur). cat_take_n cur (unat (of_be len :: u32)))"

definition read_string :: "bytes \<Rightarrow> kv_error + (bytes \<times> bytes)" where
  "read_string cur =
     rbind (read_str cur) (\<lambda>(s, cur).
       if utf8_ok s then Inr (s, cur) else Inl (CorruptRow ''non-UTF-8 string in catalog''))"

definition read_option :: "bytes \<Rightarrow> kv_error + ((bytes \<times> bytes) \<times> bytes)" where
  "read_option cur = rbind (read_string cur) (\<lambda>(k, cur). rbind (read_string cur) (\<lambda>(v, cur). Inr ((k, v), cur)))"

definition read_options :: "bytes \<Rightarrow> kv_error + (options \<times> bytes)" where
  "read_options cur = rbind (cat_take_n cur 4) (\<lambda>(n, cur). dec_list read_option (unat (of_be n :: u32)) cur)"

definition read_column :: "bytes \<Rightarrow> kv_error + (column \<times> bytes)" where
  "read_column cur =
     rbind (read_string cur) (\<lambda>(name, cur).
     rbind (read_type cur) (\<lambda>(ty, cur). Inr (\<lparr> col_name = name, col_ty = ty \<rparr>, cur)))"

definition deserialize_schema :: "bytes \<Rightarrow> kv_error + (u32 \<times> column list \<times> foreign_table_meta option)" where
  "deserialize_schema bs =
     rbind (cat_take_u8 bs) (\<lambda>(version, cur).
       if version \<noteq> SCHEMA_VERSION
       then Inl (CorruptRow (''unknown schema version '' @ dec_nat (unat version)))
       else
         rbind (cat_take_n cur 4) (\<lambda>(id, cur).
         rbind (cat_take_n cur 4) (\<lambda>(ncols, cur).
         rbind (dec_list read_column (unat (of_be ncols :: u32)) cur) (\<lambda>(columns, cur).
         rbind (cat_take_u8 cur) (\<lambda>(flag, cur).
           if flag = 0 then Inr (of_be id, columns, None)
           else if flag = 1 then
             rbind (read_string cur) (\<lambda>(server, cur).
             rbind (read_options cur) (\<lambda>(opts, _).
               Inr (of_be id, columns, Some \<lparr> fm_server = server, fm_options = opts \<rparr>)))
           else Inl (CorruptRow (''unknown foreign flag '' @ dec_nat (unat flag))))))))"

definition deserialize_fdw :: "bytes \<Rightarrow> kv_error + foreign_data_wrapper" where
  "deserialize_fdw bs =
     rbind (read_string bs) (\<lambda>(name, cur).
     rbind (read_options cur) (\<lambda>(opts, _). Inr \<lparr> fdw_name = name, fdw_options = opts \<rparr>))"

definition deserialize_server :: "bytes \<Rightarrow> kv_error + foreign_server" where
  "deserialize_server bs =
     rbind (read_string bs) (\<lambda>(name, cur).
     rbind (read_string cur) (\<lambda>(wrapper, cur).
     rbind (read_options cur) (\<lambda>(opts, _). Inr \<lparr> fs_name = name, fs_wrapper = wrapper, fs_options = opts \<rparr>)))"

definition deserialize_user_mapping :: "bytes \<Rightarrow> kv_error + user_mapping" where
  "deserialize_user_mapping bs =
     rbind (read_string bs) (\<lambda>(user, cur).
     rbind (read_string cur) (\<lambda>(server, cur).
     rbind (read_options cur) (\<lambda>(opts, _). Inr \<lparr> um_user = user, um_server = server, um_options = opts \<rparr>)))"

section \<open>Round trips\<close>

text \<open>What the format can hold: UTF-8 strings below 4 GiB and fewer than \<open>2 ^ 32\<close> list elements.\<close>

definition str_ok :: "bytes \<Rightarrow> bool" where
  "str_ok s \<longleftrightarrow> utf8_ok s \<and> length s < 2 ^ 32"

definition option_ok :: "bytes \<times> bytes \<Rightarrow> bool" where
  "option_ok p \<longleftrightarrow> str_ok (fst p) \<and> str_ok (snd p)"

definition options_ok :: "options \<Rightarrow> bool" where
  "options_ok opts \<longleftrightarrow> list_all option_ok opts \<and> length opts < 2 ^ 32"

definition columns_ok :: "column list \<Rightarrow> bool" where
  "columns_ok cs \<longleftrightarrow> list_all (\<lambda>c. str_ok (col_name c)) cs \<and> length cs < 2 ^ 32"

fun meta_ok :: "foreign_table_meta option \<Rightarrow> bool" where
  "meta_ok None = True"
| "meta_ok (Some m) = (str_ok (fm_server m) \<and> options_ok (fm_options m))"

lemma cat_take_u8_Cons [codec_simps]: "cat_take_u8 (b # cur) = Inr (b, cur)"
  by (simp add: cat_take_u8_def)

lemma cat_take_n_append [codec_simps]: "length s = n \<Longrightarrow> cat_take_n (s @ cur) n = Inr (s, cur)"
  by (auto simp: cat_take_n_def)

lemma write_type_out: "write_type out ty = out @ write_type [] ty"
  by (cases ty) (auto simp: Let_def split: option.splits)

lemma write_str_out: "write_str out s = out @ write_str [] s"
  by (simp add: write_str_def)

lemma write_type_append: "write_type (out @ s) ty = out @ write_type s ty"
  by (simp add: write_type_out [of "out @ s"] write_type_out [of s])

definition enc_option :: "bytes \<times> bytes \<Rightarrow> bytes" where
  "enc_option p = write_str (write_str [] (fst p)) (snd p)"

definition enc_column :: "column \<Rightarrow> bytes" where
  "enc_column c = write_type (write_str [] (col_name c)) (col_ty c)"

lemma write_option_pairs_list: "write_option_pairs out opts = out @ enc_list enc_option opts"
proof (induction opts arbitrary: out)
  case (Cons p opts)
  then show ?case by (cases p) (simp add: enc_option_def write_str_def)
qed simp

lemma write_columns_list: "write_columns out cs = out @ enc_list enc_column cs"
proof (induction cs arbitrary: out)
  case (Cons c cs)
  then show ?case
    by (simp add: enc_column_def write_str_out [of out] write_type_append)
qed simp

lemma read_type_write: "read_type (write_type [] ty @ cur) = Inr (ty, cur)"
  by (cases ty)
    (auto simp: read_type_def read_reserved_def ty_defs codec_simps Let_def simp del: rbind_eq_Inr split: option.splits)

interpretation typec: codec "write_type []" read_type "\<lambda>_. True"
  by unfold_locales (rule read_type_write)

lemma read_string_write: "str_ok s \<Longrightarrow> read_string (write_str [] s @ cur) = Inr (s, cur)"
  by (simp add: read_string_def read_str_def write_str_def str_ok_def codec_simps unat_of_nat_small del: rbind_eq_Inr)

interpretation strc: codec "write_str []" read_string str_ok
  by unfold_locales (rule read_string_write)

interpretation optc: codec enc_option read_option option_ok
  by unfold_locales
    (simp add: enc_option_def read_option_def option_ok_def write_str_out [of "write_str [] _"] strc.dec_enc del: rbind_eq_Inr)

interpretation colc: codec enc_column read_column "\<lambda>c. str_ok (col_name c)"
  by unfold_locales
    (simp add: enc_column_def read_column_def write_type_out [of "write_str [] _"] strc.dec_enc typec.dec_enc del: rbind_eq_Inr)

lemma read_options_write: "options_ok opts \<Longrightarrow> read_options (write_options [] opts @ cur) = Inr (opts, cur)"
  by (simp add: read_options_def write_options_def write_option_pairs_list options_ok_def codec_simps unat_of_nat_small
      optc.dec_enc_list del: rbind_eq_Inr)

interpretation optsc: codec "write_options []" read_options options_ok
  by unfold_locales (rule read_options_write)

lemma write_options_out: "write_options out opts = out @ write_options [] opts"
  by (simp add: write_options_def write_option_pairs_list)

lemma schema_roundtrip:
  assumes "columns_ok cs" and "meta_ok m"
  shows "deserialize_schema (serialize_schema t cs m) = Inr (t, cs, m)"
proof -
  have cols: "dec_list read_column (length cs) (enc_list enc_column cs @ r) = Inr (cs, r)" for r
    using assms(1) by (intro colc.dec_enc_list) (simp add: columns_ok_def)
  show ?thesis
  proof (cases m)
    case None
    then show ?thesis
      using assms(1) cols [of "[0]"]
      by (simp add: serialize_schema_def deserialize_schema_def write_columns_list columns_ok_def codec_simps
          unat_of_nat_small Let_def del: rbind_eq_Inr)
  next
    case (Some fm)
    let ?tail = "write_str [] (fm_server fm) @ write_options [] (fm_options fm)"
    have "serialize_schema t cs m
      = SCHEMA_VERSION # be_bytes t @ be_bytes (word_of_nat (length cs) :: u32) @ enc_list enc_column cs @ 1 # ?tail"
      by (simp add: Some serialize_schema_def write_columns_list write_options_out [of "write_str _ _"]
          write_str_out [of "_ # _"] Let_def)
    moreover have "read_string ?tail = Inr (fm_server fm, write_options [] (fm_options fm))"
      "read_options (write_options [] (fm_options fm)) = Inr (fm_options fm, [])"
      using assms(2) Some by (simp_all add: strc.dec_enc optsc.dec_enc_all)
    ultimately show ?thesis
      using assms cols [of "1 # ?tail"] Some
      by (simp add: deserialize_schema_def columns_ok_def codec_simps unat_of_nat_small del: rbind_eq_Inr)
  qed
qed

lemma fdw_roundtrip:
  "\<lbrakk>str_ok name; options_ok opts\<rbrakk> \<Longrightarrow> deserialize_fdw (serialize_fdw name opts) = Inr \<lparr> fdw_name = name, fdw_options = opts \<rparr>"
  by (simp add: deserialize_fdw_def serialize_fdw_def write_options_out [of "write_str _ _"] strc.dec_enc
      optsc.dec_enc_all del: rbind_eq_Inr)

lemma server_roundtrip:
  "\<lbrakk>str_ok name; str_ok wrapper; options_ok opts\<rbrakk> \<Longrightarrow>
   deserialize_server (serialize_server name wrapper opts) = Inr \<lparr> fs_name = name, fs_wrapper = wrapper, fs_options = opts \<rparr>"
  by (simp add: deserialize_server_def serialize_server_def write_options_out [of "write_str _ _"]
      write_options_out [of "_ @ _"] write_str_out [of "write_str [] _"] strc.dec_enc optsc.dec_enc_all del: rbind_eq_Inr)

lemma user_mapping_roundtrip:
  "\<lbrakk>str_ok user; str_ok server; options_ok opts\<rbrakk> \<Longrightarrow>
   deserialize_user_mapping (serialize_user_mapping user server opts) = Inr \<lparr> um_user = user, um_server = server, um_options = opts \<rparr>"
  by (simp add: deserialize_user_mapping_def serialize_user_mapping_def write_options_out [of "write_str _ _"]
      write_options_out [of "_ @ _"] write_str_out [of "write_str [] _"] strc.dec_enc optsc.dec_enc_all del: rbind_eq_Inr)

end
