(* ===== verification/Catalog.thy ===== *)
theory Catalog
  imports CatalogSerde Errors KvStore Allocator
begin

text \<open>
  The catalog: \<open>catalog/src/lib.rs\<close>, a stateless view of a store. A table is its schema under its name,
  a rowid sequence under its id, and rows under its prefix; foreign objects are one entry each. The
  theorems: what was created is found, what was dropped is gone together with its rows, no operation
  touches another object, and table ids are never reused.

  The operations are stated over \<open>MemKv\<close>, whose calls cannot fail; callers serialise DDL.
\<close>

section \<open>Tables\<close>

record table =
  tb_id :: u32
  tb_name :: bytes
  tb_columns :: "column list"
  tb_foreign :: "foreign_table_meta option"

fun position :: "('a \<Rightarrow> bool) \<Rightarrow> 'a list \<Rightarrow> nat option" where
  "position P [] = None"
| "position P (x # xs) = (if P x then Some 0 else map_option Suc (position P xs))"

definition column_index :: "table \<Rightarrow> bytes \<Rightarrow> nat option" where
  "column_index t name = position (\<lambda>c. col_name c = name) (tb_columns t)"

definition read_next_table_id :: "mem_kv \<Rightarrow> catalog_error + u32" where
  "read_next_table_id kv =
     (case kv_get kv meta_next_table_id_key of
        Some b \<Rightarrow> if 4 \<le> length b then Inr (of_be (take 4 b)) else Inl (Storage (CorruptRow ''next_table_id is not u32''))
      | None \<Rightarrow> Inr 1)"

definition create_table_ops :: "mem_kv \<Rightarrow> bytes \<Rightarrow> column list \<Rightarrow> catalog_error + (u32 \<times> write_op list)" where
  "create_table_ops kv name columns =
     (if kv_get kv (catalog_key name) \<noteq> None then Inl (DuplicateTable (chars_of name))
      else rbind (read_next_table_id kv) (\<lambda>next.
        Inr (next, [Put (catalog_key name) (serialize_schema next columns None),
                    Put (seq_key next) (be_bytes (1 :: u64)),
                    Put meta_next_table_id_key (be_bytes (next + 1))])))"

definition create_table :: "mem_kv \<Rightarrow> bytes \<Rightarrow> column list \<Rightarrow> catalog_error + (u32 \<times> mem_kv)" where
  "create_table kv name columns =
     rbind (create_table_ops kv name columns) (\<lambda>(next, batch). Inr (next, write_batch kv batch))"

definition get_table :: "mem_kv \<Rightarrow> bytes \<Rightarrow> catalog_error + table" where
  "get_table kv name =
     rbind (ok_or (UndefinedTable (chars_of name)) (kv_get kv (catalog_key name))) (\<lambda>b.
     rbind (map_err Storage (deserialize_schema b)) (\<lambda>(id, columns, foreign).
       Inr \<lparr> tb_id = id, tb_name = name, tb_columns = columns, tb_foreign = foreign \<rparr>))"

definition drop_table_ops :: "mem_kv \<Rightarrow> bytes \<Rightarrow> catalog_error + write_op list" where
  "drop_table_ops kv name =
     rbind (get_table kv name) (\<lambda>t.
       Inr ([Delete (catalog_key name), Delete (seq_key (tb_id t))]
            @ map (\<lambda>(row_key, _). Delete row_key) (scan_prefix kv (table_prefix (tb_id t)))))"

definition drop_table :: "mem_kv \<Rightarrow> bytes \<Rightarrow> catalog_error + mem_kv" where
  "drop_table kv name = rbind (drop_table_ops kv name) (\<lambda>ops. Inr (write_batch kv ops))"

section \<open>Foreign objects\<close>

definition create_fdw :: "mem_kv \<Rightarrow> bytes \<Rightarrow> options \<Rightarrow> catalog_error + mem_kv" where
  "create_fdw kv name opts =
     (if kv_get kv (fdw_key name) \<noteq> None then Inl (DuplicateObject (chars_of name))
      else Inr (write_batch kv [Put (fdw_key name) (serialize_fdw name opts)]))"

definition get_fdw :: "mem_kv \<Rightarrow> bytes \<Rightarrow> catalog_error + foreign_data_wrapper" where
  "get_fdw kv name =
     rbind (ok_or (UndefinedObject (chars_of name)) (kv_get kv (fdw_key name))) (\<lambda>b. map_err Storage (deserialize_fdw b))"

definition drop_fdw :: "mem_kv \<Rightarrow> bytes \<Rightarrow> catalog_error + mem_kv" where
  "drop_fdw kv name = rbind (get_fdw kv name) (\<lambda>_. Inr (write_batch kv [Delete (fdw_key name)]))"

definition create_server :: "mem_kv \<Rightarrow> bytes \<Rightarrow> bytes \<Rightarrow> options \<Rightarrow> catalog_error + mem_kv" where
  "create_server kv name wrapper opts =
     (if kv_get kv (server_key name) \<noteq> None then Inl (DuplicateObject (chars_of name))
      else Inr (write_batch kv [Put (server_key name) (serialize_server name wrapper opts)]))"

definition get_server :: "mem_kv \<Rightarrow> bytes \<Rightarrow> catalog_error + foreign_server" where
  "get_server kv name =
     rbind (ok_or (UndefinedObject (chars_of name)) (kv_get kv (server_key name))) (\<lambda>b. map_err Storage (deserialize_server b))"

definition drop_server :: "mem_kv \<Rightarrow> bytes \<Rightarrow> catalog_error + mem_kv" where
  "drop_server kv name = rbind (get_server kv name) (\<lambda>_. Inr (write_batch kv [Delete (server_key name)]))"

definition at_name :: "bytes \<Rightarrow> bytes \<Rightarrow> string" where
  "at_name user server = chars_of user @ ''@'' @ chars_of server"

definition create_user_mapping :: "mem_kv \<Rightarrow> bytes \<Rightarrow> bytes \<Rightarrow> options \<Rightarrow> catalog_error + mem_kv" where
  "create_user_mapping kv user server opts =
     (if kv_get kv (user_mapping_key user server) \<noteq> None then Inl (DuplicateObject (at_name user server))
      else Inr (write_batch kv [Put (user_mapping_key user server) (serialize_user_mapping user server opts)]))"

definition get_user_mapping :: "mem_kv \<Rightarrow> bytes \<Rightarrow> bytes \<Rightarrow> catalog_error + user_mapping" where
  "get_user_mapping kv user server =
     rbind (ok_or (UndefinedObject (at_name user server)) (kv_get kv (user_mapping_key user server)))
       (\<lambda>b. map_err Storage (deserialize_user_mapping b))"

definition drop_user_mapping :: "mem_kv \<Rightarrow> bytes \<Rightarrow> bytes \<Rightarrow> catalog_error + mem_kv" where
  "drop_user_mapping kv user server =
     rbind (get_user_mapping kv user server) (\<lambda>_. Inr (write_batch kv [Delete (user_mapping_key user server)]))"

definition envelope_columns :: "column list" where
  "envelope_columns =
     [\<lparr> col_name = ascii ''_partition'', col_ty = TInt4 \<rparr>, \<lparr> col_name = ascii ''_offset'', col_ty = TInt8 \<rparr>,
      \<lparr> col_name = ascii ''_timestamp'', col_ty = TTimestamptz \<rparr>, \<lparr> col_name = ascii ''_key'', col_ty = TBytea \<rparr>,
      \<lparr> col_name = ascii ''_headers'', col_ty = TText \<rparr>]"

definition create_foreign_table ::
  "mem_kv \<Rightarrow> bytes \<Rightarrow> column list \<Rightarrow> bytes \<Rightarrow> options \<Rightarrow> catalog_error + (u32 \<times> mem_kv)" where
  "create_foreign_table kv name value_columns server opts =
     rbind (get_server kv server) (\<lambda>_.
       if kv_get kv (catalog_key name) \<noteq> None then Inl (DuplicateTable (chars_of name))
       else rbind (read_next_table_id kv) (\<lambda>next.
         let columns = envelope_columns @ value_columns;
             meta = \<lparr> fm_server = server, fm_options = opts \<rparr>;
             batch = [Put (catalog_key name) (serialize_schema next columns (Some meta)),
                      Put (seq_key next) (be_bytes (1 :: u64)),
                      Put meta_next_table_id_key (be_bytes (next + 1))]
         in Inr (next, write_batch kv batch)))"

section \<open>Keys of the catalog\<close>

lemma not_prefix_system: "c \<noteq> 0 \<Longrightarrow> \<not> prefix (table_prefix t) ([0, 0, 0, 0] @ c # s)"
proof
  assume c: "c \<noteq> 0" and "prefix (table_prefix t) ([0, 0, 0, 0] @ c # s)"
  then obtain r where "[0, 0, 0, 0] @ c # s = be_bytes t @ be_bytes INDEX_PRIMARY @ r"
    by (auto simp: prefix_def table_prefix_def put_u32_def)
  then have "c # s = be_bytes INDEX_PRIMARY @ r"
    by (rule append_eq_append_conv [THEN iffD1, THEN conjunct2, rotated]) simp
  with c show False by (simp add: INDEX_PRIMARY_def)
qed

lemma catalog_keys [simp]:
  "catalog_key n = catalog_key m \<longleftrightarrow> n = m" "seq_key t = seq_key u \<longleftrightarrow> t = u"
  "fdw_key n = fdw_key m \<longleftrightarrow> n = m" "server_key n = server_key m \<longleftrightarrow> n = m"
  "catalog_key n \<noteq> seq_key t" "seq_key t \<noteq> catalog_key n"
  "catalog_key n \<noteq> meta_next_table_id_key" "meta_next_table_id_key \<noteq> catalog_key n"
  "catalog_key n \<noteq> fdw_key m" "fdw_key m \<noteq> catalog_key n"
  "catalog_key n \<noteq> server_key m" "server_key m \<noteq> catalog_key n"
  "catalog_key n \<noteq> user_mapping_key x y" "user_mapping_key x y \<noteq> catalog_key n"
  "seq_key t \<noteq> meta_next_table_id_key" "meta_next_table_id_key \<noteq> seq_key t"
  "seq_key t \<noteq> fdw_key m" "fdw_key m \<noteq> seq_key t"
  "seq_key t \<noteq> server_key m" "server_key m \<noteq> seq_key t"
  "seq_key t \<noteq> user_mapping_key x y" "user_mapping_key x y \<noteq> seq_key t"
  "fdw_key n \<noteq> server_key m" "server_key m \<noteq> fdw_key n"
  "fdw_key n \<noteq> user_mapping_key x y" "user_mapping_key x y \<noteq> fdw_key n"
  "fdw_key n \<noteq> meta_next_table_id_key" "meta_next_table_id_key \<noteq> fdw_key n"
  "server_key n \<noteq> user_mapping_key x y" "user_mapping_key x y \<noteq> server_key n"
  "server_key n \<noteq> meta_next_table_id_key" "meta_next_table_id_key \<noteq> server_key n"
  "user_mapping_key x y \<noteq> meta_next_table_id_key" "meta_next_table_id_key \<noteq> user_mapping_key x y"
  by (simp_all add: system_key_bytes)

lemma table_prefix_system [simp]:
  "\<not> prefix (table_prefix t) (catalog_key n)" "\<not> prefix (table_prefix t) (seq_key u)"
  "\<not> prefix (table_prefix t) meta_next_table_id_key" "\<not> prefix (table_prefix t) (fdw_key n)"
  "\<not> prefix (table_prefix t) (server_key n)" "\<not> prefix (table_prefix t) (user_mapping_key v w)"
  unfolding system_key_bytes using not_prefix_system by simp_all

lemma user_mapping_key_inj: "\<lbrakk>0 \<notin> set u; 0 \<notin> set u'\<rbrakk> \<Longrightarrow> user_mapping_key u s = user_mapping_key u' s' \<longleftrightarrow> u = u' \<and> s = s'"
  by (auto simp: system_key_bytes dest: nul_split)

lemma table_prefix_disjoint: "prefix (table_prefix t) k \<Longrightarrow> prefix (table_prefix u) k \<Longrightarrow> t = u"
  by (auto simp: table_prefix_def put_u32_def prefix_def)

section \<open>What a catalog promises\<close>

text \<open>The abstract catalog: the next table id, one map per kind of object, and the rows of each table.\<close>

type_synonym schema = "u32 \<times> column list \<times> foreign_table_meta option"

record abs_catalog =
  ac_next :: u32
  ac_tables :: "bytes \<rightharpoonup> schema"
  ac_fdws :: "bytes \<rightharpoonup> foreign_data_wrapper"
  ac_servers :: "bytes \<rightharpoonup> foreign_server"
  ac_mappings :: "bytes \<times> bytes \<rightharpoonup> user_mapping"
  ac_rows :: "u32 \<Rightarrow> (bytes \<times> bytes) list"

datatype ddl =
    CreateTable bytes "column list"
  | CreateForeignTable bytes "column list" bytes options
  | DropTable bytes
  | CreateFdw bytes options
  | DropFdw bytes
  | CreateServer bytes bytes options
  | DropServer bytes
  | CreateUserMapping bytes bytes options
  | DropUserMapping bytes bytes

definition add_spec :: "abs_catalog \<Rightarrow> bytes \<Rightarrow> column list \<Rightarrow> foreign_table_meta option \<Rightarrow> catalog_error + abs_catalog" where
  "add_spec A n cols m =
     (if ac_tables A n \<noteq> None then Inl (DuplicateTable (chars_of n))
      else Inr (A\<lparr> ac_next := ac_next A + 1, ac_tables := (ac_tables A)(n \<mapsto> (ac_next A, cols, m)) \<rparr>))"

fun ddl_spec :: "abs_catalog \<Rightarrow> ddl \<Rightarrow> catalog_error + abs_catalog" where
  "ddl_spec A (CreateTable n cols) = add_spec A n cols None"
| "ddl_spec A (CreateForeignTable n cols srv opts) =
     (if ac_servers A srv = None then Inl (UndefinedObject (chars_of srv))
      else add_spec A n (envelope_columns @ cols) (Some \<lparr> fm_server = srv, fm_options = opts \<rparr>))"
| "ddl_spec A (DropTable n) =
     (case ac_tables A n of None \<Rightarrow> Inl (UndefinedTable (chars_of n))
      | Some s \<Rightarrow> Inr (A\<lparr> ac_tables := (ac_tables A)(n := None), ac_rows := (ac_rows A)(fst s := []) \<rparr>))"
| "ddl_spec A (CreateFdw n opts) =
     (if ac_fdws A n \<noteq> None then Inl (DuplicateObject (chars_of n))
      else Inr (A\<lparr> ac_fdws := (ac_fdws A)(n \<mapsto> \<lparr> fdw_name = n, fdw_options = opts \<rparr>) \<rparr>))"
| "ddl_spec A (DropFdw n) =
     (if ac_fdws A n = None then Inl (UndefinedObject (chars_of n))
      else Inr (A\<lparr> ac_fdws := (ac_fdws A)(n := None) \<rparr>))"
| "ddl_spec A (CreateServer n w opts) =
     (if ac_servers A n \<noteq> None then Inl (DuplicateObject (chars_of n))
      else Inr (A\<lparr> ac_servers := (ac_servers A)(n \<mapsto> \<lparr> fs_name = n, fs_wrapper = w, fs_options = opts \<rparr>) \<rparr>))"
| "ddl_spec A (DropServer n) =
     (if ac_servers A n = None then Inl (UndefinedObject (chars_of n))
      else Inr (A\<lparr> ac_servers := (ac_servers A)(n := None) \<rparr>))"
| "ddl_spec A (CreateUserMapping u srv opts) =
     (if ac_mappings A (u, srv) \<noteq> None then Inl (DuplicateObject (at_name u srv))
      else Inr (A\<lparr> ac_mappings := (ac_mappings A)((u, srv) \<mapsto> \<lparr> um_user = u, um_server = srv, um_options = opts \<rparr>) \<rparr>))"
| "ddl_spec A (DropUserMapping u srv) =
     (if ac_mappings A (u, srv) = None then Inl (UndefinedObject (at_name u srv))
      else Inr (A\<lparr> ac_mappings := (ac_mappings A)((u, srv) := None) \<rparr>))"

text \<open>The same statements on a store.\<close>

fun apply_ddl :: "mem_kv \<Rightarrow> ddl \<Rightarrow> catalog_error + mem_kv" where
  "apply_ddl kv (CreateTable n cols) = rbind (create_table kv n cols) (\<lambda>(_, kv). Inr kv)"
| "apply_ddl kv (CreateForeignTable n cols srv opts) = rbind (create_foreign_table kv n cols srv opts) (\<lambda>(_, kv). Inr kv)"
| "apply_ddl kv (DropTable n) = drop_table kv n"
| "apply_ddl kv (CreateFdw n opts) = create_fdw kv n opts"
| "apply_ddl kv (DropFdw n) = drop_fdw kv n"
| "apply_ddl kv (CreateServer n w opts) = create_server kv n w opts"
| "apply_ddl kv (DropServer n) = drop_server kv n"
| "apply_ddl kv (CreateUserMapping u srv opts) = create_user_mapping kv u srv opts"
| "apply_ddl kv (DropUserMapping u srv) = drop_user_mapping kv u srv"

text \<open>What the arguments must satisfy: the format's limits, and no NUL in a user name.\<close>

fun ddl_ok :: "ddl \<Rightarrow> bool" where
  "ddl_ok (CreateTable n cols) = columns_ok cols"
| "ddl_ok (CreateForeignTable n cols srv opts) = (columns_ok (envelope_columns @ cols) \<and> str_ok srv \<and> options_ok opts)"
| "ddl_ok (CreateFdw n opts) = (str_ok n \<and> options_ok opts)"
| "ddl_ok (CreateServer n w opts) = (str_ok n \<and> str_ok w \<and> options_ok opts)"
| "ddl_ok (CreateUserMapping u srv opts) = (0 \<notin> set u \<and> str_ok u \<and> str_ok srv \<and> options_ok opts)"
| "ddl_ok (DropUserMapping u srv) = (0 \<notin> set u)"
| "ddl_ok _ = True"

section \<open>The store as an abstract catalog\<close>

definition entry_of :: "(bytes \<Rightarrow> kv_error + 'a) \<Rightarrow> (bytes \<rightharpoonup> bytes) \<Rightarrow> bytes \<Rightarrow> 'a option" where
  "entry_of dec f k = (case f k of None \<Rightarrow> None | Some b \<Rightarrow> (case dec b of Inl _ \<Rightarrow> None | Inr x \<Rightarrow> Some x))"

definition next_of :: "mem_kv \<Rightarrow> u32" where
  "next_of kv = (case read_next_table_id kv of Inl _ \<Rightarrow> 0 | Inr n \<Rightarrow> n)"

definition abs_of :: "mem_kv \<Rightarrow> abs_catalog" where
  "abs_of kv =
     \<lparr> ac_next = next_of kv,
       ac_tables = (\<lambda>n. entry_of deserialize_schema (kv_get kv) (catalog_key n)),
       ac_fdws = (\<lambda>n. entry_of deserialize_fdw (kv_get kv) (fdw_key n)),
       ac_servers = (\<lambda>n. entry_of deserialize_server (kv_get kv) (server_key n)),
       ac_mappings = (\<lambda>(u, s). if 0 \<in> set u then None else entry_of deserialize_user_mapping (kv_get kv) (user_mapping_key u s)),
       ac_rows = (\<lambda>t. scan_prefix kv (table_prefix t)) \<rparr>"

text \<open>
  A well-formed store: everything stored reads back, and every table's id is below the next id and
  its own.
\<close>

definition reads_back :: "(bytes \<Rightarrow> kv_error + 'a) \<Rightarrow> (bytes \<rightharpoonup> bytes) \<Rightarrow> bytes \<Rightarrow> bool" where
  "reads_back dec f k \<longleftrightarrow> (f k = None \<longleftrightarrow> entry_of dec f k = None)"

definition ids_ok :: "u32 \<Rightarrow> (bytes \<rightharpoonup> schema) \<Rightarrow> bool" where
  "ids_ok next T \<longleftrightarrow>
     (\<forall>n s. T n = Some s \<longrightarrow> fst s < next) \<and> (\<forall>n m s s'. T n = Some s \<and> T m = Some s' \<and> fst s = fst s' \<longrightarrow> n = m)"

definition catalog_ok :: "mem_kv \<Rightarrow> bool" where
  "catalog_ok kv \<longleftrightarrow>
     kv_ok kv \<and> (\<exists>n. read_next_table_id kv = Inr n) \<and> ids_ok (next_of kv) (ac_tables (abs_of kv)) \<and>
     (\<forall>n. reads_back deserialize_schema (kv_get kv) (catalog_key n)) \<and>
     (\<forall>n. reads_back deserialize_fdw (kv_get kv) (fdw_key n)) \<and>
     (\<forall>n. reads_back deserialize_server (kv_get kv) (server_key n)) \<and>
     (\<forall>u s. reads_back deserialize_user_mapping (kv_get kv) (user_mapping_key u s))"

lemma entry_of_upd [simp]: "entry_of dec (f(k' := v)) k = (if k = k' then entry_of dec (\<lambda>_. v) k else entry_of dec f k)"
  by (simp add: entry_of_def)

lemma entry_of_const [simp]:
  "entry_of dec (\<lambda>_. None) k = None"
  "entry_of dec (\<lambda>_. Some b) k = (case dec b of Inl _ \<Rightarrow> None | Inr x \<Rightarrow> Some x)"
  by (simp_all add: entry_of_def)

lemma reads_back_upd: "reads_back dec f k \<Longrightarrow> (k = k' \<Longrightarrow> v = None \<or> (\<exists>b x. v = Some b \<and> dec b = Inr x)) \<Longrightarrow> reads_back dec (f(k' := v)) k"
  by (auto simp: reads_back_def)

lemma catalog_okD:
  assumes "catalog_ok kv"
  shows "kv_ok kv" "read_next_table_id kv = Inr (next_of kv)" "ids_ok (next_of kv) (ac_tables (abs_of kv))"
    "reads_back deserialize_schema (kv_get kv) (catalog_key n)" "reads_back deserialize_fdw (kv_get kv) (fdw_key n)"
    "reads_back deserialize_server (kv_get kv) (server_key n)"
    "reads_back deserialize_user_mapping (kv_get kv) (user_mapping_key u s)"
  using assms unfolding catalog_ok_def by (auto simp: next_of_def)

lemma next_frame:
  "kv_get kv' meta_next_table_id_key = kv_get kv meta_next_table_id_key \<Longrightarrow> read_next_table_id kv' = read_next_table_id kv"
  by (simp add: read_next_table_id_def)

lemma rows_frame:
  "\<lbrakk>kv_ok kv; \<And>k. k \<in> op_key ` set ops \<Longrightarrow> \<not> prefix (table_prefix t) k\<rbrakk>
   \<Longrightarrow> scan_prefix (write_batch kv ops) (table_prefix t) = scan_prefix kv (table_prefix t)"
  by (rule memkv.scanp_batch_frame) auto

text \<open>Whether an entry is stored, read off the abstract catalog.\<close>

lemma stored_iff:
  assumes "catalog_ok kv"
  shows "kv_get kv (catalog_key n) = None \<longleftrightarrow> ac_tables (abs_of kv) n = None"
    "kv_get kv (fdw_key n) = None \<longleftrightarrow> ac_fdws (abs_of kv) n = None"
    "kv_get kv (server_key n) = None \<longleftrightarrow> ac_servers (abs_of kv) n = None"
    "0 \<notin> set u \<Longrightarrow> kv_get kv (user_mapping_key u s) = None \<longleftrightarrow> ac_mappings (abs_of kv) (u, s) = None"
  using catalog_okD(4-7) [OF assms] by (simp_all add: reads_back_def abs_of_def)

text \<open>Each lookup is the abstract map, with its error when the object is absent.\<close>

lemma lookup_entry:
  "reads_back dec f k \<Longrightarrow>
   rbind (ok_or e (f k)) (\<lambda>b. map_err Storage (dec b)) = (case entry_of dec f k of None \<Rightarrow> Inl e | Some x \<Rightarrow> Inr x)"
  by (cases "f k") (auto simp: reads_back_def entry_of_def split: sum.splits)

lemma lookups:
  assumes "catalog_ok kv"
  shows "get_fdw kv n = (case ac_fdws (abs_of kv) n of None \<Rightarrow> Inl (UndefinedObject (chars_of n)) | Some x \<Rightarrow> Inr x)"
    and "get_server kv n = (case ac_servers (abs_of kv) n of None \<Rightarrow> Inl (UndefinedObject (chars_of n)) | Some x \<Rightarrow> Inr x)"
    and "0 \<notin> set u \<Longrightarrow> get_user_mapping kv u s =
      (case ac_mappings (abs_of kv) (u, s) of None \<Rightarrow> Inl (UndefinedObject (at_name u s)) | Some x \<Rightarrow> Inr x)"
  unfolding get_fdw_def get_server_def get_user_mapping_def
  by (simp_all only: lookup_entry [OF catalog_okD(5) [OF assms]] lookup_entry [OF catalog_okD(6) [OF assms]]
      lookup_entry [OF catalog_okD(7) [OF assms]] abs_of_def abs_catalog.simps if_False split_conv)

lemma lookup_table:
  assumes "catalog_ok kv"
  shows "get_table kv n =
      (case ac_tables (abs_of kv) n of None \<Rightarrow> Inl (UndefinedTable (chars_of n))
       | Some (i, cols, m) \<Rightarrow> Inr \<lparr> tb_id = i, tb_name = n, tb_columns = cols, tb_foreign = m \<rparr>)"
proof -
  let ?e = "UndefinedTable (chars_of n)"
  have "get_table kv n = rbind (rbind (ok_or ?e (kv_get kv (catalog_key n))) (\<lambda>b. map_err Storage (deserialize_schema b)))
      (\<lambda>(i, cols, m). Inr \<lparr> tb_id = i, tb_name = n, tb_columns = cols, tb_foreign = m \<rparr>)"
    by (cases "kv_get kv (catalog_key n)") (simp_all add: get_table_def)
  then show ?thesis
    unfolding lookup_entry [OF catalog_okD(4) [OF assms]] by (simp add: abs_of_def split: option.split)
qed

section \<open>Each statement implements its specification\<close>

text \<open>What one write to a foreign object's entry stores: nothing, or bytes that decode to the object.\<close>

fun stores :: "(bytes \<Rightarrow> kv_error + 'a) \<Rightarrow> bytes \<Rightarrow> write_op \<Rightarrow> 'a option \<Rightarrow> bool" where
  "stores dec k (Put k' b) v = (k' = k \<and> (\<exists>x. dec b = Inr x \<and> v = Some x))"
| "stores dec k (Delete k') v = (k' = k \<and> v = None)"

lemma stores_effect:
  assumes "stores dec k w v"
  shows "op_key w = k" "k' \<noteq> k \<Longrightarrow> op_effect f w k' = f k'" "entry_of dec (op_effect f w) k = v" "reads_back dec (op_effect f w) k"
  using assms by (cases w; auto simp: entry_of_def reads_back_def)+

lemma entry_of_other: "f k = g k \<Longrightarrow> entry_of dec f k = entry_of dec g k"
  by (simp add: entry_of_def)

lemma reads_back_other: "f k = g k \<Longrightarrow> reads_back dec f k = reads_back dec g k"
  by (simp add: entry_of_def reads_back_def)

lemma stores_frame:
  assumes "stores dec k w v" and "k' \<noteq> k"
  shows "entry_of d (op_effect f w) k' = entry_of d f k'" "reads_back d (op_effect f w) k' = reads_back d f k'"
  using entry_of_other reads_back_other stores_effect(2) [OF assms] by blast+

lemma object_write:
  assumes ok: "catalog_ok kv" and w: "stores dec k w v" and k: "k \<noteq> meta_next_table_id_key" "\<And>n. k \<noteq> catalog_key n"
    "\<And>t. \<not> prefix (table_prefix t) k"
  shows "kv_ok (write_batch kv [w])" "read_next_table_id (write_batch kv [w]) = read_next_table_id kv"
    "next_of (write_batch kv [w]) = next_of kv"
    "scan_prefix (write_batch kv [w]) (table_prefix t) = scan_prefix kv (table_prefix t)"
    "kv_get (write_batch kv [w]) = op_effect (kv_get kv) w"
    "ac_tables (abs_of (write_batch kv [w])) = ac_tables (abs_of kv)"
proof -
  show "kv_ok (write_batch kv [w])" by (rule kv_ok_batch) (rule catalog_okD(1) [OF ok])
  show g: "kv_get (write_batch kv [w]) = op_effect (kv_get kv) w" by (simp add: kv_get_batch del: write_batch_simps)
  show n: "read_next_table_id (write_batch kv [w]) = read_next_table_id kv"
    by (rule next_frame) (simp only: g stores_effect(2) [OF w] k(1) [symmetric] not_False_eq_True)
  then show "next_of (write_batch kv [w]) = next_of kv" by (simp only: next_of_def)
  show "scan_prefix (write_batch kv [w]) (table_prefix t) = scan_prefix kv (table_prefix t)"
    by (rule rows_frame) (use catalog_okD(1) [OF ok] k(3) stores_effect(1) [OF w] in auto)
  show "ac_tables (abs_of (write_batch kv [w])) = ac_tables (abs_of kv)"
    by (simp add: abs_of_def g del: write_batch_simps cong: entry_of_other)
      (intro ext entry_of_other stores_effect(2) [OF w] k(2) [symmetric])
qed

lemma set_fdw:
  assumes ok: "catalog_ok kv" and w: "stores deserialize_fdw (fdw_key n) w v"
  shows "catalog_ok (write_batch kv [w])"
    "abs_of (write_batch kv [w]) = (abs_of kv)\<lparr> ac_fdws := (ac_fdws (abs_of kv))(n := v) \<rparr>"
proof -
  note o = object_write [OF ok w catalog_keys(27) catalog_keys(10) table_prefix_system(4)]
  have rb: "reads_back deserialize_fdw (op_effect (kv_get kv) w) (fdw_key m)" for m
    by (cases "m = n") (simp_all add: stores_effect(4) [OF w] catalog_okD(5) [OF ok] stores_frame(2) [OF w])
  show "catalog_ok (write_batch kv [w])"
    unfolding catalog_ok_def o(2,3,5,6) using o(1) rb catalog_okD [OF ok]
    by (simp add: stores_frame(2) [OF w] del: write_batch_simps)
  have e: "entry_of deserialize_fdw (op_effect (kv_get kv) w) (fdw_key m)
      = ((\<lambda>n. entry_of deserialize_fdw (kv_get kv) (fdw_key n))(n := v)) m" for m
    by (cases "m = n") (simp_all add: stores_effect(3) [OF w] stores_frame(1) [OF w])
  show "abs_of (write_batch kv [w]) = (abs_of kv)\<lparr> ac_fdws := (ac_fdws (abs_of kv))(n := v) \<rparr>"
    unfolding abs_of_def o(3-5) e abs_catalog.simps
    by (auto simp: fun_eq_iff stores_frame(1) [OF w])
qed

lemma set_server:
  assumes ok: "catalog_ok kv" and w: "stores deserialize_server (server_key n) w v"
  shows "catalog_ok (write_batch kv [w])"
    "abs_of (write_batch kv [w]) = (abs_of kv)\<lparr> ac_servers := (ac_servers (abs_of kv))(n := v) \<rparr>"
proof -
  note o = object_write [OF ok w catalog_keys(31) catalog_keys(12) table_prefix_system(5)]
  have rb: "reads_back deserialize_server (op_effect (kv_get kv) w) (server_key m)" for m
    by (cases "m = n") (simp_all add: stores_effect(4) [OF w] catalog_okD(6) [OF ok] stores_frame(2) [OF w])
  show "catalog_ok (write_batch kv [w])"
    unfolding catalog_ok_def o(2,3,5,6) using o(1) rb catalog_okD [OF ok]
    by (simp add: stores_frame(2) [OF w] del: write_batch_simps)
  have e: "entry_of deserialize_server (op_effect (kv_get kv) w) (server_key m)
      = ((\<lambda>n. entry_of deserialize_server (kv_get kv) (server_key n))(n := v)) m" for m
    by (cases "m = n") (simp_all add: stores_effect(3) [OF w] stores_frame(1) [OF w])
  show "abs_of (write_batch kv [w]) = (abs_of kv)\<lparr> ac_servers := (ac_servers (abs_of kv))(n := v) \<rparr>"
    unfolding abs_of_def o(3-5) e abs_catalog.simps
    by (auto simp: fun_eq_iff stores_frame(1) [OF w])
qed

lemma set_user_mapping:
  assumes ok: "catalog_ok kv" and w: "stores deserialize_user_mapping (user_mapping_key u s) w v" and u: "0 \<notin> set u"
  shows "catalog_ok (write_batch kv [w])"
    "abs_of (write_batch kv [w]) = (abs_of kv)\<lparr> ac_mappings := (ac_mappings (abs_of kv))((u, s) := v) \<rparr>"
proof -
  note o = object_write [OF ok w catalog_keys(33) catalog_keys(14) table_prefix_system(6)]
  have rb: "reads_back deserialize_user_mapping (op_effect (kv_get kv) w) (user_mapping_key u' s')" for u' s'
    by (cases "user_mapping_key u' s' = user_mapping_key u s") (simp_all add: stores_effect(4) [OF w] catalog_okD(7) [OF ok] stores_frame(2) [OF w])
  show "catalog_ok (write_batch kv [w])"
    unfolding catalog_ok_def o(2,3,5,6) using o(1) rb catalog_okD [OF ok]
    by (simp add: stores_frame(2) [OF w] del: write_batch_simps)
  have e: "(\<lambda>(u, s). if 0 \<in> set u then None else entry_of deserialize_user_mapping (op_effect (kv_get kv) w) (user_mapping_key u s))
      = (\<lambda>(u, s). if 0 \<in> set u then None else entry_of deserialize_user_mapping (kv_get kv) (user_mapping_key u s))((u, s) := v)"
    using u by (auto simp: fun_eq_iff user_mapping_key_inj stores_effect(3) [OF w] stores_frame(1) [OF w])
  show "abs_of (write_batch kv [w]) = (abs_of kv)\<lparr> ac_mappings := (ac_mappings (abs_of kv))((u, s) := v) \<rparr>"
    unfolding abs_of_def o(3-5) e abs_catalog.simps
    by (auto simp: fun_eq_iff stores_frame(1) [OF w])
qed

definition add_table_ops :: "bytes \<Rightarrow> u32 \<Rightarrow> bytes \<Rightarrow> write_op list" where
  "add_table_ops name next schema =
     [Put (catalog_key name) schema, Put (seq_key next) (be_bytes (1 :: u64)), Put meta_next_table_id_key (be_bytes (next + 1))]"

lemma ids_ok_add:
  assumes "ids_ok next T" and "unat next + 1 < 2 ^ 32"
  shows "ids_ok (next + 1) (T(n \<mapsto> (next, x)))"
proof -
  have "next < next + 1" using assms(2) by (simp add: word_less_nat_alt unat_add_lem [THEN iffD1])
  moreover have b: "T m = Some y \<Longrightarrow> fst y < next" and d: "\<lbrakk>T a = Some y; T b = Some z; fst y = fst z\<rbrakk> \<Longrightarrow> a = b" for m a b y z
    using assms(1) unfolding ids_ok_def by blast+
  ultimately show ?thesis
    unfolding ids_ok_def by (auto split: if_splits dest: b d intro: less_trans)
qed

lemma add_table:
  fixes name :: bytes
  assumes ok: "catalog_ok kv" and room: "unat (next_of kv) + 1 < 2 ^ 32" and s: "deserialize_schema schema = Inr (next_of kv, x)"
  defines "kv' \<equiv> write_batch kv (add_table_ops name (next_of kv) schema)"
  shows "catalog_ok kv'"
    "abs_of kv' = (abs_of kv)\<lparr> ac_next := next_of kv + 1, ac_tables := (ac_tables (abs_of kv))(name \<mapsto> (next_of kv, x)) \<rparr>"
proof -
  have g: "kv_get kv' = (kv_get kv)(catalog_key name \<mapsto> schema, seq_key (next_of kv) \<mapsto> be_bytes (1 :: u64),
      meta_next_table_id_key \<mapsto> be_bytes (next_of kv + 1))"
    by (simp add: kv'_def add_table_ops_def kv_get_batch del: write_batch_simps)
  have n: "read_next_table_id kv' = Inr (next_of kv + 1)" by (simp add: read_next_table_id_def g)
  then have n': "next_of kv' = next_of kv + 1" by (simp add: next_of_def)
  have r: "scan_prefix kv' (table_prefix t) = scan_prefix kv (table_prefix t)" for t
    unfolding kv'_def by (rule rows_frame [OF catalog_okD(1) [OF ok]]) (auto simp: add_table_ops_def)
  show a: "abs_of kv' = (abs_of kv)\<lparr> ac_next := next_of kv + 1, ac_tables := (ac_tables (abs_of kv))(name \<mapsto> (next_of kv, x)) \<rparr>"
    by (auto simp: abs_of_def n' r g s fun_eq_iff)
  show "catalog_ok kv'"
    unfolding catalog_ok_def a n n' abs_catalog.simps g
    using catalog_okD [OF ok] ids_ok_add [OF catalog_okD(3) [OF ok] room] s
    by (auto simp: kv'_def reads_back_def intro: kv_ok_batch)
qed

text \<open>Dropping a table deletes its entry, its sequence and every key under its prefix.\<close>

lemma delete_all: "foldl op_effect f (map (\<lambda>(k, v). Delete k) xs) k = (if k \<in> fst ` set xs then None else f k)"
  by (induction xs arbitrary: f) auto

definition drop_ops :: "mem_kv \<Rightarrow> bytes \<Rightarrow> u32 \<Rightarrow> write_op list" where
  "drop_ops kv name t =
     [Delete (catalog_key name), Delete (seq_key t)] @ map (\<lambda>(row_key, _). Delete row_key) (scan_prefix kv (table_prefix t))"

lemma get_drop:
  assumes "kv_ok kv"
  shows "kv_get (write_batch kv (drop_ops kv name t)) k =
     (if k = catalog_key name \<or> k = seq_key t \<or> prefix (table_prefix t) k then None else kv_get kv k)"
proof -
  have "k \<in> fst ` set (scan_prefix kv (table_prefix t)) \<longleftrightarrow> prefix (table_prefix t) k \<and> kv_get kv k \<noteq> None"
    by (force simp: memkv.scanp_set [OF assms] image_iff)
  then show ?thesis
    by (auto simp: drop_ops_def kv_get_batch delete_all simp del: write_batch_simps)
qed

lemma drop_entries:
  assumes ok: "catalog_ok kv" and t: "ac_tables (abs_of kv) name = Some (t, x)"
  defines "kv' \<equiv> write_batch kv (drop_ops kv name t)"
  shows "catalog_ok kv'"
    "abs_of kv' = (abs_of kv)\<lparr> ac_tables := (ac_tables (abs_of kv))(name := None), ac_rows := (ac_rows (abs_of kv))(t := []) \<rparr>"
proof -
  note g = get_drop [OF catalog_okD(1) [OF ok], of name t, folded kv'_def]
  have o: "kv_ok kv'" unfolding kv'_def by (rule kv_ok_batch) (rule catalog_okD(1) [OF ok])
  have n: "read_next_table_id kv' = read_next_table_id kv" by (rule next_frame) (simp add: g)
  then have n': "next_of kv' = next_of kv" by (simp add: next_of_def)
  have r: "scan_prefix kv' (table_prefix u) = (if u = t then [] else scan_prefix kv (table_prefix u))" for u
  proof (cases "u = t")
    case True
    then show ?thesis using memkv.scanp_Nil_iff [OF o, of "table_prefix t"] by (simp add: g)
  next
    case False
    then have "scan_prefix kv' (table_prefix u) = scan_prefix kv (table_prefix u)"
      by (intro memkv.scanp_ext o catalog_okD(1) [OF ok]) (auto simp: g dest: table_prefix_disjoint)
    with False show ?thesis by simp
  qed
  show a: "abs_of kv' = (abs_of kv)\<lparr> ac_tables := (ac_tables (abs_of kv))(name := None), ac_rows := (ac_rows (abs_of kv))(t := []) \<rparr>"
    by (auto simp: abs_of_def n' r entry_of_def g fun_eq_iff)
  have i: "ids_ok (next_of kv) ((ac_tables (abs_of kv))(name := None))"
    using catalog_okD(3) [OF ok] unfolding ids_ok_def by (simp split: if_splits)
  show "catalog_ok kv'"
    unfolding catalog_ok_def a n n' abs_catalog.simps using catalog_okD [OF ok] i o
    by (auto simp: reads_back_def entry_of_def g)
qed

text \<open>What a statement is to its specification, and the cases.\<close>

definition implements :: "mem_kv \<Rightarrow> catalog_error + mem_kv \<Rightarrow> catalog_error + abs_catalog \<Rightarrow> bool" where
  "implements kv r a \<longleftrightarrow> map_sum id abs_of r = a \<and> (\<forall>kv'. r = Inr kv' \<longrightarrow> catalog_ok kv')"

lemma implementsI:
  "implements kv (Inl e) (Inl e)"
  "\<lbrakk>catalog_ok kv'; abs_of kv' = A\<rbrakk> \<Longrightarrow> implements kv (Inr kv') (Inr A)"
  by (auto simp: implements_def)

lemma next_abs [simp]: "ac_next (abs_of kv) = next_of kv"
  by (simp add: abs_of_def)

lemma create_implements:
  assumes ok: "catalog_ok kv" and room: "unat (next_of kv) + 1 < 2 ^ 32" and c: "columns_ok cols" "meta_ok m"
  shows "implements kv
     (if kv_get kv (catalog_key n) \<noteq> None then Inl (DuplicateTable (chars_of n))
      else Inr (write_batch kv (add_table_ops n (next_of kv) (serialize_schema (next_of kv) cols m))))
     (add_spec (abs_of kv) n cols m)"
  unfolding add_spec_def stored_iff(1) [OF ok] next_abs
  by (cases "ac_tables (abs_of kv) n = None"; simp only: simp_thms if_True if_False)
    (rule implementsI add_table [OF ok room] schema_roundtrip c)+

lemma create_table_implements:
  "\<lbrakk>catalog_ok kv; unat (next_of kv) + 1 < 2 ^ 32; columns_ok cols\<rbrakk>
   \<Longrightarrow> implements kv (apply_ddl kv (CreateTable n cols)) (add_spec (abs_of kv) n cols None)"
  using create_implements [of kv cols None n] catalog_okD(2) [of kv]
  by (simp add: create_table_def create_table_ops_def add_table_ops_def del: write_batch_simps cong: if_cong split: if_splits)

lemma create_foreign_table_implements:
  assumes ok: "catalog_ok kv" and room: "unat (next_of kv) + 1 < 2 ^ 32" and d: "ddl_ok (CreateForeignTable n cols srv opts)"
  shows "implements kv (apply_ddl kv (CreateForeignTable n cols srv opts)) (ddl_spec (abs_of kv) (CreateForeignTable n cols srv opts))"
proof (cases "ac_servers (abs_of kv) srv")
  case None
  then show ?thesis by (simp add: create_foreign_table_def lookups(2) [OF ok] implementsI)
next
  case (Some sv)
  then show ?thesis
    using d create_implements [OF ok room, of "envelope_columns @ cols" "Some \<lparr> fm_server = srv, fm_options = opts \<rparr>" n] catalog_okD(2) [OF ok]
    by (simp add: create_foreign_table_def lookups(2) [OF ok] add_table_ops_def Let_def del: write_batch_simps cong: if_cong split: if_splits)
qed

lemma drop_table_implements:
  assumes ok: "catalog_ok kv"
  shows "implements kv (apply_ddl kv (DropTable n)) (ddl_spec (abs_of kv) (DropTable n))"
proof (cases "ac_tables (abs_of kv) n")
  case None
  then show ?thesis by (simp add: drop_table_def drop_table_ops_def lookup_table [OF ok] implementsI)
next
  case (Some x)
  obtain t cm where x: "x = (t, cm)" by (cases x)
  obtain cols m where cm: "cm = (cols, m)" by (cases cm)
  have "apply_ddl kv (DropTable n) = Inr (write_batch kv (drop_ops kv n t))"
    by (simp add: drop_table_def drop_table_ops_def lookup_table [OF ok] Some x cm drop_ops_def del: write_batch_simps)
  then show ?thesis using implementsI(2) [OF drop_entries [OF ok Some [unfolded x]]] by (simp add: Some x)
qed

lemma fdw_implements:
  assumes ok: "catalog_ok kv"
  shows "ddl_ok (CreateFdw n opts) \<Longrightarrow> implements kv (apply_ddl kv (CreateFdw n opts)) (ddl_spec (abs_of kv) (CreateFdw n opts))"
    "implements kv (apply_ddl kv (DropFdw n)) (ddl_spec (abs_of kv) (DropFdw n))"
  by (auto simp: create_fdw_def drop_fdw_def lookups [OF ok] stored_iff [OF ok] fdw_roundtrip
      split: option.split simp del: write_batch_simps intro!: implementsI set_fdw [OF ok])

lemma server_implements:
  assumes ok: "catalog_ok kv"
  shows "ddl_ok (CreateServer n w opts) \<Longrightarrow> implements kv (apply_ddl kv (CreateServer n w opts)) (ddl_spec (abs_of kv) (CreateServer n w opts))"
    "implements kv (apply_ddl kv (DropServer n)) (ddl_spec (abs_of kv) (DropServer n))"
  by (auto simp: create_server_def drop_server_def lookups [OF ok] stored_iff [OF ok] server_roundtrip
      split: option.split simp del: write_batch_simps intro!: implementsI set_server [OF ok])

lemma user_mapping_implements:
  assumes ok: "catalog_ok kv"
  shows "ddl_ok (CreateUserMapping u sv opts) \<Longrightarrow>
      implements kv (apply_ddl kv (CreateUserMapping u sv opts)) (ddl_spec (abs_of kv) (CreateUserMapping u sv opts))"
    "ddl_ok (DropUserMapping u sv) \<Longrightarrow> implements kv (apply_ddl kv (DropUserMapping u sv)) (ddl_spec (abs_of kv) (DropUserMapping u sv))"
  by (auto simp: create_user_mapping_def drop_user_mapping_def lookups [OF ok] stored_iff [OF ok] user_mapping_roundtrip
      split: option.split simp del: write_batch_simps intro!: implementsI set_user_mapping [OF ok])

lemma ddl_implements:
  assumes ok: "catalog_ok kv" and d: "ddl_ok d" and room: "unat (next_of kv) + 1 < 2 ^ 32"
  shows "implements kv (apply_ddl kv d) (ddl_spec (abs_of kv) d)"
proof (cases d)
  case (CreateTable n cols)
  then show ?thesis using create_table_implements [OF ok room] d by simp
next
  case (CreateForeignTable n cols srv opts)
  then show ?thesis using create_foreign_table_implements [OF ok room] d by blast
qed (use d drop_table_implements [OF ok] fdw_implements [OF ok] server_implements [OF ok] user_mapping_implements [OF ok] in blast)+

section \<open>Histories of DDL statements\<close>

text \<open>The ids a sequence of statements hands out; a failed statement leaves the store as it was.\<close>

fun created :: "mem_kv \<Rightarrow> ddl \<Rightarrow> u32 list" where
  "created kv (CreateTable n cols) = (case create_table kv n cols of Inl _ \<Rightarrow> [] | Inr (i, _) \<Rightarrow> [i])"
| "created kv (CreateForeignTable n cols srv opts) = (case create_foreign_table kv n cols srv opts of Inl _ \<Rightarrow> [] | Inr (i, _) \<Rightarrow> [i])"
| "created kv _ = []"

fun after :: "mem_kv \<Rightarrow> catalog_error + mem_kv \<Rightarrow> mem_kv" where
  "after kv (Inl _) = kv"
| "after kv (Inr kv') = kv'"

fun apply_ddls :: "mem_kv \<Rightarrow> ddl list \<Rightarrow> u32 list \<times> mem_kv" where
  "apply_ddls kv [] = ([], kv)"
| "apply_ddls kv (d # ds) = (let (ids, kv') = apply_ddls (after kv (apply_ddl kv d)) ds in (created kv d @ ids, kv'))"

lemma create_ids:
  assumes "catalog_ok kv"
  shows "create_table kv n cols = Inr (i, kv') \<Longrightarrow> i = next_of kv"
    "create_foreign_table kv n cols srv opts = Inr (i, kv') \<Longrightarrow> i = next_of kv"
  using catalog_okD(2) [OF assms]
  by (auto simp: create_table_def create_table_ops_def create_foreign_table_def Let_def split: if_splits)

lemma ddl_spec_next: "ddl_spec A d = Inr B \<Longrightarrow> ac_next B = (case d of CreateTable _ _ \<Rightarrow> ac_next A + 1 | CreateForeignTable _ _ _ _ \<Rightarrow> ac_next A + 1 | _ \<Rightarrow> ac_next A)"
  by (cases d) (auto simp: add_spec_def split: if_splits option.splits)

lemma ddl_next:
  assumes ok: "catalog_ok kv" and d: "ddl_ok d" and room: "unat (next_of kv) + 1 < 2 ^ 32"
  shows "catalog_ok (after kv (apply_ddl kv d))"
    "created kv d = [] \<and> next_of (after kv (apply_ddl kv d)) = next_of kv
      \<or> created kv d = [next_of kv] \<and> next_of (after kv (apply_ddl kv d)) = next_of kv + 1"
proof -
  note imp = ddl_implements [OF assms, unfolded implements_def]
  show "catalog_ok (after kv (apply_ddl kv d))" using imp ok by (cases "apply_ddl kv d") auto
  show "created kv d = [] \<and> next_of (after kv (apply_ddl kv d)) = next_of kv
      \<or> created kv d = [next_of kv] \<and> next_of (after kv (apply_ddl kv d)) = next_of kv + 1"
  proof (cases "apply_ddl kv d")
    case (Inl e)
    then have "created kv d = []" by (cases d) (auto split: sum.splits)
    with Inl show ?thesis by simp
  next
    case (Inr kv')
    then have "next_of kv' = (case d of CreateTable _ _ \<Rightarrow> next_of kv + 1 | CreateForeignTable _ _ _ _ \<Rightarrow> next_of kv + 1 | _ \<Rightarrow> next_of kv)"
      using imp ddl_spec_next [of "abs_of kv" d "abs_of kv'", unfolded next_abs] by simp
    then show ?thesis using Inr by (cases d) (auto dest: create_ids [OF ok] split: sum.splits)
  qed
qed

lemma apply_ddls_ids:
  "\<lbrakk>catalog_ok kv; list_all ddl_ok ds; unat (next_of kv) + length ds < 2 ^ 32; apply_ddls kv ds = (ids, kv')\<rbrakk>
   \<Longrightarrow> catalog_ok kv' \<and> sorted_wrt (<) ids \<and> (\<forall>i \<in> set ids. next_of kv \<le> i \<and> i < next_of kv') \<and> next_of kv \<le> next_of kv'"
proof (induction ds arbitrary: kv ids)
  case (Cons d ds)
  obtain ids' where r: "apply_ddls (after kv (apply_ddl kv d)) ds = (ids', kv')" and ids: "ids = created kv d @ ids'"
    using Cons.prems(4) by (auto simp: Let_def split: prod.splits)
  have room: "unat (next_of kv) + 1 < 2 ^ 32" using Cons.prems(3) by simp
  have lt: "next_of kv < next_of kv + 1" using room by (simp add: word_less_nat_alt unat_add_lem [THEN iffD1])
  have d: "ddl_ok d" and ds: "list_all ddl_ok ds" using Cons.prems(2) by simp_all
  note n = ddl_next [OF Cons.prems(1) d room]
  have u: "unat (next_of (after kv (apply_ddl kv d))) + length ds < 2 ^ 32"
    using n(2) Cons.prems(3) room by (auto simp: unat_add_lem [THEN iffD1])
  have "next_of kv + 1 \<le> i \<Longrightarrow> next_of kv < i" for i using lt by (rule order.strict_trans2)
  then show ?case
    using Cons.IH [OF n(1) ds u r] n(2) unfolding ids by (auto intro: less_imp_le)
qed simp

section \<open>The catalog's contract\<close>

text \<open>C21. Every DDL statement, run on a store whose entries read back, does exactly what its
  specification does to the catalog the store represents. A create fails with the duplicate error
  exactly when the name is taken, and otherwise adds the object under the next table id with the
  columns it was given; a foreign table fails unless its server exists and has the envelope columns
  first; a drop fails with the undefined error exactly when the object is absent, and otherwise
  removes it, for a table together with all its rows. No statement changes any other object, or
  another table's rows, and the store's entries read back afterwards.
\<close>

theorem catalog_refines:
  assumes "catalog_ok kv" and "ddl_ok d" and "unat (next_of kv) + 1 < 2 ^ 32"
  shows "map_sum id abs_of (apply_ddl kv d) = ddl_spec (abs_of kv) d \<and> (\<forall>kv'. apply_ddl kv d = Inr kv' \<longrightarrow> catalog_ok kv')"
  using ddl_implements [OF assms] unfolding implements_def .

lemma catalog_ok_new: "catalog_ok kv_new" "next_of kv_new = 1" "abs_of kv_new = \<lparr> ac_next = 1, ac_tables = (\<lambda>_. None), ac_fdws = (\<lambda>_. None),
    ac_servers = (\<lambda>_. None), ac_mappings = (\<lambda>_. None), ac_rows = (\<lambda>_. []) \<rparr>"
proof -
  have g: "kv_get kv_new = (\<lambda>_. None)" by (simp add: kv_new_def kv_get_def fun_eq_iff)
  have n: "read_next_table_id kv_new = Inr 1" by (simp add: read_next_table_id_def g)
  then show n': "next_of kv_new = 1" by (simp add: next_of_def)
  have "scan_prefix kv_new p = []" for p by (simp add: scan_prefix_def kv_new_def bt_range_from_def)
  then show a: "abs_of kv_new = \<lparr> ac_next = 1, ac_tables = (\<lambda>_. None), ac_fdws = (\<lambda>_. None),
      ac_servers = (\<lambda>_. None), ac_mappings = (\<lambda>_. None), ac_rows = (\<lambda>_. []) \<rparr>"
    by (auto simp: abs_of_def g n' entry_of_def fun_eq_iff)
  show "catalog_ok kv_new" by (simp add: catalog_ok_def n a ids_ok_def g reads_back_def entry_of_def)
qed

definition id_column :: column where
  "id_column = \<lparr> col_name = ascii ''id'', col_ty = TInt4 \<rparr>"

lemma id_column_ok: "columns_ok [id_column]"
  by (simp add: columns_ok_def str_ok_def id_column_def ascii_def)

theorem catalog_refines_witness:
  "map_sum id (\<lambda>kv. ac_tables (abs_of kv) (ascii ''t'')) (apply_ddl kv_new (CreateTable (ascii ''t'') [id_column]))
     = Inr (Some (1, [id_column], None))
   \<and> apply_ddl kv_new (DropTable (ascii ''t'')) = Inl (UndefinedTable (chars_of (ascii ''t'')))"
proof -
  let ?t = "ascii ''t''"
  have 1: "map_sum id abs_of (apply_ddl kv_new (CreateTable ?t [id_column])) = ddl_spec (abs_of kv_new) (CreateTable ?t [id_column])"
    using catalog_refines [of kv_new "CreateTable ?t [id_column]"] catalog_ok_new id_column_ok by simp
  have 2: "map_sum id abs_of (apply_ddl kv_new (DropTable ?t)) = ddl_spec (abs_of kv_new) (DropTable ?t)"
    using catalog_refines [of kv_new "DropTable ?t"] catalog_ok_new by simp
  obtain kv' where "apply_ddl kv_new (CreateTable ?t [id_column]) = Inr kv'" and "abs_of kv' = (abs_of kv_new)\<lparr> ac_next := 2, ac_tables := [?t \<mapsto> (1, [id_column], None)] \<rparr>"
    using 1 by (cases "apply_ddl kv_new (CreateTable ?t [id_column])") (auto simp: catalog_ok_new(2,3) add_spec_def)
  moreover have "apply_ddl kv_new (DropTable ?t) = Inl (UndefinedTable (chars_of ?t))"
    using 2 by (cases "apply_ddl kv_new (DropTable ?t)") (auto simp: catalog_ok_new(3))
  ultimately show ?thesis by (simp del: apply_ddl.simps)
qed

text \<open>Over any sequence of DDL statements, failed ones included, the table ids handed out are
  strictly increasing, so no id is ever given to two tables, not even after a drop.
\<close>

theorem table_ids_never_reused:
  assumes "catalog_ok kv" and "list_all ddl_ok ds" and "unat (next_of kv) + length ds < 2 ^ 32"
  shows "catalog_ok (snd (apply_ddls kv ds)) \<and> sorted_wrt (<) (fst (apply_ddls kv ds)) \<and> distinct (fst (apply_ddls kv ds))"
proof -
  have "sorted_wrt (<) xs \<Longrightarrow> distinct xs" for xs :: "u32 list" by (induction xs) auto
  then show ?thesis using apply_ddls_ids [OF assms, of "fst (apply_ddls kv ds)" "snd (apply_ddls kv ds)"] by simp
qed

theorem table_ids_never_reused_witness:
  "distinct (fst (apply_ddls kv_new [CreateTable (ascii ''t'') [id_column], DropTable (ascii ''t''), CreateTable (ascii ''t'') [id_column]]))"
  using table_ids_never_reused [OF catalog_ok_new(1),
      of "[CreateTable (ascii ''t'') [id_column], DropTable (ascii ''t''), CreateTable (ascii ''t'') [id_column]]"]
    catalog_ok_new(2) id_column_ok by simp

end
