(* ===== verification/Commit.thy ===== *)
theory Commit
  imports StateMachine Errors
begin

text \<open>
  The durable-write seam: the \<open>Committer\<close> trait of \<open>executor/src/commit.rs\<close> with its local
  implementation, and \<open>RaftCommitter\<close> of \<open>cluster/src/committer.rs\<close>. The outcome of openraft's
  \<open>client_write\<close> is a parameter; an entry that was proposed and then reported as failed may still
  have been applied, so that outcome carries whether it was. What both committers promise is the
  locale \<open>committer\<close>; what only the replicated one promises, that a decision is never overwritten,
  is \<open>replicated_committer\<close>.
\<close>

type_synonym committer_fn = "write_op list \<Rightarrow> mem_kv \<Rightarrow> (exec_error + unit) \<times> mem_kv"

definition local_commit :: committer_fn where
  "local_commit ops kv = (Inr (), write_batch kv ops)"

datatype client_write = WriteOk | ForwardToLeader | WriteFailed bool

definition map_write_err :: "client_write \<Rightarrow> exec_error" where
  "map_write_err w = (case w of ForwardToLeader \<Rightarrow> ENotLeader | _ \<Rightarrow> EUnavailable)"

text \<open>The entry applied to the leader's state machine, whose \<open>apply\<close> panics only on malformed counters.\<close>

definition applied_batch :: "write_op list \<Rightarrow> mem_kv \<Rightarrow> mem_kv" where
  "applied_batch ops kv = (case apply_ops kv ops of None \<Rightarrow> kv | Some kv' \<Rightarrow> kv')"

definition raft_commit :: "client_write \<Rightarrow> committer_fn" where
  "raft_commit w ops kv =
     (case w of
        WriteOk \<Rightarrow> (Inr (), applied_batch ops kv)
      | ForwardToLeader \<Rightarrow> (Inl (map_write_err w), kv)
      | WriteFailed landed \<Rightarrow> (Inl (map_write_err w), if landed then applied_batch ops kv else kv))"

section \<open>The contract\<close>

definition is_decided :: "bytes option \<Rightarrow> bool" where
  "is_decided v = (case v of None \<Rightarrow> False | Some b \<Rightarrow> is_terminal b)"

definition good_store :: "mem_kv \<Rightarrow> bool" where
  "good_store kv \<longleftrightarrow> kv_ok kv \<and> store_ok kv"

locale committer =
  fixes commit :: committer_fn
    and ok :: "mem_kv \<Rightarrow> bool"
  assumes ok_commit: "\<lbrakk>ok kv; list_all op_ok ops\<rbrakk> \<Longrightarrow> ok (snd (commit ops kv))"
    and untouched: "\<lbrakk>ok kv; list_all op_ok ops; k \<notin> op_key ` set ops\<rbrakk> \<Longrightarrow> kv_get (snd (commit ops kv)) k = kv_get kv k"
    and stored: "\<lbrakk>ok kv; list_all op_ok (as @ Put k v # bs); fst (commit (as @ Put k v # bs) kv) = Inr ();
        k \<notin> op_key ` set (as @ bs); \<not> is_counter_key k; \<not> is_decided (kv_get kv k)\<rbrakk>
        \<Longrightarrow> kv_get (snd (commit (as @ Put k v # bs) kv)) k = Some v"
begin

lemma stored_first:
  "\<lbrakk>ok kv; list_all op_ok (Put k v # bs); fst (commit (Put k v # bs) kv) = Inr (); k \<notin> op_key ` set bs;
    \<not> is_counter_key k; \<not> is_decided (kv_get kv k)\<rbrakk> \<Longrightarrow> kv_get (snd (commit (Put k v # bs) kv)) k = Some v"
  using stored [of kv "[]" k v bs] by simp

lemma clog_untouched:
  "\<lbrakk>ok kv; list_all op_ok ops; clog_key x \<notin> op_key ` set ops\<rbrakk> \<Longrightarrow> clog_get (snd (commit ops kv)) x = clog_get kv x"
  by (simp add: clog_get_def untouched)

end

locale replicated_committer = committer +
  assumes decided_kept: "\<lbrakk>ok kv; list_all op_ok ops; Delete k \<notin> set ops; is_clog_key k; is_decided (kv_get kv k)\<rbrakk>
      \<Longrightarrow> kv_get (snd (commit ops kv)) k = kv_get kv k"

section \<open>Both committers keep it\<close>

lemma key_step_frame: "k \<notin> op_key ` set ops \<Longrightarrow> foldl (key_step k) v ops = v"
proof (induction ops arbitrary: v)
  case (Cons w ops)
  then show ?case by (cases w) auto
qed simp

lemma op_effect_store_ok: "\<lbrakk>\<forall>k. counter_ok k (f k); list_all op_ok ops\<rbrakk> \<Longrightarrow> counter_ok k (foldl op_effect f ops k)"
proof (induction ops arbitrary: f)
  case (Cons w ops)
  have "\<forall>k. counter_ok k (op_effect f w k)" using Cons.prems by (cases w) (auto simp: counter_ok_def)
  with Cons show ?case by simp
qed simp

lemma op_effect_stored: "k \<notin> op_key ` set bs \<Longrightarrow> foldl op_effect f (as @ Put k v # bs) k = Some v"
  by (simp add: op_effect_frame)

interpretation localc: committer local_commit good_store
proof
  fix kv ops as bs k v
  show "good_store (snd (local_commit ops kv))" if "good_store kv" "list_all op_ok ops"
    using that op_effect_store_ok [of "kv_get kv" ops]
    by (auto simp: good_store_def local_commit_def store_ok_def kv_get_batch intro: kv_ok_batch)
  show "kv_get (snd (local_commit ops kv)) k = kv_get kv k" if "k \<notin> op_key ` set ops"
    using op_effect_frame [OF that] by (simp add: local_commit_def kv_get_batch)
  show "kv_get (snd (local_commit (as @ Put k v # bs) kv)) k = Some v" if "k \<notin> op_key ` set (as @ bs)"
    using op_effect_stored [of k bs "kv_get kv" as v] that
    by (simp add: local_commit_def kv_get_batch image_Un del: write_batch_simps)
qed

lemma apply_op_kv_ok: "\<lbrakk>apply_op kv w = Some kv'; kv_ok kv\<rbrakk> \<Longrightarrow> kv_ok kv'"
  by (auto simp: apply_op_def Let_def split: write_op.splits if_splits option.splits intro: kv_ok_put kv_ok_delete)

lemma apply_ops_kv_ok: "\<lbrakk>apply_ops kv ws = Some kv'; kv_ok kv\<rbrakk> \<Longrightarrow> kv_ok kv'"
  by (induction ws arbitrary: kv) (auto split: option.splits dest: apply_op_kv_ok)

lemma applied_batch_get:
  assumes "good_store kv" and "list_all op_ok ops"
  shows "kv_get (applied_batch ops kv) k = fold_key k (kv_get kv k) ops" and "good_store (applied_batch ops kv)"
proof -
  from assms obtain kv' where "apply_ops kv ops = Some kv'" "\<And>k. kv_get kv' k = fold_key k (kv_get kv k) ops" "store_ok kv'"
    using apply_ops_get [of kv ops] unfolding good_store_def by metis
  then show "kv_get (applied_batch ops kv) k = fold_key k (kv_get kv k) ops" and "good_store (applied_batch ops kv)"
    using assms(1) by (auto simp: applied_batch_def good_store_def intro: apply_ops_kv_ok)
qed

lemma fold_key_stored:
  assumes "k \<notin> op_key ` set (as @ bs)" and "\<not> is_counter_key k" and "\<not> is_decided v"
  shows "fold_key k v (as @ Put k val # bs) = Some val"
  using assms key_step_frame [of k as] key_step_frame [of k bs]
  by (auto simp: put_value_def is_decided_def image_Un split: option.splits)

interpretation raftc: replicated_committer "raft_commit w" good_store for w
proof
  fix kv ops as bs k v
  show "good_store (snd (raft_commit w ops kv))" if "good_store kv" "list_all op_ok ops"
    using that applied_batch_get(2) [OF that] by (auto simp: raft_commit_def split: client_write.splits)
  show "kv_get (snd (raft_commit w ops kv)) k = kv_get kv k"
    if "good_store kv" "list_all op_ok ops" "k \<notin> op_key ` set ops"
    using key_step_frame [OF that(3)] by (auto simp: raft_commit_def applied_batch_get(1) [OF that(1,2)] split: client_write.splits)
  show "kv_get (snd (raft_commit w (as @ Put k v # bs) kv)) k = Some v"
    if "good_store kv" "list_all op_ok (as @ Put k v # bs)" "fst (raft_commit w (as @ Put k v # bs) kv) = Inr ()"
      "k \<notin> op_key ` set (as @ bs)" "\<not> is_counter_key k" "\<not> is_decided (kv_get kv k)"
    using that(3) fold_key_stored [OF that(4-6)]
    by (auto simp: raft_commit_def applied_batch_get(1) [OF that(1,2)] split: client_write.splits)
  show "kv_get (snd (raft_commit w ops kv)) k = kv_get kv k"
    if "good_store kv" "list_all op_ok ops" "Delete k \<notin> set ops" "is_clog_key k" "is_decided (kv_get kv k)"
  proof -
    from that(5) obtain b where "kv_get kv k = Some b" "is_terminal b" by (auto simp: is_decided_def split: option.splits)
    then show ?thesis
      using decided_fold [OF that(4,3)] by (auto simp: raft_commit_def applied_batch_get(1) [OF that(1,2)] split: client_write.splits)
  qed
qed

end
