(* ===== verification/Engine.thy ===== *)
theory Engine
  imports Commit Gtm Version LockMgr
begin

text \<open>
  The engine's side of cross-range transactions: \<open>executor/src/lib.rs\<close>. Global ids and decisions are
  written through a committer; the recovery scans read a range's clog (its own store) and the global
  clog (range 0's store, \<open>catalog_kv\<close>). A scan whose bounds are inverted panics, so the scanning
  functions return an option.

  The theorems: the in-doubt scan finds exactly the undecided markers from the watermark on, the new
  watermark passes none of them, and recovery locks exactly the rows that undecided transactions
  wrote.
\<close>

section \<open>Global transactions\<close>

definition begin_global_durable :: "committer_fn \<Rightarrow> mem_kv \<Rightarrow> gtm \<Rightarrow> (exec_error + xid) \<times> mem_kv \<times> gtm" where
  "begin_global_durable commit kv gtm =
     (let (gtm, g) = begin_global gtm;
          (r, kv) = commit [next_global_xid_op gtm] kv
      in (rbind r (\<lambda>_. Inr g), kv, gtm))"

definition reseed_gtm :: "mem_kv \<Rightarrow> gtm option \<Rightarrow> exec_error + gtm option" where
  "reseed_gtm kv gtm =
     (case gtm of
        None \<Rightarrow> Inr None
      | Some gtm \<Rightarrow> rbind (gtm_reseed_from_applied kv gtm) (\<lambda>gtm. Inr (Some gtm)))"

definition commit_global_decision ::
  "committer_fn \<Rightarrow> mem_kv \<Rightarrow> gtm \<Rightarrow> xid \<Rightarrow> xid_status \<Rightarrow> (exec_error + xid_status) \<times> mem_kv" where
  "commit_global_decision commit kv gtm g status =
     (let (r, kv) = commit [clog_put_op g status, next_global_xid_op gtm] kv
      in (rbind r (\<lambda>_. map_err EKv (clog_get kv g)), kv))"

section \<open>Recovery scans\<close>

definition clog_scan_lo :: "mem_kv \<Rightarrow> u64" where
  "clog_scan_lo kv =
     (case kv_get kv clog_scan_lo_key of
        Some b \<Rightarrow> if length b = 8 then of_be b else 0
      | None \<Rightarrow> 0)"

definition advance_clog_scan_lo :: "committer_fn \<Rightarrow> mem_kv \<Rightarrow> u64 \<Rightarrow> (exec_error + unit) \<times> mem_kv" where
  "advance_clog_scan_lo commit kv lo =
     (if lo \<le> clog_scan_lo kv then (Inr (), kv)
      else commit [Put clog_scan_lo_key (be_bytes lo)] kv)"

definition terminal_in :: "mem_kv \<Rightarrow> xid \<Rightarrow> kv_error + bool" where
  "terminal_in cat g = rbind (clog_get cat g) (\<lambda>st. Inr (st = Committed \<or> st = Aborted))"

definition saturating_inc :: "u64 \<Rightarrow> u64" where
  "saturating_inc m = (if m = - 1 then m else m + 1)"

fun in_doubt_loop ::
  "mem_kv \<Rightarrow> (bytes \<times> bytes) list \<Rightarrow> u64 set \<Rightarrow> u64 option \<Rightarrow> u64 option \<Rightarrow> kv_error + (u64 set \<times> u64 option \<times> u64 option)" where
  "in_doubt_loop cat [] gs first_undecided max_li = Inr (gs, first_undecided, max_li)"
| "in_doubt_loop cat ((k, v) # es) gs first_undecided max_li =
     (case clog_xid_of k of
        None \<Rightarrow> in_doubt_loop cat es gs first_undecided max_li
      | Some li \<Rightarrow>
          rbind (clog_decode v) (\<lambda>st.
            case st of
              Prepared g \<Rightarrow>
                rbind (terminal_in cat g) (\<lambda>terminal.
                  if terminal then in_doubt_loop cat es gs first_undecided (Some li)
                  else in_doubt_loop cat es (insert g gs)
                         (case first_undecided of None \<Rightarrow> Some li | Some l \<Rightarrow> Some l) (Some li))
            | _ \<Rightarrow> in_doubt_loop cat es gs first_undecided (Some li)))"

definition in_doubt_globals_from :: "mem_kv \<Rightarrow> mem_kv \<Rightarrow> u64 \<Rightarrow> (exec_error + (u64 list \<times> u64)) option" where
  "in_doubt_globals_from kv cat scan_lo =
     map_option (\<lambda>es.
       rbind (map_err EKv (in_doubt_loop cat es {} None None)) (\<lambda>(gs, first_undecided, max_li).
         let new_scan_lo = (case first_undecided of
                              Some l \<Rightarrow> l
                            | None \<Rightarrow> (case max_li of Some m \<Rightarrow> saturating_inc m | None \<Rightarrow> scan_lo))
         in Inr (sorted_list_of_set gs, max new_scan_lo scan_lo)))
       (scan_range kv (clog_key scan_lo) (clog_key GLOBAL_XID_BASE))"

definition in_doubt_globals :: "mem_kv \<Rightarrow> mem_kv \<Rightarrow> (exec_error + u64 list) option" where
  "in_doubt_globals kv cat = map_option (\<lambda>r. rbind r (\<lambda>(gs, _). Inr gs)) (in_doubt_globals_from kv cat 0)"

fun in_doubt_markers :: "mem_kv \<Rightarrow> (bytes \<times> bytes) list \<Rightarrow> (u64, u64) btree \<Rightarrow> kv_error + (u64, u64) btree" where
  "in_doubt_markers cat [] m = Inr m"
| "in_doubt_markers cat ((k, v) # es) m =
     (case clog_xid_of k of
        None \<Rightarrow> in_doubt_markers cat es m
      | Some li \<Rightarrow>
          rbind (clog_decode v) (\<lambda>st.
            case st of
              Prepared g \<Rightarrow>
                rbind (terminal_in cat g) (\<lambda>terminal.
                  in_doubt_markers cat es (if terminal then m else bt_insert li g m))
            | _ \<Rightarrow> in_doubt_markers cat es m))"

fun reacquire_rows :: "(u64, u64) btree \<Rightarrow> (bytes \<times> bytes) list \<Rightarrow> lock_inner \<Rightarrow> lock_inner" where
  "reacquire_rows in_doubt [] lk = lk"
| "reacquire_rows in_doubt ((k, v) # es) lk =
     (case table_rowid_of k of
        None \<Rightarrow> reacquire_rows in_doubt es lk
      | Some row \<Rightarrow>
          (case xid_of_key k of
             Inl _ \<Rightarrow> reacquire_rows in_doubt es lk
           | Inr li \<Rightarrow> reacquire_rows in_doubt es (if map_of in_doubt li \<noteq> None then reacquire_exclusive lk row li else lk)))"

definition version_scan_end :: bytes where
  "version_scan_end = [0xFF, 0xFF, 0xFF, 0xFF, 0xFF]"

definition reacquire_in_doubt_locks ::
  "mem_kv \<Rightarrow> mem_kv \<Rightarrow> lock_inner \<Rightarrow> (exec_error + ((u64 \<times> u64) list \<times> lock_inner)) option" where
  "reacquire_in_doubt_locks kv cat lk =
     Option.bind (scan_range kv (clog_key (clog_scan_lo kv)) (clog_key GLOBAL_XID_BASE)) (\<lambda>es.
       case in_doubt_markers cat es [] of
         Inl e \<Rightarrow> Some (Inl (EKv e))
       | Inr in_doubt \<Rightarrow>
           if in_doubt = [] then Some (Inr ([], lk))
           else map_option (\<lambda>vs. Inr (in_doubt, reacquire_rows in_doubt vs lk))
                  (scan_range kv (table_prefix (SYSTEM_TABLE_ID + 1)) version_scan_end))"

definition release_in_doubt_lock :: "lock_inner \<Rightarrow> u64 \<Rightarrow> lock_inner" where
  "release_in_doubt_lock lk li = fst (release_all lk li)"

fun find_staged :: "u64 \<Rightarrow> (bytes \<times> bytes) list \<Rightarrow> kv_error + u64 option" where
  "find_staged g [] = Inr None"
| "find_staged g ((k, v) # es) =
     (case clog_xid_of k of
        None \<Rightarrow> find_staged g es
      | Some li \<Rightarrow> rbind (clog_decode v) (\<lambda>st. if st = Prepared g then Inr (Some li) else find_staged g es))"

definition staged_local_for :: "mem_kv \<Rightarrow> u64 \<Rightarrow> (exec_error + u64 option) option" where
  "staged_local_for kv g =
     map_option (\<lambda>es. map_err EKv (find_staged g es))
       (scan_range kv (clog_key (clog_scan_lo kv)) (clog_key GLOBAL_XID_BASE))"

definition NO_GLOBAL_SNAPSHOT :: snapshot where
  "NO_GLOBAL_SNAPSHOT = \<lparr> snap_xmin = GLOBAL_XID_BASE, snap_xmax = GLOBAL_XID_BASE, snap_xip = [] \<rparr>"

section \<open>The clog window\<close>

lemma clog_key_less: "clog_key x < clog_key y \<longleftrightarrow> x < y"
  by (simp add: clog_key_prefix)

lemma clog_key_le: "clog_key x \<le> clog_key y \<longleftrightarrow> x \<le> y"
  by (simp add: clog_key_prefix)

text \<open>The decoded entries of a scan; every entry of a readable clog decodes.\<close>

definition clog_readable :: "mem_kv \<Rightarrow> bool" where
  "clog_readable kv \<longleftrightarrow> (\<forall>x. \<exists>st. clog_get kv x = Inr st)"

fun mark_of :: "bytes \<times> bytes \<Rightarrow> (u64 \<times> xid_status) option" where
  "mark_of (k, v) = (case clog_xid_of k of None \<Rightarrow> None
     | Some li \<Rightarrow> (case clog_decode v of Inl _ \<Rightarrow> None | Inr st \<Rightarrow> Some (li, st)))"

definition marks :: "(bytes \<times> bytes) list \<Rightarrow> (u64 \<times> xid_status) list" where
  "marks es = List.map_filter mark_of es"

definition decodes :: "(bytes \<times> bytes) list \<Rightarrow> bool" where
  "decodes es \<longleftrightarrow> (\<forall>(k, v) \<in> set es. clog_xid_of k \<noteq> None \<longrightarrow> (\<exists>st. clog_decode v = Inr st))"

lemma marks_simps [simp]:
  "marks [] = []"
  "marks (e # es) = (case mark_of e of None \<Rightarrow> marks es | Some m \<Rightarrow> m # marks es)"
  by (simp_all add: marks_def map_filter_simps split: option.split)

lemma decodes_simps [simp]:
  "decodes []"
  "decodes ((k, v) # es) \<longleftrightarrow> (clog_xid_of k \<noteq> None \<longrightarrow> (\<exists>st. clog_decode v = Inr st)) \<and> decodes es"
  by (auto simp: decodes_def)

lemma set_marks: "(li, st) \<in> set (marks es) \<longleftrightarrow> (\<exists>v. (clog_key li, v) \<in> set es \<and> clog_decode v = Inr st)"
proof (induction es)
  case (Cons e es)
  obtain k v where e: "e = (k, v)" by force
  show ?case
  proof (cases "clog_xid_of k")
    case None
    then have "k \<noteq> clog_key li" by (metis clog_xid_of_eq option.distinct(1))
    with None Cons show ?thesis by (auto simp: e)
  next
    case (Some x)
    then have "k = clog_key x" by (simp add: clog_xid_of_eq)
    with Some Cons show ?thesis by (cases "clog_decode v") (auto simp: e)
  qed
qed simp

lemma sorted_marks:
  assumes "sorted_wrt (<) (map fst es)"
  shows "sorted_wrt (<) (map fst (marks es))"
  using assms
proof (induction es)
  case (Cons e es)
  obtain k v where e: "e = (k, v)" by force
  show ?case
  proof (cases "mark_of e")
    case (Some m)
    obtain li st where m: "m = (li, st)" by force
    with Some have k: "k = clog_key li" by (auto simp: e clog_xid_of_eq split: option.splits sum.splits)
    have "li < li'" if "(li', st') \<in> set (marks es)" for li' st'
    proof -
      from that obtain v' where "(clog_key li', v') \<in> set es" by (auto simp: set_marks)
      with Cons.prems have "clog_key li < clog_key li'" by (force simp: e k)
      then show ?thesis using clog_key_less by simp
    qed
    with Cons Some m show ?thesis by (auto simp: e)
  qed (use Cons in auto)
qed simp

lemma clog_readable_entry: "\<lbrakk>clog_readable kv; kv_get kv (clog_key x) = Some v\<rbrakk> \<Longrightarrow> \<exists>st. clog_decode v = Inr st"
  by (auto simp: clog_readable_def clog_get_def split: option.splits dest: spec [of _ x])

lemma clog_window_scan:
  assumes "kv_ok kv" and "clog_readable kv" and "lo \<le> GLOBAL_XID_BASE"
  obtains es where "scan_range kv (clog_key lo) (clog_key GLOBAL_XID_BASE) = Some es" and "decodes es"
    and "\<And>li st. (li, st) \<in> set (marks es) \<longleftrightarrow> lo \<le> li \<and> li < GLOBAL_XID_BASE \<and> (\<exists>v. kv_get kv (clog_key li) = Some v \<and> clog_decode v = Inr st)"
    and "sorted_wrt (<) (map fst (marks es))"
proof -
  have le: "clog_key lo \<le> clog_key GLOBAL_XID_BASE" using assms(3) by (simp add: clog_key_le)
  obtain es where es: "scan_range kv (clog_key lo) (clog_key GLOBAL_XID_BASE) = Some es"
    using memkv.scanr_total [OF assms(1) le] by blast
  note set_es = memkv.scanr_set [OF assms(1) le es]
  have "decodes es"
    unfolding decodes_def using set_es clog_readable_entry [OF assms(2)] by (auto simp: clog_xid_of_eq)
  moreover have "(li, st) \<in> set (marks es) \<longleftrightarrow> lo \<le> li \<and> li < GLOBAL_XID_BASE \<and> (\<exists>v. kv_get kv (clog_key li) = Some v \<and> clog_decode v = Inr st)" for li st
    using set_es by (auto simp: set_marks clog_key_le clog_key_less)
  ultimately show thesis using that es sorted_marks [OF memkv.scanr_sorted [OF assms(1) le es]] by blast
qed

section \<open>What the scans compute\<close>

fun undecided :: "mem_kv \<Rightarrow> u64 \<times> xid_status \<Rightarrow> bool" where
  "undecided cat (li, Prepared g) = (terminal_in cat g = Inr False)"
| "undecided cat _ = False"

lemma terminal_in_total: "clog_readable cat \<Longrightarrow> \<exists>b. terminal_in cat g = Inr b"
  by (auto simp: clog_readable_def terminal_in_def dest: spec [of _ g])

lemma terminal_in_True: "\<lbrakk>clog_readable cat; terminal_in cat g \<noteq> Inr False\<rbrakk> \<Longrightarrow> terminal_in cat g = Inr True"
  using terminal_in_total [of cat g] by (metis (full_types))

definition in_doubt_gs :: "mem_kv \<Rightarrow> (u64 \<times> xid_status) list \<Rightarrow> u64 set" where
  "in_doubt_gs cat ms = {g. \<exists>li. (li, Prepared g) \<in> set ms \<and> terminal_in cat g = Inr False}"

lemma in_doubt_gs_simps [simp]:
  "in_doubt_gs cat [] = {}"
  "in_doubt_gs cat ((li, st) # ms) =
     (case st of Prepared g \<Rightarrow> if terminal_in cat g = Inr False then insert g (in_doubt_gs cat ms) else in_doubt_gs cat ms
      | _ \<Rightarrow> in_doubt_gs cat ms)"
  by (auto simp: in_doubt_gs_def split: xid_status.splits)

lemma in_doubt_gs_finite: "finite (in_doubt_gs cat ms)"
proof (induction ms)
  case (Cons m ms)
  then show ?case by (cases m) (auto split: xid_status.splits)
qed simp

definition first_of :: "(u64 \<times> xid_status) list \<Rightarrow> u64 option" where
  "first_of ms = (case ms of [] \<Rightarrow> None | m # _ \<Rightarrow> Some (fst m))"

lemma in_doubt_loop_marks:
  assumes "decodes es" and "clog_readable cat"
  shows "in_doubt_loop cat es gs fu mx =
     Inr (gs \<union> in_doubt_gs cat (marks es),
          (case fu of Some l \<Rightarrow> Some l | None \<Rightarrow> first_of (filter (undecided cat) (marks es))),
          (if marks es = [] then mx else Some (fst (last (marks es)))))"
  using assms(1)
proof (induction es arbitrary: gs fu mx)
  case Nil
  then show ?case by (cases fu) (simp_all add: first_of_def)
next
  case (Cons e es)
  obtain k v where e: "e = (k, v)" by force
  show ?case
  proof (cases "clog_xid_of k")
    case None
    with Cons show ?thesis by (cases fu) (simp_all add: e)
  next
    case (Some li)
    with Cons.prems obtain st where st: "clog_decode v = Inr st" by (auto simp: e)
    show ?thesis
    proof (cases st)
      case (Prepared g)
      obtain b where "terminal_in cat g = Inr b" using terminal_in_total [OF assms(2)] by blast
      then show ?thesis using Cons Some st Prepared
        by (cases b; cases fu) (simp_all add: e first_of_def)
    qed (use Cons Some st in \<open>cases fu; simp add: e\<close>)+
  qed
qed

lemma filter_head_least:
  assumes "sorted_wrt (<) (map fst ms)" and "first_of (filter P ms) = Some l"
  shows "\<exists>st. (l, st) \<in> set ms \<and> P (l, st)" and "\<lbrakk>(li, st') \<in> set ms; P (li, st')\<rbrakk> \<Longrightarrow> l \<le> li"
proof -
  from assms(2) obtain m ms' where f: "filter P ms = m # ms'" and l: "l = fst m"
    by (auto simp: first_of_def split: list.splits)
  have "m \<in> set (filter P ms)" unfolding f by simp
  then have "(l, snd m) \<in> set ms \<and> P (l, snd m)" unfolding l by simp
  then show "\<exists>st. (l, st) \<in> set ms \<and> P (l, st)" ..
  have "sorted_wrt (<) (map fst (filter P ms))"
    using assms(1) by (simp add: sorted_wrt_map sorted_wrt_filter)
  moreover assume "(li, st') \<in> set ms" "P (li, st')"
  then have "(li, st') \<in> set (filter P ms)" by simp
  ultimately show "l \<le> li" unfolding f l by (auto simp: less_imp_le)
qed

lemma last_greatest:
  fixes ms :: "(u64 \<times> xid_status) list"
  assumes "sorted_wrt (<) (map fst ms)" and "(li, st) \<in> set ms"
  shows "li \<le> fst (last ms)"
proof (cases "(li, st) = last ms")
  case False
  have "ms = butlast ms @ [last ms]" using assms(2) by (intro append_butlast_last_id [symmetric]) auto
  then obtain as where as: "ms = as @ [last ms]" by blast
  then have "(li, st) \<in> set as" using assms(2) False by (metis Un_iff empty_iff empty_set in_set_conv_decomp rotate1.simps(2) set_ConsD set_append set_rotate1)
  then have "li < fst (last ms)" using assms(1) by (subst (asm) as) (force simp: sorted_wrt_append)
  then show ?thesis by simp
next
  case True
  then show ?thesis by (cases "last ms") simp
qed

lemma no_undecided: "in_doubt_gs cat ms = {} \<Longrightarrow> filter (undecided cat) ms = []"
proof (induction ms)
  case (Cons m ms)
  obtain li st where "m = (li, st)" by force
  with Cons show ?case by (cases st) (auto split: if_splits)
qed simp

lemma saturating_inc_gt: "x < GLOBAL_XID_BASE \<Longrightarrow> x < saturating_inc x"
proof -
  assume x: "x < GLOBAL_XID_BASE"
  then have "unat x + 1 < 2 ^ 64" by (simp add: GLOBAL_XID_BASE_def word_less_nat_alt)
  then have "unat (x + 1) = unat x + 1" by (simp add: unat_word_ariths)
  moreover from this have "x \<noteq> - 1" by auto
  ultimately show ?thesis by (simp add: saturating_inc_def word_less_nat_alt)
qed

text \<open>A marker of range \<open>kv\<close> that the global clog \<open>cat\<close> does not decide.\<close>

definition in_doubt :: "mem_kv \<Rightarrow> mem_kv \<Rightarrow> u64 \<Rightarrow> u64 \<Rightarrow> bool" where
  "in_doubt kv cat li g \<longleftrightarrow> clog_get kv li = Inr (Prepared g) \<and> terminal_in cat g = Inr False"

lemma prepared_stored:
  "clog_get kv li = Inr (Prepared g) \<longleftrightarrow> (\<exists>v. kv_get kv (clog_key li) = Some v \<and> clog_decode v = Inr (Prepared g))"
  by (auto simp: clog_get_def clog_decode_def split: option.splits)

lemma scan_in_doubt:
  assumes "kv_ok kv" and "clog_readable kv" and "clog_readable cat" and "lo \<le> GLOBAL_XID_BASE"
  obtains gs lo' where "in_doubt_globals_from kv cat lo = Some (Inr (gs, lo'))"
    and "set gs = {g. \<exists>li. lo \<le> li \<and> li < GLOBAL_XID_BASE \<and> in_doubt kv cat li g}" and "sorted_wrt (<) gs"
    and "lo \<le> lo'" and "lo' \<le> GLOBAL_XID_BASE" and "\<And>li g. \<lbrakk>lo \<le> li; li < lo'\<rbrakk> \<Longrightarrow> \<not> in_doubt kv cat li g"
    and "\<And>li v. \<lbrakk>gs = []; lo \<le> li; li < GLOBAL_XID_BASE; kv_get kv (clog_key li) = Some v\<rbrakk> \<Longrightarrow> li < lo'"
proof -
  from clog_window_scan [OF assms(1,2,4)] obtain es where
    es: "scan_range kv (clog_key lo) (clog_key GLOBAL_XID_BASE) = Some es" and dec: "decodes es"
    and m: "\<And>li st. (li, st) \<in> set (marks es) \<longleftrightarrow> lo \<le> li \<and> li < GLOBAL_XID_BASE \<and> (\<exists>v. kv_get kv (clog_key li) = Some v \<and> clog_decode v = Inr st)"
    and srt: "sorted_wrt (<) (map fst (marks es))" by blast
  define gs where "gs = sorted_list_of_set (in_doubt_gs cat (marks es))"
  define new where "new = (case first_of (filter (undecided cat) (marks es)) of Some l \<Rightarrow> l
      | None \<Rightarrow> (if marks es = [] then lo else saturating_inc (fst (last (marks es)))))"
  have eq: "in_doubt_globals_from kv cat lo = Some (Inr (gs, max new lo))"
    by (simp add: in_doubt_globals_from_def es in_doubt_loop_marks [OF dec assms(3)] gs_def new_def Let_def split: option.split)
  have mark: "(li, Prepared g) \<in> set (marks es) \<longleftrightarrow> lo \<le> li \<and> li < GLOBAL_XID_BASE \<and> clog_get kv li = Inr (Prepared g)" for li g
    by (simp add: m prepared_stored)
  have set_gs: "set gs = {g. \<exists>li. lo \<le> li \<and> li < GLOBAL_XID_BASE \<and> in_doubt kv cat li g}"
    unfolding gs_def set_sorted_list_of_set [OF in_doubt_gs_finite] by (auto simp: in_doubt_gs_def mark in_doubt_def)
  have bnd: "saturating_inc x \<le> GLOBAL_XID_BASE" if "x < GLOBAL_XID_BASE" for x
    using inc_le [OF that] less_imp_le [OF that] by (cases "x = - 1") (simp_all only: saturating_inc_def if_True if_False simp_thms)
  have below: "\<not> in_doubt kv cat li g" if "lo \<le> li" "li < new" "li < GLOBAL_XID_BASE" for li g
  proof
    assume d: "in_doubt kv cat li g"
    with that have mem: "(li, Prepared g) \<in> set (marks es)" and und: "undecided cat (li, Prepared g)"
      by (simp_all add: mark in_doubt_def)
    then have "(li, Prepared g) \<in> set (filter (undecided cat) (marks es))" by simp
    then obtain l where l: "first_of (filter (undecided cat) (marks es)) = Some l"
      by (cases "filter (undecided cat) (marks es)") (auto simp: first_of_def)
    have "l \<le> li" by (rule filter_head_least(2) [OF srt l mem und])
    with l that(2) show False by (simp add: new_def)
  qed
  have new_le: "new \<le> GLOBAL_XID_BASE"
  proof (cases "first_of (filter (undecided cat) (marks es))")
    case (Some l)
    with filter_head_least(1) [OF srt Some] m show ?thesis by (auto simp: new_def)
  next
    case None
    show ?thesis
    proof (cases "marks es = []")
      case False
      then have "(fst (last (marks es)), snd (last (marks es))) \<in> set (marks es)" using last_in_set by simp
      then have "fst (last (marks es)) < GLOBAL_XID_BASE" using m by blast
      with None False bnd show ?thesis by (simp add: new_def)
    qed (use None assms(4) in \<open>simp add: new_def\<close>)
  qed
  show thesis
  proof (rule that [OF eq set_gs])
    show "sorted_wrt (<) gs" unfolding gs_def by (rule strict_sorted_list_of_set)
    show "lo \<le> max new lo" by simp
    show "max new lo \<le> GLOBAL_XID_BASE" using new_le assms(4) by simp
    show "\<not> in_doubt kv cat li g" if "lo \<le> li" "li < max new lo" for li g
      using below [of li g] that new_le by (auto simp: max_def split: if_splits)
    show "li < max new lo" if none: "gs = []" and li: "lo \<le> li" "li < GLOBAL_XID_BASE" "kv_get kv (clog_key li) = Some v" for li v
    proof -
      from li(3) obtain st where "clog_decode v = Inr st" using clog_readable_entry [OF assms(2)] by blast
      with li have mem: "(li, st) \<in> set (marks es)" by (simp add: m)
      have "in_doubt_gs cat (marks es) = {}" using none in_doubt_gs_finite by (simp add: gs_def)
      then have "filter (undecided cat) (marks es) = []" by (rule no_undecided)
      with mem have new: "new = saturating_inc (fst (last (marks es)))" by (auto simp: new_def first_of_def)
      have "li \<le> fst (last (marks es))" by (rule last_greatest [OF srt mem])
      moreover have "last (marks es) \<in> set (marks es)" using mem by (intro last_in_set) auto
      then have "fst (last (marks es)) < GLOBAL_XID_BASE" using m [of "fst (last (marks es))" "snd (last (marks es))"] by simp
      ultimately show ?thesis using saturating_inc_gt by (simp add: new less_max_iff_disj order.strict_trans1)
    qed
  qed
qed

section \<open>The recovery watermark\<close>

text \<open>Every marker below the watermark is decided.\<close>

definition covered :: "mem_kv \<Rightarrow> mem_kv \<Rightarrow> u64 \<Rightarrow> bool" where
  "covered kv cat lo \<longleftrightarrow> (\<forall>li g. li < lo \<longrightarrow> \<not> in_doubt kv cat li g)"

text \<open>C16. The recovery scan finds exactly the global transactions that have a marker from the watermark
  on and no decision in the global clog, in order and without repetition. It never panics or fails on
  readable clogs, and the new watermark it returns is not below the old one, still leaves the next
  scan well defined, and passes no undecided marker: when everything below the old watermark was
  decided, so is everything below the new one.\<close>

theorem in_doubt_scan_exact:
  assumes "kv_ok kv" and "clog_readable kv" and "clog_readable cat" and "lo \<le> GLOBAL_XID_BASE"
  shows "\<exists>gs lo'. in_doubt_globals_from kv cat lo = Some (Inr (gs, lo'))
    \<and> set gs = {g. \<exists>li. lo \<le> li \<and> li < GLOBAL_XID_BASE \<and> in_doubt kv cat li g} \<and> sorted_wrt (<) gs
    \<and> lo \<le> lo' \<and> lo' \<le> GLOBAL_XID_BASE \<and> (covered kv cat lo \<longrightarrow> covered kv cat lo')"
proof (rule scan_in_doubt [OF assms])
  fix gs lo'
  assume r: "in_doubt_globals_from kv cat lo = Some (Inr (gs, lo'))"
    and gs: "set gs = {g. \<exists>li. lo \<le> li \<and> li < GLOBAL_XID_BASE \<and> in_doubt kv cat li g}" and s: "sorted_wrt (<) gs"
    and le: "lo \<le> lo'" "lo' \<le> GLOBAL_XID_BASE" and b: "\<And>li g. \<lbrakk>lo \<le> li; li < lo'\<rbrakk> \<Longrightarrow> \<not> in_doubt kv cat li g"
  have "covered kv cat lo'" if "covered kv cat lo"
    unfolding covered_def
  proof (intro allI impI)
    fix li g assume "li < lo'"
    then show "\<not> in_doubt kv cat li g" using b that by (cases "lo \<le> li") (simp_all add: covered_def not_le)
  qed
  with r gs s le show ?thesis by (intro exI conjI impI)
qed

definition sample_clog :: mem_kv where
  "sample_clog = write_batch kv_new [clog_put_op 5 (Prepared (GLOBAL_XID_BASE + 1)), clog_put_op 6 (Prepared (GLOBAL_XID_BASE + 2))]"

definition sample_global :: mem_kv where
  "sample_global = write_batch kv_new [clog_put_op (GLOBAL_XID_BASE + 1) Aborted]"

lemma strict_singleton: "sorted_wrt (<) xs \<Longrightarrow> set xs = {a :: 'a::linorder} \<Longrightarrow> xs = [a]"
  by (cases xs; cases "tl xs") (auto simp: insert_eq_iff)

lemma get_new [simp]: "kv_get kv_new k = None"
  by (simp add: kv_get_def kv_new_def)

lemma clog_get_puts:
  "clog_get (write_batch kv [clog_put_op a s]) x = (if x = a then Inr s else clog_get kv x)"
  "clog_get (write_batch kv [clog_put_op a s, clog_put_op b t]) x = (if x = b then Inr t else if x = a then Inr s else clog_get kv x)"
  by (simp_all add: clog_get_def clog_put_op_def kv_get_batch del: write_batch_simps)

lemma clog_get_new [simp]: "clog_get kv_new x = Inr InProgress"
  by (simp add: clog_get_def clog_decode_def)

lemma sample_clogs:
  "kv_ok sample_clog" "clog_readable sample_clog" "clog_readable sample_global"
  "in_doubt sample_clog sample_global li g \<longleftrightarrow> li = 6 \<and> g = GLOBAL_XID_BASE + 2"
  by (auto simp: sample_clog_def sample_global_def clog_readable_def in_doubt_def terminal_in_def clog_get_puts
      intro: kv_ok_batch simp del: write_batch_simps split: if_splits)

theorem in_doubt_scan_exact_witness:
  "\<exists>lo'. in_doubt_globals_from sample_clog sample_global 0 = Some (Inr ([GLOBAL_XID_BASE + 2], lo')) \<and> lo' \<le> 6"
proof -
  have "(0 :: u64) \<le> GLOBAL_XID_BASE" by simp
  from in_doubt_scan_exact [OF sample_clogs(1-3) this] obtain gs lo'
    where r: "in_doubt_globals_from sample_clog sample_global 0 = Some (Inr (gs, lo'))"
      and gs: "set gs = {g. \<exists>li. 0 \<le> li \<and> li < GLOBAL_XID_BASE \<and> in_doubt sample_clog sample_global li g}"
      and s: "sorted_wrt (<) gs" and c: "covered sample_clog sample_global 0 \<longrightarrow> covered sample_clog sample_global lo'" by blast
  have "(6 :: u64) < GLOBAL_XID_BASE" by (simp add: GLOBAL_XID_BASE_def word_less_nat_alt)
  then have "set gs = {GLOBAL_XID_BASE + 2}" unfolding gs by (auto simp: sample_clogs(4))
  with s have "gs = [GLOBAL_XID_BASE + 2]" by (rule strict_singleton)
  moreover have "covered sample_clog sample_global lo'" using c by (simp add: covered_def)
  then have "lo' \<le> 6" using sample_clogs(4) [of 6 "GLOBAL_XID_BASE + 2"] unfolding covered_def by (meson not_le)
  ultimately show ?thesis using r by blast
qed

section \<open>Recovery of row locks\<close>

lemma in_doubt_markers_marks:
  assumes "decodes es" and "clog_readable cat" and "sorted_wrt (<) (map fst (marks es))" and "bt_ok m"
  shows "\<exists>m'. in_doubt_markers cat es m = Inr m' \<and> bt_ok m'
    \<and> (\<forall>li g. map_of m' li = Some g \<longleftrightarrow>
          (li, Prepared g) \<in> set (marks es) \<and> terminal_in cat g = Inr False
          \<or> map_of m li = Some g \<and> (\<forall>h. (li, Prepared h) \<in> set (marks es) \<longrightarrow> terminal_in cat h \<noteq> Inr False))"
  using assms(1,3,4)
proof (induction es arbitrary: m)
  case (Cons e es)
  obtain k v where e: "e = (k, v)" by force
  show ?case
  proof (cases "clog_xid_of k")
    case None
    with Cons show ?thesis by (simp add: e)
  next
    case (Some x)
    with Cons.prems obtain st where st: "clog_decode v = Inr st" by (auto simp: e)
    have ms: "marks (e # es) = (x, st) # marks es" by (simp add: e Some st)
    have srt: "sorted_wrt (<) (map fst (marks es))" and new: "\<And>st'. (x, st') \<notin> set (marks es)"
      using Cons.prems(2) unfolding ms by force+
    have dec: "decodes es" using Cons.prems(1) by (simp add: e)
    show ?thesis
    proof (cases "undecided cat (x, st)")
      case False
      then have step: "in_doubt_markers cat (e # es) m = in_doubt_markers cat es m"
        by (cases st) (simp_all add: e Some st terminal_in_True [OF assms(2)])
      from False have nu: "(li, Prepared g) = (x, st) \<Longrightarrow> terminal_in cat g \<noteq> Inr False" for li g by auto
      show ?thesis unfolding step ms set_simps insert_iff using Cons.IH [OF dec srt Cons.prems(3)] nu by blast
    next
      case True
      then obtain g0 where g0: "st = Prepared g0" "terminal_in cat g0 = Inr False" by (cases st) auto
      have step: "in_doubt_markers cat (e # es) m = in_doubt_markers cat es (bt_insert x g0 m)"
        by (simp add: e Some st g0)
      have "bt_ok (bt_insert x g0 m)" by (rule bt_ok_insert [OF Cons.prems(3)])
      from Cons.IH [OF dec srt this] show ?thesis
        unfolding step ms set_simps insert_iff map_of_bt_insert using g0 new by auto
    qed
  qed
qed auto

definition wants_lock :: "(u64, u64) btree \<Rightarrow> (bytes \<times> bytes) list \<Rightarrow> row \<Rightarrow> u64 \<Rightarrow> bool" where
  "wants_lock ind es row li \<longleftrightarrow>
     (\<exists>(k, v) \<in> set es. table_rowid_of k = Some row \<and> xid_of_key k = Inr li \<and> map_of ind li \<noteq> None)"

lemma wants_lock_simps [simp]:
  "\<not> wants_lock ind [] row li"
  "wants_lock ind ((k, v) # es) row li \<longleftrightarrow>
     (table_rowid_of k = Some row \<and> xid_of_key k = Inr li \<and> map_of ind li \<noteq> None) \<or> wants_lock ind es row li"
  by (auto simp: wants_lock_def)

lemma holders_of_reacquire:
  "holders_of (reacquire_exclusive lk row x) row' = (if row' = row then insert x (holders_of lk row) else holders_of lk row')"
  by (auto simp: reacquire_exclusive_def holders_of_def Let_def split: option.splits)

lemma reacquire_rows_holders: "holders_of (reacquire_rows ind es lk) row = holders_of lk row \<union> {li. wants_lock ind es row li}"
proof (induction es arbitrary: lk)
  case (Cons e es)
  obtain k v where e: "e = (k, v)" by force
  show ?case
  proof (cases "table_rowid_of k")
    case (Some r)
    show ?thesis
    proof (cases "xid_of_key k")
      case (Inr x)
      have step: "reacquire_rows ind (e # es) lk = reacquire_rows ind es (if map_of ind x \<noteq> None then reacquire_exclusive lk r x else lk)"
        by (simp add: e Some Inr)
      show ?thesis unfolding step Cons.IH by (auto simp: e Some Inr holders_of_reacquire)
    qed (simp add: e Some Cons.IH)
  qed (simp add: e Cons.IH)
qed auto

text \<open>Every version key of a user table lies in the window the recovery scan reads.\<close>

lemma version_window: "t \<noteq> SYSTEM_TABLE_ID \<Longrightarrow> table_prefix (SYSTEM_TABLE_ID + 1) \<le> version_key_xid t r x \<and> version_key_xid t r x < version_scan_end"
proof
  assume t: "t \<noteq> SYSTEM_TABLE_ID"
  then have "1 \<le> t" by (simp add: SYSTEM_TABLE_ID_def word_neq_0_conv inc_le [of 0 t, simplified])
  show "table_prefix (SYSTEM_TABLE_ID + 1) \<le> version_key_xid t r x"
  proof (cases "t = 1")
    case True
    then show ?thesis by (simp add: version_key_xid_def row_key_table_prefix SYSTEM_TABLE_ID_def)
  next
    case False
    with \<open>1 \<le> t\<close> have "be_bytes (1 :: u32) < be_bytes t" by (simp del: be_bytes_u32_1)
    then have "be_bytes (1 :: u32) @ be_bytes INDEX_PRIMARY \<le> be_bytes t @ be_bytes INDEX_PRIMARY @ be_bytes r @ be_bytes x"
      by (intro less_imp_le append_less_same_length [THEN iffD2]) (simp_all del: be_bytes_u32_1)
    then show ?thesis by (simp add: version_key_xid_def row_key_append table_prefix_def put_u32_def SYSTEM_TABLE_ID_def)
  qed
  have e: "version_scan_end = be_bytes (- 1 :: u32) @ [0xFF]"
    by (simp add: version_scan_end_def be_bytes_def be_nat_numeral unsigned_minus_1_eq_mask mask_eq_exp_minus_1)
  have "be_bytes t \<le> be_bytes (- 1 :: u32)" by simp
  moreover have "be_bytes INDEX_PRIMARY @ be_bytes r @ be_bytes x < [0xFF]" by (simp add: INDEX_PRIMARY_def)
  ultimately show "version_key_xid t r x < version_scan_end"
    unfolding e version_key_xid_def row_key_append append_assoc by (subst append_less_same_length) (simp, auto simp: le_less)
qed

text \<open>The row versions of a store: every key of a user row is a version key.\<close>

definition versions_ok :: "mem_kv \<Rightarrow> bool" where
  "versions_ok kv \<longleftrightarrow> (\<forall>k t r. kv_get kv k \<noteq> None \<and> table_rowid_of k = Some (t, r) \<longrightarrow> (\<exists>x. k = version_key_xid t r x))"

definition wrote :: "mem_kv \<Rightarrow> u64 \<Rightarrow> row \<Rightarrow> bool" where
  "wrote kv x row \<longleftrightarrow> (\<exists>t r. row = (t, r) \<and> t \<noteq> SYSTEM_TABLE_ID \<and> kv_get kv (version_key_xid t r x) \<noteq> None)"

lemma version_rows:
  assumes "kv_ok kv" and "versions_ok kv"
  obtains vs where "scan_range kv (table_prefix (SYSTEM_TABLE_ID + 1)) version_scan_end = Some vs"
    and "\<And>row li. wants_lock ind vs row li \<longleftrightarrow> wrote kv li row \<and> map_of ind li \<noteq> None"
proof -
  let ?a = "table_prefix (SYSTEM_TABLE_ID + 1)"
  have le: "?a \<le> version_scan_end"
    using version_window [of 1 0 0] by (auto simp: SYSTEM_TABLE_ID_def intro: order.trans less_imp_le)
  obtain vs where vs: "scan_range kv ?a version_scan_end = Some vs" using memkv.scanr_total [OF assms(1) le] by blast
  note set_vs = memkv.scanr_set [OF assms(1) le vs]
  have "wants_lock ind vs row li \<longleftrightarrow> wrote kv li row \<and> map_of ind li \<noteq> None" for row li
  proof
    assume "wants_lock ind vs row li"
    then obtain k v where kv: "kv_get kv k = Some v" "table_rowid_of k = Some row" "xid_of_key k = Inr li" and m: "map_of ind li \<noteq> None"
      by (auto simp: wants_lock_def set_vs)
    obtain t r where row: "row = (t, r)" by force
    with assms(2) kv(1,2) obtain x where k: "k = version_key_xid t r x" unfolding versions_ok_def by blast
    with kv(3) have "x = li" by simp
    moreover have "t \<noteq> SYSTEM_TABLE_ID" using kv(2) by (simp add: row table_rowid_of_eq)
    ultimately show "wrote kv li row \<and> map_of ind li \<noteq> None" using kv(1) m k row unfolding wrote_def by auto
  next
    assume "wrote kv li row \<and> map_of ind li \<noteq> None"
    then obtain t r v where row: "row = (t, r)" and t: "t \<noteq> SYSTEM_TABLE_ID" and v: "kv_get kv (version_key_xid t r li) = Some v"
      and m: "map_of ind li \<noteq> None" unfolding wrote_def by blast
    have "(version_key_xid t r li, v) \<in> set vs" using v version_window [OF t] by (simp add: set_vs)
    moreover have "table_rowid_of (version_key_xid t r li) = Some row" using t by (simp add: row table_rowid_of_eq key_simps)
    ultimately show "wants_lock ind vs row li" using m unfolding wants_lock_def by force
  qed
  then show thesis using that vs by blast
qed

lemma reacquire_locks:
  assumes "kv_ok kv" and "clog_readable kv" and "clog_readable cat" and "clog_scan_lo kv \<le> GLOBAL_XID_BASE" and "versions_ok kv"
  obtains ps lk' where "reacquire_in_doubt_locks kv cat lk = Some (Inr (ps, lk'))"
    and "bt_ok ps" and "\<And>li g. map_of ps li = Some g \<longleftrightarrow> clog_scan_lo kv \<le> li \<and> li < GLOBAL_XID_BASE \<and> in_doubt kv cat li g"
    and "\<And>row. holders_of lk' row = holders_of lk row \<union> {li. map_of ps li \<noteq> None \<and> wrote kv li row}"
proof -
  let ?lo = "clog_scan_lo kv"
  from clog_window_scan [OF assms(1,2,4)] obtain es where
    es: "scan_range kv (clog_key ?lo) (clog_key GLOBAL_XID_BASE) = Some es" and dec: "decodes es"
    and m: "\<And>li st. (li, st) \<in> set (marks es) \<longleftrightarrow> ?lo \<le> li \<and> li < GLOBAL_XID_BASE \<and> (\<exists>v. kv_get kv (clog_key li) = Some v \<and> clog_decode v = Inr st)"
    and srt: "sorted_wrt (<) (map fst (marks es))" by blast
  from in_doubt_markers_marks [OF dec assms(3) srt bt_ok_simps(1)] obtain ps where
    ps: "in_doubt_markers cat es [] = Inr ps" "bt_ok ps"
    and mo: "\<forall>li g. map_of ps li = Some g \<longleftrightarrow> (li, Prepared g) \<in> set (marks es) \<and> terminal_in cat g = Inr False"
    by (simp only: map_of.simps option.distinct simp_thms) blast
  have mo': "map_of ps li = Some g \<longleftrightarrow> ?lo \<le> li \<and> li < GLOBAL_XID_BASE \<and> in_doubt kv cat li g" for li g
    unfolding mo [rule_format] by (simp add: m prepared_stored in_doubt_def)
  show thesis
  proof (cases "ps = []")
    case True
    have "reacquire_in_doubt_locks kv cat lk = Some (Inr ([], lk))"
      by (simp add: reacquire_in_doubt_locks_def es ps True)
    then show thesis using that [of "[]" lk] mo' True by simp
  next
    case False
    from version_rows [OF assms(1,5), of ps] obtain vs where
      vs: "scan_range kv (table_prefix (SYSTEM_TABLE_ID + 1)) version_scan_end = Some vs"
      and w: "\<And>row li. wants_lock ps vs row li \<longleftrightarrow> wrote kv li row \<and> map_of ps li \<noteq> None" by blast
    have "reacquire_in_doubt_locks kv cat lk = Some (Inr (ps, reacquire_rows ps vs lk))"
      by (simp add: reacquire_in_doubt_locks_def es ps False vs)
    moreover have "holders_of (reacquire_rows ps vs lk) row = holders_of lk row \<union> {li. map_of ps li \<noteq> None \<and> wrote kv li row}" for row
      unfolding reacquire_rows_holders w by auto
    ultimately show thesis using that ps(2) mo' by blast
  qed
qed


definition sample_range :: mem_kv where
  "sample_range = write_batch sample_clog [Put (version_key_xid 1 7 6) [1], Put (version_key_xid 1 8 5) [1]]"

lemma length_clog_key: "length (clog_key y) = 17"
  by (simp add: clog_key_prefix key_simps)

lemma version_key_not_clog [simp]: "version_key_xid t r x \<noteq> clog_key y" "clog_key y \<noteq> version_key_xid t r x"
  by (auto dest: arg_cong [of _ _ length] simp: length_clog_key length_version_key)

lemma clog_not_row [simp]: "table_rowid_of (clog_key y) = None"
proof (rule ccontr)
  assume "table_rowid_of (clog_key y) \<noteq> None"
  then obtain t r where "table_rowid_of (clog_key y) = Some (t, r)" by auto
  then obtain z where "clog_key y = row_key t r @ z" and t: "t \<noteq> 0"
    by (auto simp: table_rowid_of_eq prefix_def SYSTEM_TABLE_ID_def)
  then have "be_bytes t @ be_bytes INDEX_PRIMARY @ be_bytes r @ z = be_bytes (0 :: u32) @ ascii ''clog/'' @ be_bytes y"
    by (simp add: row_key_append system_key_bytes(6))
  then have "be_bytes t = be_bytes (0 :: u32)"
    by (rule append_eq_append_conv [THEN iffD1, THEN conjunct1, rotated]) simp
  with t show False by (simp del: be_bytes_u32_0)
qed

lemma version_row [simp]: "t \<noteq> 0 \<Longrightarrow> table_rowid_of (version_key_xid t r x) = Some (t, r)"
  by (simp add: table_rowid_of_eq key_simps SYSTEM_TABLE_ID_def)

lemma sample_range_get:
  "kv_get sample_range = [clog_key 5 \<mapsto> clog_value (Prepared (GLOBAL_XID_BASE + 1)), clog_key 6 \<mapsto> clog_value (Prepared (GLOBAL_XID_BASE + 2)),
     version_key_xid 1 7 6 \<mapsto> [1], version_key_xid 1 8 5 \<mapsto> [1]]"
  by (simp add: sample_range_def sample_clog_def kv_get_batch clog_put_op_def fun_eq_iff del: write_batch_simps)

lemma sample_range_facts:
  "kv_ok sample_range" "clog_get sample_range x = clog_get sample_clog x" "clog_scan_lo sample_range = 0" "versions_ok sample_range"
proof -
  show "kv_ok sample_range" unfolding sample_range_def by (rule kv_ok_batch) (rule sample_clogs)
  show "clog_get sample_range x = clog_get sample_clog x"
    by (simp add: clog_get_def sample_range_def kv_get_batch del: write_batch_simps)
  have "clog_scan_lo_key \<noteq> clog_key y" "clog_scan_lo_key \<noteq> version_key_xid t r y" for y t r
    using length_clog_key [of y] length_version_key [of t r y] by (auto simp: system_key_bytes dest: arg_cong [of _ _ length])
  then show "clog_scan_lo sample_range = 0" by (simp add: clog_scan_lo_def sample_range_get)
  show "versions_ok sample_range"
    unfolding versions_ok_def sample_range_get by (auto split: if_splits)
qed

lemma sample_range_in_doubt: "in_doubt sample_range sample_global li g \<longleftrightarrow> li = 6 \<and> g = GLOBAL_XID_BASE + 2"
  using sample_clogs(4) [of li g] by (simp add: in_doubt_def sample_range_facts(2))


section \<open>Staging again\<close>

lemma first_of_None: "first_of ms = None \<longleftrightarrow> ms = []"
  by (cases ms) (simp_all add: first_of_def)

lemma find_staged_marks:
  assumes "decodes es"
  shows "find_staged g es = Inr (first_of (filter (\<lambda>(li, st). st = Prepared g) (marks es)))"
  using assms
proof (induction es)
  case (Cons e es)
  obtain k v where e: "e = (k, v)" by force
  show ?case
  proof (cases "clog_xid_of k")
    case (Some li)
    with Cons.prems obtain st where "clog_decode v = Inr st" by (auto simp: e)
    with Cons Some show ?thesis by (auto simp: e first_of_def)
  qed (use Cons in \<open>simp add: e\<close>)
qed (simp add: first_of_def)

lemma staged_lookup:
  assumes "kv_ok kv" and "clog_readable kv" and "clog_scan_lo kv \<le> GLOBAL_XID_BASE"
  shows "\<exists>r. staged_local_for kv g = Some (Inr r)
    \<and> (\<forall>li. r = Some li \<longrightarrow> clog_get kv li = Inr (Prepared g))
    \<and> (r = None \<longleftrightarrow> (\<forall>li. clog_scan_lo kv \<le> li \<and> li < GLOBAL_XID_BASE \<longrightarrow> clog_get kv li \<noteq> Inr (Prepared g)))"
proof (rule clog_window_scan [OF assms])
  fix es
  assume es: "scan_range kv (clog_key (clog_scan_lo kv)) (clog_key GLOBAL_XID_BASE) = Some es" and dec: "decodes es"
    and m: "\<And>li st. (li, st) \<in> set (marks es) \<longleftrightarrow> clog_scan_lo kv \<le> li \<and> li < GLOBAL_XID_BASE \<and> (\<exists>v. kv_get kv (clog_key li) = Some v \<and> clog_decode v = Inr st)"
    and srt: "sorted_wrt (<) (map fst (marks es))"
  let ?r = "first_of (filter (\<lambda>(li, st). st = Prepared g) (marks es))"
  have "clog_get kv li = Inr (Prepared g)" if "?r = Some li" for li
    using filter_head_least(1) [OF srt that] by (auto simp: m prepared_stored)
  moreover have "?r = None \<longleftrightarrow> (\<forall>li. (li, Prepared g) \<notin> set (marks es))"
    unfolding first_of_None filter_empty_conv by auto
  ultimately show ?thesis
    by (intro exI [of _ ?r]) (auto simp: staged_local_for_def es find_staged_marks [OF dec] m prepared_stored)
qed

section \<open>Decisions\<close>

lemma next_global_op_ok [simp]: "op_ok (next_global_xid_op gtm)"
  by (simp add: next_global_xid_op_def counter_ok_def)

lemma next_global_op_key: "op_key (next_global_xid_op gtm) = meta_next_global_xid_key"
  by (simp add: next_global_xid_op_def)

lemma clog_key_not_global [simp]: "clog_key x \<noteq> meta_next_global_xid_key" "meta_next_global_xid_key \<noteq> clog_key x"
  by (simp_all add: system_key_bytes)

definition is_outcome :: "xid_status \<Rightarrow> bool" where
  "is_outcome st \<longleftrightarrow> st = Committed \<or> st = Aborted"

lemma decided_outcome: "is_decided (kv_get kv (clog_key g)) \<longleftrightarrow> (\<exists>st. clog_get kv g = Inr st \<and> is_outcome st)"
  by (auto simp: is_decided_def clog_get_def is_terminal_iff is_outcome_def clog_decode_def split: option.splits)

lemma snd_decision:
  "snd (commit_global_decision commit kv gtm g status) = snd (commit [clog_put_op g status, next_global_xid_op gtm] kv)"
  by (simp add: commit_global_decision_def split_beta Let_def)

context replicated_committer
begin

lemma decision_kept:
  assumes "ok kv" and "clog_get kv x = Inr d" and "is_outcome d"
  shows "clog_get (snd (commit_global_decision commit kv gtm g status)) x = Inr d"
proof -
  let ?ops = "[clog_put_op g status, next_global_xid_op gtm]"
  have "is_decided (kv_get kv (clog_key x))" using assms(2,3) unfolding decided_outcome by blast
  then have "kv_get (snd (commit ?ops kv)) (clog_key x) = kv_get kv (clog_key x)"
    using assms(1) by (intro decided_kept) (simp_all add: clog_put_op_def next_global_xid_op_def counter_ok_def)
  then show ?thesis using assms(2) by (simp add: snd_decision clog_get_def)
qed

lemma decision_frame:
  "\<lbrakk>ok kv; x \<noteq> g\<rbrakk> \<Longrightarrow> clog_get (snd (commit_global_decision commit kv gtm g status)) x = clog_get kv x"
  using clog_untouched [of kv "[clog_put_op g status, next_global_xid_op gtm]" x]
  by (simp add: snd_decision clog_put_op_def next_global_op_key counter_ok_def)

lemma decision_ok: "ok kv \<Longrightarrow> ok (snd (commit_global_decision commit kv gtm g status))"
  using ok_commit [of kv "[clog_put_op g status, next_global_xid_op gtm]"]
  by (simp add: snd_decision)

lemma decision_effective:
  assumes ok: "ok kv" and st: "is_outcome status" and r: "fst (commit_global_decision commit kv gtm g status) = Inr eff"
  shows "clog_get (snd (commit_global_decision commit kv gtm g status)) g = Inr eff" and "is_outcome eff"
    and "(\<exists>d. clog_get kv g = Inr d \<and> is_outcome d) \<Longrightarrow> clog_get kv g = Inr eff"
    and "\<nexists>d. clog_get kv g = Inr d \<and> is_outcome d \<Longrightarrow> eff = status"
proof -
  let ?ops = "[clog_put_op g status, next_global_xid_op gtm]"
  obtain c kv' where c: "commit ?ops kv = (c, kv')" by force
  from r have cr: "c = Inr ()" and eff: "clog_get kv' g = Inr eff"
    by (auto simp: commit_global_decision_def c)
  have s: "snd (commit_global_decision commit kv gtm g status) = kv'" by (simp add: commit_global_decision_def c)
  show "clog_get (snd (commit_global_decision commit kv gtm g status)) g = Inr eff" unfolding s by (rule eff)
  show old: "clog_get kv g = Inr eff" if "\<exists>d. clog_get kv g = Inr d \<and> is_outcome d"
    using that decision_kept [OF ok, of g _ gtm g status] eff unfolding s by auto
  show new: "eff = status" if "\<nexists>d. clog_get kv g = Inr d \<and> is_outcome d"
  proof -
    have "\<not> is_decided (kv_get kv (clog_key g))" using that unfolding decided_outcome .
    then have "kv_get kv' (clog_key g) = Some (clog_value status)"
      using stored_first [of kv "clog_key g" "clog_value status" "[next_global_xid_op gtm]"] ok cr c
      by (simp add: clog_put_op_def next_global_op_key counter_ok_def)
    then show ?thesis using eff by (simp add: clog_get_def)
  qed
  show "is_outcome eff" using st old new by fastforce
qed

end

section \<open>A marker the watermark passes\<close>

lemma prepare_marker:
  fixes g :: u64
  assumes "good_store kv" and "clog_get kv li = Inr InProgress"
  defines "kv' \<equiv> snd (raft_commit WriteOk [clog_put_op li (Prepared g)] kv)"
  shows "good_store kv'" "clog_get kv' x = (if x = li then Inr (Prepared g) else clog_get kv x)"
proof -
  have ops: "list_all op_ok [clog_put_op li (Prepared g)]" by simp
  show "good_store kv'" unfolding kv'_def by (rule raftc.ok_commit [OF assms(1) ops])
  have "\<not> is_decided (kv_get kv (clog_key li))" using assms(2) by (simp add: decided_outcome is_outcome_def)
  then have "kv_get kv' (clog_key li) = Some (clog_value (Prepared g))"
    using raftc.stored_first [of kv "clog_key li" "clog_value (Prepared g)" "[]" WriteOk] assms(1)
    by (simp add: kv'_def clog_put_op_def raft_commit_def counter_ok_def)
  then show "clog_get kv' x = (if x = li then Inr (Prepared g) else clog_get kv x)"
    using raftc.clog_untouched [OF assms(1) ops, of x WriteOk] by (auto simp: kv'_def clog_get_def clog_put_op_def simp del: clog_value.simps)
qed



end
