(* ===== verification/Session.thy ===== *)
theory Session
  imports Engine ProcArray
begin

text \<open>
  One connection's transaction state machine: \<open>SqlSession\<close> of \<open>executor/src/session.rs\<close>. A session
  is a record of its own; the handles it shares with other sessions of the same engine (store,
  transaction registry, lock table) are the record \<open>shared\<close>, passed along. Awaited calls that can
  fail (committer, linearizer, range-0 barrier) and the clock are fields of \<open>env\<close>, chosen anew for
  every statement. The statement executors of \<open>exec.rs\<close> are the record \<open>exec_fns\<close>: they receive the
  shared state and return it, so anything other sessions do while a statement waits for a lock is
  part of what they return. Match arms the source marks unreachable give the failed-block error.

  The theorems: a failed block rejects every statement but COMMIT and ROLLBACK; an error inside a
  block fails it; whatever a session does, transactions it has finished hold no lock and are not
  registered; a REPEATABLE READ block reads one snapshot; session settings follow the transaction,
  except when the closing write fails.
\<close>

section \<open>State\<close>

record shared =
  sh_kv :: mem_kv
  sh_pa :: proc_array
  sh_lk :: lock_inner

record txn_ctx =
  tc_xid :: "xid option"
  tc_snapshot :: snapshot
  tc_repeatable_read :: bool
  tc_global_snapshot :: "snapshot option"
  tc_written_rows :: "row list"
  tc_txn_now :: int

datatype txn_state = Idle | InTransaction txn_ctx | Failed txn_ctx

record guc_state =
  guc_committed :: string
  guc_session :: "string option"
  guc_local :: "string option"

record sql_session =
  se_state :: txn_state
  se_global_xid :: "xid option"
  se_guc :: guc_state
  se_has_gtm :: bool
  se_has_barrier :: bool

record 'j env =
  ev_commit :: committer_fn
  ev_linear :: "exec_error + unit"
  ev_barrier :: "exec_error + unit"
  ev_now :: int
  ev_cat :: mem_kv
  ev_ext :: "'j ext"
  ev_zone_known :: "string \<Rightarrow> bool"

datatype isolation_level = ReadCommitted | RepeatableRead

datatype set_value = SetDefault | SetValue string

datatype ('d, 'w, 'q) statement =
    SBegin "isolation_level option"
  | SCommit
  | SRollback
  | SDdl 'd
  | SWrite 'w
  | SLocking lock_mode 'q
  | SQuery 'q
  | SSet bool string set_value
  | SReset string
  | SShow string

datatype 'r query_result = EmptyResult | Command string | Rows 'r | TimeZoneRow string

text \<open>What expression evaluation sees of the session: the clock and the zone.\<close>

record eval_ctx =
  ec_now :: int
  ec_stmt_now :: int
  ec_time_zone :: string

text \<open>The statement executors: DDL, writes, reads and locking reads.\<close>

record ('d, 'w, 'q, 'r) exec_fns =
  x_ddl :: "mem_kv \<Rightarrow> 'd \<Rightarrow> exec_error + 'r query_result \<times> write_op list"
  x_write :: "mem_kv \<Rightarrow> snapshot \<Rightarrow> snapshot \<Rightarrow> xid \<Rightarrow> bool \<Rightarrow> 'w \<Rightarrow> eval_ctx \<Rightarrow> shared \<Rightarrow> (exec_error + 'r query_result \<times> write_op list) \<times> shared"
  x_read :: "mem_kv \<Rightarrow> mem_kv \<Rightarrow> snapshot \<Rightarrow> snapshot \<Rightarrow> xid option \<Rightarrow> 'q \<Rightarrow> eval_ctx \<Rightarrow> exec_error + 'r query_result"
  x_read_locking :: "mem_kv \<Rightarrow> snapshot \<Rightarrow> snapshot \<Rightarrow> xid \<Rightarrow> bool \<Rightarrow> lock_mode \<Rightarrow> 'q \<Rightarrow> eval_ctx \<Rightarrow> shared \<Rightarrow> (exec_error + 'r query_result) \<times> shared"

section \<open>Settings\<close>

definition guc_default :: guc_state where
  "guc_default = \<lparr> guc_committed = ''UTC'', guc_session = None, guc_local = None \<rparr>"

definition effective :: "guc_state \<Rightarrow> string" where
  "effective g =
     (case guc_local g of Some v \<Rightarrow> v
      | None \<Rightarrow> (case guc_session g of Some v \<Rightarrow> v | None \<Rightarrow> guc_committed g))"

definition set_session :: "guc_state \<Rightarrow> string \<Rightarrow> guc_state" where
  "set_session g v = g\<lparr> guc_session := Some v \<rparr>"

definition set_local :: "guc_state \<Rightarrow> string \<Rightarrow> guc_state" where
  "set_local g v = g\<lparr> guc_local := Some v \<rparr>"

definition guc_reset :: "guc_state \<Rightarrow> guc_state" where
  "guc_reset g = g\<lparr> guc_session := Some ''UTC'' \<rparr>"

definition guc_commit :: "guc_state \<Rightarrow> guc_state" where
  "guc_commit g =
     (let g = (case guc_session g of Some v \<Rightarrow> g\<lparr> guc_session := None, guc_committed := v \<rparr> | None \<Rightarrow> g)
      in g\<lparr> guc_local := None \<rparr>)"

definition guc_rollback :: "guc_state \<Rightarrow> guc_state" where
  "guc_rollback g = g\<lparr> guc_session := None, guc_local := None \<rparr>"

definition ascii_lower :: "char \<Rightarrow> char" where
  "ascii_lower c = (let n = of_char c :: nat in if 65 \<le> n \<and> n \<le> 90 then char_of (n + 32) else c)"

definition eq_ignore_case :: "string \<Rightarrow> string \<Rightarrow> bool" where
  "eq_ignore_case s t \<longleftrightarrow> map ascii_lower s = map ascii_lower t"

definition in_txn :: "sql_session \<Rightarrow> bool" where
  "in_txn s = (case se_state s of InTransaction _ \<Rightarrow> True | _ \<Rightarrow> False)"

definition set_guc :: "'j env \<Rightarrow> bool \<Rightarrow> string \<Rightarrow> set_value \<Rightarrow> sql_session \<Rightarrow> (exec_error + 'r query_result) \<times> sql_session" where
  "set_guc env is_local name val s =
     (if \<not> eq_ignore_case name ''timezone'' then
        (if name = ''datestyle'' \<or> name = ''intervalstyle'' then
           (let std = (if name = ''datestyle'' then ''ISO, MDY'' else ''postgres'') in
            case val of
              SetDefault \<Rightarrow> (Inr (Command ''SET''), s)
            | SetValue v \<Rightarrow> if eq_ignore_case v std then (Inr (Command ''SET''), s) else (Inl (EInvalidParameterValue v), s))
         else (Inl (EUnrecognizedParameter name), s))
      else
        (let zone = (case val of SetDefault \<Rightarrow> ''UTC'' | SetValue v \<Rightarrow> v) in
         if \<not> eq_ignore_case zone ''UTC'' \<and> \<not> ev_zone_known env zone then (Inl (EInvalidParameterValue zone), s)
         else
           (let g = (if is_local then set_local (se_guc s) zone else set_session (se_guc s) zone);
                g = (if in_txn s then g else guc_commit g)
            in (Inr (Command ''SET''), s\<lparr> se_guc := g \<rparr>))))"

definition reset_guc :: "string \<Rightarrow> sql_session \<Rightarrow> (exec_error + 'r query_result) \<times> sql_session" where
  "reset_guc name s =
     (if \<not> eq_ignore_case name ''timezone'' then (Inl (EUnrecognizedParameter name), s)
      else (let g = guc_reset (se_guc s); g = (if se_state s = Idle then guc_commit g else g)
            in (Inr (Command ''RESET''), s\<lparr> se_guc := g \<rparr>)))"

definition show_guc :: "string \<Rightarrow> sql_session \<Rightarrow> exec_error + 'r query_result" where
  "show_guc name s =
     (if \<not> eq_ignore_case name ''timezone'' then Inl (EUnrecognizedParameter name)
      else Inr (TimeZoneRow (effective (se_guc s))))"

definition eval_context :: "'j env \<Rightarrow> sql_session \<Rightarrow> eval_ctx" where
  "eval_context env s =
     (let now = (case se_state s of InTransaction c \<Rightarrow> tc_txn_now c | Failed c \<Rightarrow> tc_txn_now c | Idle \<Rightarrow> ev_now env);
          tzname = effective (se_guc s);
          zone = (if eq_ignore_case tzname ''UTC'' then ''UTC'' else if ev_zone_known env tzname then tzname else ''UTC'')
      in \<lparr> ec_now = now, ec_stmt_now = ev_now env, ec_time_zone = zone \<rparr>)"

section \<open>Snapshots\<close>

definition ensure_global_readable :: "'j env \<Rightarrow> sql_session \<Rightarrow> exec_error + unit" where
  "ensure_global_readable env s = (if se_has_barrier s then ev_barrier env else Inr ())"

definition durable_global_snapshot :: "mem_kv \<Rightarrow> exec_error + snapshot" where
  "durable_global_snapshot range0 =
     rbind (read_next_global range0) (\<lambda>nxt. Inr \<lparr> snap_xmin = GLOBAL_XID_BASE, snap_xmax = nxt, snap_xip = [] \<rparr>)"

definition global_read_snapshot :: "'j env \<Rightarrow> sql_session \<Rightarrow> snapshot option \<Rightarrow> exec_error + snapshot" where
  "global_read_snapshot env s stored =
     (case stored of
        Some sn \<Rightarrow> Inr sn
      | None \<Rightarrow> if se_has_gtm s \<or> se_has_barrier s then durable_global_snapshot (ev_cat env) else Inr NO_GLOBAL_SNAPSHOT)"

definition gates :: "'j env \<Rightarrow> sql_session \<Rightarrow> exec_error + unit" where
  "gates env s = rbind (ev_linear env) (\<lambda>_. ensure_global_readable env s)"

section \<open>Opening and closing a block\<close>

definition sess_new :: "bool \<Rightarrow> bool \<Rightarrow> sql_session" where
  "sess_new has_gtm has_barrier =
     \<lparr> se_state = Idle, se_global_xid = None, se_guc = guc_default, se_has_gtm = has_gtm, se_has_barrier = has_barrier \<rparr>"

definition begin_cmd ::
  "'j env \<Rightarrow> isolation_level option \<Rightarrow> sql_session \<Rightarrow> shared \<Rightarrow> (exec_error + 'r query_result) \<times> sql_session" where
  "begin_cmd env isolation s sh =
     (if in_txn s then (Inr (Command ''BEGIN''), s)
      else
        (let rr = (isolation = Some RepeatableRead) in
         case (if rr then gates env s else Inr ()) of
           Inl err \<Rightarrow> (Inl err, s)
         | Inr _ \<Rightarrow>
             (let snap = pa_snapshot (sh_pa sh) in
              case (if rr then rbind (global_read_snapshot env s None) (\<lambda>sn. Inr (Some sn)) else Inr None) of
                Inl err \<Rightarrow> (Inl err, s)
              | Inr gs \<Rightarrow>
                  (Inr (Command ''BEGIN''),
                   s\<lparr> se_state := InTransaction \<lparr> tc_xid = None, tc_snapshot = snap, tc_repeatable_read = rr,
                        tc_global_snapshot = gs, tc_written_rows = [], tc_txn_now = ev_now env \<rparr> \<rparr>))))"

text \<open>Deregistering a transaction and freeing its locks, as every closing path does.\<close>

definition finish_xid :: "xid \<Rightarrow> shared \<Rightarrow> shared" where
  "finish_xid x sh = sh\<lparr> sh_pa := pa_finish (sh_pa sh) x, sh_lk := fst (release_all (sh_lk sh) x) \<rparr>"

definition sh_commit :: "'j env \<Rightarrow> write_op list \<Rightarrow> shared \<Rightarrow> (exec_error + unit) \<times> shared" where
  "sh_commit env ops sh = (let (r, kv) = ev_commit env ops (sh_kv sh) in (r, sh\<lparr> sh_kv := kv \<rparr>))"

definition abort_ctx :: "'j env \<Rightarrow> txn_ctx \<Rightarrow> shared \<Rightarrow> (exec_error + unit) \<times> shared" where
  "abort_ctx env ctx sh =
     (case tc_xid ctx of
        None \<Rightarrow> (Inr (), sh)
      | Some x \<Rightarrow>
          (let (r, sh) = sh_commit env [clog_put_op x Aborted] sh
           in (r, finish_xid x sh)))"

definition commit_cmd :: "'j env \<Rightarrow> sql_session \<Rightarrow> shared \<Rightarrow> (exec_error + 'r query_result) \<times> sql_session \<times> shared" where
  "commit_cmd env s sh =
     (let s' = s\<lparr> se_state := Idle \<rparr> in
      case se_state s of
        InTransaction ctx \<Rightarrow>
          (let (r, sh) =
             (case tc_xid ctx of
                None \<Rightarrow> (Inr (), sh)
              | Some x \<Rightarrow>
                  (let ops = [clog_put_op x Committed] @ (if pa_mode (sh_pa sh) = Replicated then [next_xid_op (sh_pa sh)] else []);
                       (r, sh) = sh_commit env ops sh
                   in (r, finish_xid x sh)))
           in case r of
                Inl e \<Rightarrow> (Inl e, s', sh)
              | Inr _ \<Rightarrow> (Inr (Command ''COMMIT''), s'\<lparr> se_guc := guc_commit (se_guc s') \<rparr>, sh))
      | Failed ctx \<Rightarrow>
          (case abort_ctx env ctx sh of
             (Inl e, sh) \<Rightarrow> (Inl e, s', sh)
           | (Inr _, sh) \<Rightarrow> (Inr (Command ''ROLLBACK''), s'\<lparr> se_guc := guc_rollback (se_guc s') \<rparr>, sh))
      | Idle \<Rightarrow> (Inr (Command ''COMMIT''), s', sh))"

definition rollback_cmd :: "'j env \<Rightarrow> sql_session \<Rightarrow> shared \<Rightarrow> (exec_error + 'r query_result) \<times> sql_session \<times> shared" where
  "rollback_cmd env s sh =
     (let s' = s\<lparr> se_state := Idle \<rparr>;
          (r, sh) = (case se_state s of
                       InTransaction ctx \<Rightarrow> abort_ctx env ctx sh
                     | Failed ctx \<Rightarrow> abort_ctx env ctx sh
                     | Idle \<Rightarrow> (Inr (), sh))
      in case r of
           Inl e \<Rightarrow> (Inl e, s', sh)
         | Inr _ \<Rightarrow> (Inr (Command ''ROLLBACK''), s'\<lparr> se_guc := guc_rollback (se_guc s') \<rparr>, sh))"

definition local_xid :: "sql_session \<Rightarrow> xid option" where
  "local_xid s = (case se_state s of InTransaction c \<Rightarrow> tc_xid c | Failed c \<Rightarrow> tc_xid c | Idle \<Rightarrow> None)"

definition finish_current_txn :: "sql_session \<Rightarrow> shared \<Rightarrow> sql_session \<times> shared" where
  "finish_current_txn s sh =
     (s\<lparr> se_global_xid := None, se_state := Idle \<rparr>,
      case local_xid s of Some x \<Rightarrow> finish_xid x sh | None \<Rightarrow> sh)"

definition ensure_began :: "'j env \<Rightarrow> sql_session \<Rightarrow> shared \<Rightarrow> (exec_error + unit) \<times> sql_session" where
  "ensure_began env s sh =
     (if se_state s = Idle
      then (let (r, s) = (begin_cmd env None s sh :: (exec_error + unit query_result) \<times> sql_session) in (rbind r (\<lambda>_. Inr ()), s))
      else (Inr (), s))"

section \<open>Reads and writes\<close>

text \<open>Changing the open block's context.\<close>

definition map_ctx :: "(txn_ctx \<Rightarrow> txn_ctx) \<Rightarrow> sql_session \<Rightarrow> sql_session" where
  "map_ctx f s = (case se_state s of InTransaction c \<Rightarrow> s\<lparr> se_state := InTransaction (f c) \<rparr> | _ \<Rightarrow> s)"

definition ensure_write_xid :: "sql_session \<Rightarrow> shared \<Rightarrow> sql_session \<times> shared" where
  "ensure_write_xid s sh =
     (case se_state s of
        InTransaction c \<Rightarrow>
          if tc_xid c = None then
            (let ((kv, pa), x) = begin_write (sh_kv sh, sh_pa sh)
             in (map_ctx (\<lambda>c. c\<lparr> tc_xid := Some x \<rparr>) s, sh\<lparr> sh_kv := kv, sh_pa := pa \<rparr>))
          else (s, sh)
      | _ \<Rightarrow> (s, sh))"

definition read_context ::
  "'j env \<Rightarrow> sql_session \<Rightarrow> shared \<Rightarrow> (exec_error + snapshot \<times> xid option \<times> snapshot) \<times> sql_session" where
  "read_context env s sh =
     (case se_state s of
        InTransaction c \<Rightarrow>
          if tc_repeatable_read c then
            (rbind (global_read_snapshot env s (tc_global_snapshot c)) (\<lambda>gs. Inr (tc_snapshot c, tc_xid c, gs)), s)
          else
            (case gates env s of
               Inl e \<Rightarrow> (Inl e, s)
             | Inr _ \<Rightarrow>
                 (let snap = pa_snapshot (sh_pa sh) in
                  case global_read_snapshot env s None of
                    Inl e \<Rightarrow> (Inl e, s)
                  | Inr gs \<Rightarrow> (Inr (snap, tc_xid c, gs), map_ctx (\<lambda>c. c\<lparr> tc_snapshot := snap \<rparr>) s)))
      | _ \<Rightarrow>
          (rbind (gates env s) (\<lambda>_.
             rbind (global_read_snapshot env s None) (\<lambda>gs. Inr (pa_snapshot (sh_pa sh), None, gs))), s))"

definition run_select ::
  "('d, 'w, 'q, 'r) exec_fns \<Rightarrow> 'j env \<Rightarrow> 'q \<Rightarrow> sql_session \<Rightarrow> shared \<Rightarrow> (exec_error + 'r query_result) \<times> sql_session" where
  "run_select X env q s sh =
     (case read_context env s sh of
        (Inl e, s) \<Rightarrow> (Inl e, s)
      | (Inr (snap, own, gs), s) \<Rightarrow> (x_read X (ev_cat env) (sh_kv sh) gs snap own q (eval_context env s), s))"

text \<open>The snapshots a locking read or a write uses inside a block.\<close>

definition block_snapshots :: "'j env \<Rightarrow> sql_session \<Rightarrow> shared \<Rightarrow> sql_session \<times> (exec_error + snapshot)" where
  "block_snapshots env s sh =
     (case se_state s of
        InTransaction c \<Rightarrow>
          if tc_repeatable_read c then (s, global_read_snapshot env s (tc_global_snapshot c))
          else (map_ctx (\<lambda>c. c\<lparr> tc_snapshot := pa_snapshot (sh_pa sh) \<rparr>) s, global_read_snapshot env s None)
      | _ \<Rightarrow> (s, global_read_snapshot env s None))"

definition run_select_locking ::
  "('d, 'w, 'q, 'r) exec_fns \<Rightarrow> 'j env \<Rightarrow> lock_mode \<Rightarrow> 'q \<Rightarrow> sql_session \<Rightarrow> shared \<Rightarrow> (exec_error + 'r query_result) \<times> sql_session \<times> shared" where
  "run_select_locking X env mode q s sh =
     (case se_state s of
        InTransaction c0 \<Rightarrow>
          (case (if tc_repeatable_read c0 then Inr () else gates env s) of
             Inl e \<Rightarrow> (Inl e, s, sh)
           | Inr _ \<Rightarrow>
               (let (s, sh) = ensure_write_xid s sh;
                    (s, gs) = block_snapshots env s sh
                in case gs of
                     Inl e \<Rightarrow> (Inl e, s, sh)
                   | Inr gs \<Rightarrow>
                       (case se_state s of
                          InTransaction c \<Rightarrow>
                            (let (r, sh) = x_read_locking X (ev_cat env) gs (tc_snapshot c) (the (tc_xid c)) (tc_repeatable_read c) mode q (eval_context env s) sh
                             in (r, s, sh))
                        | _ \<Rightarrow> (Inl EInFailedTransaction, s, sh))))
      | _ \<Rightarrow>
          (case gates env s of
             Inl e \<Rightarrow> (Inl e, s, sh)
           | Inr _ \<Rightarrow>
               (let ((kv, pa), x) = begin_write (sh_kv sh, sh_pa sh);
                    sh = sh\<lparr> sh_kv := kv, sh_pa := pa \<rparr>;
                    snap = pa_snapshot (sh_pa sh)
                in case global_read_snapshot env s None of
                     Inl e \<Rightarrow> (Inl e, s, sh)
                   | Inr gs \<Rightarrow>
                       (let (r, sh) = x_read_locking X (ev_cat env) gs snap x False mode q (eval_context env s) sh
                        in (r, s, finish_xid x sh)))))"

definition run_ddl ::
  "('d, 'w, 'q, 'r) exec_fns \<Rightarrow> 'j env \<Rightarrow> 'd \<Rightarrow> shared \<Rightarrow> (exec_error + 'r query_result) \<times> shared" where
  "run_ddl X env d sh =
     (case x_ddl X (sh_kv sh) d of
        Inl e \<Rightarrow> (Inl e, sh)
      | Inr (res, ops) \<Rightarrow> (let (r, sh) = sh_commit env ops sh in (rbind r (\<lambda>_. Inr res), sh)))"

section \<open>Participants of a global transaction\<close>

text \<open>One sibling version met by the fence of \<open>effective_global_xid\<close>.\<close>

definition adopt :: "'j env \<Rightarrow> mem_kv \<Rightarrow> xid \<Rightarrow> xid \<Rightarrow> bytes \<Rightarrow> xid option \<Rightarrow> kv_error + xid option" where
  "adopt env kv li g v adopted =
     rbind (decode_tuple (ev_ext env) v) (\<lambda>(xmin, _, _).
       if xmin = li then Inr adopted
       else rbind (clog_get kv xmin) (\<lambda>st.
         case st of
           Prepared g_old \<Rightarrow>
             if g_old = g then Inr adopted
             else rbind (terminal_in (ev_cat env) g_old) (\<lambda>terminal.
               Inr (if terminal then adopted
                    else Some (case adopted of None \<Rightarrow> g_old | Some a \<Rightarrow> min a g_old)))
         | _ \<Rightarrow> Inr adopted))"

fun adopt_versions :: "'j env \<Rightarrow> mem_kv \<Rightarrow> xid \<Rightarrow> xid \<Rightarrow> (bytes \<times> bytes) list \<Rightarrow> xid option \<Rightarrow> kv_error + xid option" where
  "adopt_versions env kv li g [] adopted = Inr adopted"
| "adopt_versions env kv li g ((_, v) # vs) adopted =
     rbind (adopt env kv li g v adopted) (\<lambda>adopted. adopt_versions env kv li g vs adopted)"

fun adopt_rows :: "'j env \<Rightarrow> mem_kv \<Rightarrow> xid \<Rightarrow> xid \<Rightarrow> row list \<Rightarrow> xid option \<Rightarrow> kv_error + xid option" where
  "adopt_rows env kv li g [] adopted = Inr adopted"
| "adopt_rows env kv li g ((t, r) # rows) adopted =
     rbind (adopt_versions env kv li g (scan_prefix kv (row_key t r)) adopted) (\<lambda>adopted. adopt_rows env kv li g rows adopted)"

definition written_rows :: "sql_session \<Rightarrow> row list" where
  "written_rows s = (case se_state s of InTransaction c \<Rightarrow> tc_written_rows c | Failed c \<Rightarrow> tc_written_rows c | Idle \<Rightarrow> [])"

definition effective_global_xid :: "'j env \<Rightarrow> sql_session \<Rightarrow> mem_kv \<Rightarrow> xid \<Rightarrow> exec_error + xid" where
  "effective_global_xid env s kv g =
     (case local_xid s of
        None \<Rightarrow> Inr g
      | Some li \<Rightarrow>
          rbind (map_err EKv (adopt_rows env kv li g (written_rows s) None)) (\<lambda>adopted.
            Inr (case adopted of None \<Rightarrow> g | Some a \<Rightarrow> a)))"

definition join_global :: "'j env \<Rightarrow> xid \<Rightarrow> sql_session \<Rightarrow> shared \<Rightarrow> (exec_error + unit) \<times> sql_session \<times> shared" where
  "join_global env g s sh =
     (let s = s\<lparr> se_global_xid := Some g \<rparr> in
      case local_xid s of
        None \<Rightarrow> (Inr (), s, sh)
      | Some li \<Rightarrow>
          (case effective_global_xid env s (sh_kv sh) g of
             Inl e \<Rightarrow> (Inl e, s, sh)
           | Inr eff \<Rightarrow>
               (let s = s\<lparr> se_global_xid := Some eff \<rparr>;
                    (r, sh) = sh_commit env [clog_put_op li (Prepared eff)] sh
                in case r of
                     Inl e \<Rightarrow> (Inl e, s, sh)
                   | Inr _ \<Rightarrow> (Inr (), s, sh\<lparr> sh_pa := pa_finish (sh_pa sh) li \<rparr>))))"

definition commit_release :: "sql_session \<Rightarrow> shared \<Rightarrow> sql_session \<times> shared" where
  "commit_release s sh = finish_current_txn s sh"

definition abort_release :: "sql_session \<Rightarrow> shared \<Rightarrow> sql_session \<times> shared" where
  "abort_release s sh = finish_current_txn s sh"

section \<open>Writes\<close>

fun touched :: "write_op list \<Rightarrow> row list" where
  "touched [] = []"
| "touched (Put key _ # ops) = (case table_rowid_of key of Some row \<Rightarrow> row # touched ops | None \<Rightarrow> touched ops)"
| "touched (Delete _ # ops) = touched ops"

text \<open>The marker a participant's batch carries, and the session with the id it adopted.\<close>

definition stamp_marker :: "'j env \<Rightarrow> xid \<Rightarrow> mem_kv \<Rightarrow> sql_session \<Rightarrow> exec_error + sql_session \<times> write_op list" where
  "stamp_marker env x kv s =
     (case se_global_xid s of
        None \<Rightarrow> Inr (s, [])
      | Some g \<Rightarrow>
          rbind (effective_global_xid env s kv g) (\<lambda>eff.
            Inr (s\<lparr> se_global_xid := Some eff \<rparr>, [clog_put_op x (Prepared eff)])))"

definition fold_next_xid :: "shared \<Rightarrow> write_op list" where
  "fold_next_xid sh = (if pa_mode (sh_pa sh) = Replicated then [next_xid_op (sh_pa sh)] else [])"

definition write_in_block ::
  "('d, 'w, 'q, 'r) exec_fns \<Rightarrow> 'j env \<Rightarrow> 'w \<Rightarrow> sql_session \<Rightarrow> shared \<Rightarrow> (exec_error + 'r query_result) \<times> sql_session \<times> shared" where
  "write_in_block X env w s sh =
     (let (s, sh) = ensure_write_xid s sh in
      case ensure_global_readable env s of
        Inl e \<Rightarrow> (Inl e, s, sh)
      | Inr _ \<Rightarrow>
          (let (s, gs) = block_snapshots env s sh in
           case gs of
             Inl e \<Rightarrow> (Inl e, s, sh)
           | Inr gs \<Rightarrow>
               (case se_state s of
                  InTransaction c \<Rightarrow>
                    (let x = the (tc_xid c) in
                     case x_write X (ev_cat env) gs (tc_snapshot c) x (tc_repeatable_read c) w (eval_context env s) sh of
                       (Inl e, sh) \<Rightarrow> (Inl e, s, sh)
                     | (Inr (res, ops), sh) \<Rightarrow>
                         (let s = map_ctx (\<lambda>c. c\<lparr> tc_written_rows := tc_written_rows c @ touched ops \<rparr>) s in
                          case stamp_marker env x (sh_kv sh) s of
                            Inl e \<Rightarrow> (Inl e, s, sh)
                          | Inr (s, marker) \<Rightarrow>
                              (let (r, sh) = sh_commit env (ops @ marker @ fold_next_xid sh) sh in
                               case r of
                                 Inl e \<Rightarrow> (Inl e, s, sh)
                               | Inr _ \<Rightarrow>
                                   (Inr res, s,
                                    if se_global_xid s \<noteq> None then sh\<lparr> sh_pa := pa_finish (sh_pa sh) x \<rparr> else sh))))
                | _ \<Rightarrow> (Inl EInFailedTransaction, s, sh))))"

definition write_autocommit ::
  "('d, 'w, 'q, 'r) exec_fns \<Rightarrow> 'j env \<Rightarrow> 'w \<Rightarrow> sql_session \<Rightarrow> shared \<Rightarrow> (exec_error + 'r query_result) \<times> sql_session \<times> shared" where
  "write_autocommit X env w s sh =
     (case ensure_global_readable env s of
        Inl e \<Rightarrow> (Inl e, s, sh)
      | Inr _ \<Rightarrow>
          (let ((kv, pa), x) = begin_write (sh_kv sh, sh_pa sh);
               sh = sh\<lparr> sh_kv := kv, sh_pa := pa \<rparr>;
               snap = pa_snapshot (sh_pa sh)
           in case global_read_snapshot env s None of
                Inl e \<Rightarrow> (Inl e, s, sh)
              | Inr gs \<Rightarrow>
                  (case x_write X (ev_cat env) gs snap x False w (eval_context env s) sh of
                     (Inl e, sh) \<Rightarrow>
                       (let (_, sh) = sh_commit env [clog_put_op x Aborted] sh in (Inl e, s, finish_xid x sh))
                   | (Inr (res, ops), sh) \<Rightarrow>
                       (let (r, sh) = sh_commit env (ops @ [clog_put_op x Committed] @ fold_next_xid sh) sh
                        in (rbind r (\<lambda>_. Inr res), s, finish_xid x sh)))))"

definition run_write ::
  "('d, 'w, 'q, 'r) exec_fns \<Rightarrow> 'j env \<Rightarrow> 'w \<Rightarrow> sql_session \<Rightarrow> shared \<Rightarrow> (exec_error + 'r query_result) \<times> sql_session \<times> shared" where
  "run_write X env w s sh = (if in_txn s then write_in_block X env w s sh else write_autocommit X env w s sh)"

section \<open>Statements\<close>

definition is_failed :: "sql_session \<Rightarrow> bool" where
  "is_failed s = (case se_state s of Failed _ \<Rightarrow> True | _ \<Rightarrow> False)"

fun closes :: "('d, 'w, 'q) statement \<Rightarrow> bool" where
  "closes SCommit = True"
| "closes SRollback = True"
| "closes _ = False"

fun exec_stmt ::
  "('d, 'w, 'q, 'r) exec_fns \<Rightarrow> 'j env \<Rightarrow> ('d, 'w, 'q) statement \<Rightarrow> sql_session \<Rightarrow> shared \<Rightarrow> (exec_error + 'r query_result) \<times> sql_session \<times> shared" where
  "exec_stmt X env (SBegin isolation) s sh = (let (r, s) = begin_cmd env isolation s sh in (r, s, sh))"
| "exec_stmt X env SCommit s sh = commit_cmd env s sh"
| "exec_stmt X env SRollback s sh = rollback_cmd env s sh"
| "exec_stmt X env (SDdl d) s sh = (let (r, sh) = run_ddl X env d sh in (r, s, sh))"
| "exec_stmt X env (SWrite w) s sh = run_write X env w s sh"
| "exec_stmt X env (SLocking mode q) s sh = run_select_locking X env mode q s sh"
| "exec_stmt X env (SQuery q) s sh = (let (r, s) = run_select X env q s sh in (r, s, sh))"
| "exec_stmt X env (SSet is_local name val) s sh = (let (r, s) = set_guc env is_local name val s in (r, s, sh))"
| "exec_stmt X env (SReset name) s sh = (let (r, s) = reset_guc name s in (r, s, sh))"
| "exec_stmt X env (SShow name) s sh = (show_guc name s, s, sh)"

definition fail_block :: "sql_session \<Rightarrow> sql_session" where
  "fail_block s = s\<lparr> se_state := (case se_state s of InTransaction c \<Rightarrow> Failed c | _ \<Rightarrow> Idle) \<rparr>"

definition run_one ::
  "('d, 'w, 'q, 'r) exec_fns \<Rightarrow> 'j env \<Rightarrow> ('d, 'w, 'q) statement \<Rightarrow> sql_session \<Rightarrow> shared \<Rightarrow> (exec_error + 'r query_result) \<times> sql_session \<times> shared" where
  "run_one X env stmt s sh =
     (if is_failed s \<and> \<not> closes stmt then (Inl EInFailedTransaction, s, sh)
      else (case exec_stmt X env stmt s sh of
              (Inl e, s, sh) \<Rightarrow> (Inl e, fail_block s, sh)
            | (Inr r, s, sh) \<Rightarrow> (Inr r, s, sh)))"

text \<open>A simple query: its text as code points, parsed by \<open>parser\<close>, statements run until one fails.\<close>

definition is_whitespace :: "nat \<Rightarrow> bool" where
  "is_whitespace c \<longleftrightarrow>
     9 \<le> c \<and> c \<le> 13 \<or> c = 32 \<or> c = 133 \<or> c = 160 \<or> c = 5760 \<or> 8192 \<le> c \<and> c \<le> 8202
     \<or> c = 8232 \<or> c = 8233 \<or> c = 8239 \<or> c = 8287 \<or> c = 12288"

fun run_all ::
  "('d, 'w, 'q, 'r) exec_fns \<Rightarrow> ('j env \<times> ('d, 'w, 'q) statement) list \<Rightarrow> sql_session \<Rightarrow> shared
     \<Rightarrow> (pg_error + 'r query_result list) \<times> sql_session \<times> shared" where
  "run_all X [] s sh = (Inr [], s, sh)"
| "run_all X ((env, stmt) # rest) s sh =
     (case run_one X env stmt s sh of
        (Inl e, s, sh) \<Rightarrow> (Inl (into_pg e), s, sh)
      | (Inr res, s, sh) \<Rightarrow>
          (case run_all X rest s sh of
             (Inl e, s, sh) \<Rightarrow> (Inl e, s, sh)
           | (Inr results, s, sh) \<Rightarrow> (Inr (res # results), s, sh)))"

definition simple_query ::
  "('d, 'w, 'q, 'r) exec_fns \<Rightarrow> (nat list \<Rightarrow> parse_error + ('d, 'w, 'q) statement list) \<Rightarrow> (nat \<Rightarrow> 'j env) \<Rightarrow> nat list
     \<Rightarrow> sql_session \<Rightarrow> shared \<Rightarrow> (pg_error + 'r query_result list) \<times> sql_session \<times> shared" where
  "simple_query X parser env sql s sh =
     (if list_all is_whitespace sql then (Inr [EmptyResult], s, sh)
      else (case parser sql of
              Inl e \<Rightarrow> (Inl (into_pg (EParse e)), s, sh)
            | Inr [] \<Rightarrow> (Inr [EmptyResult], s, sh)
            | Inr stmts \<Rightarrow> run_all X (zip (map env [0 ..< length stmts]) stmts) s sh))"

definition drop_session :: "sql_session \<Rightarrow> shared \<Rightarrow> shared" where
  "drop_session s sh = snd (finish_current_txn s sh)"

datatype tx_status = TxIdle | TxInTransaction | TxFailed

definition sess_tx_status :: "sql_session \<Rightarrow> tx_status" where
  "sess_tx_status s = (case se_state s of Idle \<Rightarrow> TxIdle | InTransaction _ \<Rightarrow> TxInTransaction | Failed _ \<Rightarrow> TxFailed)"

section \<open>What a session leaves behind\<close>

text \<open>A transaction id that is neither registered nor holds a lock.\<close>

definition quiet :: "shared \<Rightarrow> xid \<Rightarrow> bool" where
  "quiet sh x \<longleftrightarrow> x \<notin> pa_running (sh_pa sh) \<and> (\<forall>row. x \<notin> holders_of (sh_lk sh) row)"

definition accounted :: "sql_session \<Rightarrow> shared \<Rightarrow> xid \<Rightarrow> bool" where
  "accounted s sh x \<longleftrightarrow> quiet sh x \<or> local_xid s = Some x"

text \<open>
  What the executors owe the ids of a set \<open>A\<close>: a statement that runs as \<open>x\<close> registers or locks
  nothing under another id of \<open>A\<close>.
\<close>

definition exec_respects :: "('d, 'w, 'q, 'r) exec_fns \<Rightarrow> xid set \<Rightarrow> bool" where
  "exec_respects X A \<longleftrightarrow>
     (\<forall>cat gs snap x rr w ctx sh y. y \<in> A \<and> y \<noteq> x \<and> quiet sh y \<longrightarrow> quiet (snd (x_write X cat gs snap x rr w ctx sh)) y) \<and>
     (\<forall>cat gs snap x rr m q ctx sh y. y \<in> A \<and> y \<noteq> x \<and> quiet sh y \<longrightarrow> quiet (snd (x_read_locking X cat gs snap x rr m q ctx sh)) y)"

lemma respectsD:
  assumes "exec_respects X A" and "y \<in> A" and "y \<noteq> x" and "quiet sh y"
  shows "x_write X cat gs snap x rr w ctx sh = (r, sh') \<Longrightarrow> quiet sh' y"
    and "x_read_locking X cat gs snap x rr m q ctx sh = (r', sh') \<Longrightarrow> quiet sh' y"
  using assms unfolding exec_respects_def by (metis snd_conv)+

definition cat_ok :: "'j env \<Rightarrow> bool" where
  "cat_ok env \<longleftrightarrow> (\<exists>n. read_next_global (ev_cat env) = Inr n)"

lemma global_snapshot_total: "cat_ok env \<Longrightarrow> \<exists>gs. global_read_snapshot env s st = Inr gs"
  by (auto simp: global_read_snapshot_def cat_ok_def durable_global_snapshot_def split: option.splits)

lemma quiet_finish [simp]: "quiet (finish_xid x sh) y \<longleftrightarrow> y = x \<or> quiet sh y"
  by (auto simp: quiet_def finish_xid_def pa_finish_def drop_holder_holders)

lemma quiet_kv [simp]: "quiet (sh\<lparr> sh_kv := kv \<rparr>) y = quiet sh y"
  by (simp add: quiet_def)

lemma quiet_pa_finish: "quiet sh y \<Longrightarrow> quiet (sh\<lparr> sh_pa := pa_finish (sh_pa sh) x \<rparr>) y"
  by (simp add: quiet_def pa_finish_def)

lemma quiet_commit: "sh_commit env ops sh = (r, sh') \<Longrightarrow> quiet sh' y = quiet sh y"
  by (auto simp: sh_commit_def split: prod.splits)

lemma quiet_begin: "begin_write (sh_kv sh, sh_pa sh) = ((kv, pa), x) \<Longrightarrow> y \<noteq> x \<Longrightarrow> quiet (sh\<lparr> sh_kv := kv, sh_pa := pa \<rparr>) y = quiet sh y"
  by (auto simp: begin_write_def quiet_def Let_def)

lemma local_xid_simps [simp]:
  "local_xid (s\<lparr> se_guc := g \<rparr>) = local_xid s" "local_xid (s\<lparr> se_global_xid := gx \<rparr>) = local_xid s"
  "local_xid (s\<lparr> se_state := Idle \<rparr>) = None" "local_xid (s\<lparr> se_state := InTransaction c \<rparr>) = tc_xid c"
  "local_xid (s\<lparr> se_state := Failed c \<rparr>) = tc_xid c"
  by (simp_all add: local_xid_def)

lemma local_xid_map_ctx: "(\<And>c. tc_xid (f c) = tc_xid c) \<Longrightarrow> local_xid (map_ctx f s) = local_xid s"
  by (simp add: map_ctx_def local_xid_def split: txn_state.splits)

lemma local_xid_block [simp]:
  "local_xid (map_ctx (\<lambda>c. c\<lparr> tc_snapshot := sn \<rparr>) s) = local_xid s"
  "local_xid (map_ctx (\<lambda>c. c\<lparr> tc_written_rows := tc_written_rows c @ rows \<rparr>) s) = local_xid s"
  "local_xid (fail_block s) = (if in_txn s then local_xid s else None)"
  by (simp_all add: local_xid_map_ctx) (simp add: fail_block_def local_xid_def in_txn_def split: txn_state.splits)

lemma ensure_write_xid_accounted:
  assumes "ensure_write_xid s sh = (s', sh')" and "accounted s sh y"
  shows "accounted s' sh' y" and "in_txn s' = in_txn s" and "in_txn s \<Longrightarrow> \<exists>c. se_state s' = InTransaction c \<and> tc_xid c \<noteq> None"
proof -
  obtain kv pa x where b: "begin_write (sh_kv sh, sh_pa sh) = ((kv, pa), x)" by (metis surj_pair)
  show "accounted s' sh' y"
    using assms quiet_begin [OF b, of y]
    by (auto simp: ensure_write_xid_def b accounted_def local_xid_def map_ctx_def split: txn_state.splits if_splits)
  show "in_txn s' = in_txn s" "in_txn s \<Longrightarrow> \<exists>c. se_state s' = InTransaction c \<and> tc_xid c \<noteq> None"
    using assms(1) by (auto simp: ensure_write_xid_def b in_txn_def map_ctx_def split: txn_state.splits if_splits)
qed

lemma block_snapshots_block:
  assumes "block_snapshots env s sh = (s', gs)" and "se_state s = InTransaction c"
  shows "\<exists>c'. se_state s' = InTransaction c' \<and> tc_xid c' = tc_xid c" and "local_xid s' = local_xid s"
    and "se_global_xid s' = se_global_xid s" and "se_guc s' = se_guc s" and "cat_ok env \<Longrightarrow> \<exists>g. gs = Inr g"
  using assms global_snapshot_total [of env s]
  by (auto simp: block_snapshots_def map_ctx_def local_xid_def split: if_splits)

lemma accounted_exec:
  assumes "exec_respects X A" and "y \<in> A" and "accounted s sh y" and "local_xid s = Some x"
  shows "x_write X cat gs snap x rr w ctx sh = (r, sh') \<Longrightarrow> accounted s sh' y"
    and "x_read_locking X cat gs snap x rr m q ctx sh = (r', sh') \<Longrightarrow> accounted s sh' y"
proof -
  have q: "quiet sh y" if "y \<noteq> x" using assms(3,4) that by (auto simp: accounted_def)
  show "x_write X cat gs snap x rr w ctx sh = (r, sh') \<Longrightarrow> accounted s sh' y"
    using respectsD(1) [OF assms(1,2) _ q] assms(4) by (cases "y = x") (auto simp: accounted_def)
  show "x_read_locking X cat gs snap x rr m q ctx sh = (r', sh') \<Longrightarrow> accounted s sh' y"
    using respectsD(2) [OF assms(1,2) _ q] assms(4) by (cases "y = x") (auto simp: accounted_def)
qed

lemma accounted_mono: "\<lbrakk>accounted s sh y; local_xid s' = local_xid s; quiet sh y \<Longrightarrow> quiet sh' y\<rbrakk> \<Longrightarrow> accounted s' sh' y"
  by (auto simp: accounted_def)

lemma stamp_marker_state: "stamp_marker env x kv s = Inr (s', m) \<Longrightarrow> local_xid s' = local_xid s \<and> se_state s' = se_state s \<and> se_guc s' = se_guc s"
  by (auto simp: stamp_marker_def split: option.splits)

lemma in_txn_map_ctx [simp]: "in_txn (map_ctx f s) = in_txn s"
  by (simp add: map_ctx_def in_txn_def split: txn_state.splits)

lemma in_txn_state: "se_state s' = se_state s \<Longrightarrow> in_txn s' = in_txn s"
  by (simp add: in_txn_def)

lemma write_in_block_accounted:
  assumes "in_txn s" and "cat_ok env" and X: "exec_respects X A" "y \<in> A" and acc: "accounted s sh y"
    and w: "write_in_block X env w s sh = (r, s', sh')"
  shows "accounted s' sh' y" and "in_txn s'"
proof -
  obtain s1 sh1 where e: "ensure_write_xid s sh = (s1, sh1)" by force
  note e1 = ensure_write_xid_accounted [OF e acc]
  obtain c1 x where c1: "se_state s1 = InTransaction c1" "tc_xid c1 = Some x" using e1(3) assms(1) by auto
  obtain s2 gs where b: "block_snapshots env s1 sh1 = (s2, gs)" by force
  note b2 = block_snapshots_block [OF b c1(1)]
  obtain c2 where c2: "se_state s2 = InTransaction c2" "tc_xid c2 = Some x" using b2(1) c1(2) by auto
  obtain g where g: "gs = Inr g" using b2(5) assms(2) by blast
  obtain xr sh3 where xw: "x_write X (ev_cat env) g (tc_snapshot c2) x (tc_repeatable_read c2) w (eval_context env s2) sh1 = (xr, sh3)" by force
  have acc2: "accounted s2 sh1 y" using e1(1) b2(2) by (auto simp: accounted_def)
  have lx: "local_xid s2 = Some x" by (simp add: local_xid_def c2)
  have acc3: "accounted s2 sh3 y" by (rule accounted_exec(1) [OF X acc2 lx xw])
  have t1: "in_txn s1" "in_txn s2" using c1 c2 by (simp_all add: in_txn_def)
  have "accounted s' sh' y \<and> in_txn s'"
  proof (cases "ensure_global_readable env s1")
    case (Inl a)
    then show ?thesis using w e1(1) t1 by (simp add: write_in_block_def e)
  next
    case (Inr u)
    show ?thesis
    proof (cases xr)
      case (Inl a)
      then show ?thesis using w acc3 t1 Inr by (simp add: write_in_block_def e b g c2 xw)
    next
      case xr: (Inr p)
      obtain res ops where p: "p = (res, ops)" by force
      let ?s = "map_ctx (\<lambda>c. c\<lparr> tc_written_rows := tc_written_rows c @ touched ops \<rparr>) s2"
      have acc4: "accounted ?s sh3 y" "in_txn ?s" using acc3 t1 by (simp_all add: accounted_def)
      show ?thesis
      proof (cases "stamp_marker env x (sh_kv sh3) ?s")
        case (Inl a)
        then show ?thesis using w acc4 Inr xr p by (auto simp: write_in_block_def e b g c2 xw)
      next
        case st: (Inr q)
        obtain s5 marker where q: "q = (s5, marker)" by force
        note s5 = stamp_marker_state [OF st [unfolded q]]
        have t5: "in_txn s5" using in_txn_state [of s5 ?s] s5 acc4(2) by simp
        obtain cr sh6 where cm: "sh_commit env (ops @ marker @ fold_next_xid sh3) sh3 = (cr, sh6)" by force
        have acc6: "accounted s5 sh6 y" using acc4(1) s5 quiet_commit [OF cm] by (simp add: accounted_def)
        show ?thesis
          using w acc6 t5 Inr xr p st q cm accounted_mono [OF acc6] quiet_pa_finish
          by (auto simp: write_in_block_def e b g c2 xw split: sum.splits if_splits)
      qed
    qed
  qed
  then show "accounted s' sh' y" and "in_txn s'" by blast+
qed

lemma abort_ctx_quiet:
  assumes "abort_ctx env ctx sh = (r, sh')" and "quiet sh y \<or> tc_xid ctx = Some y"
  shows "quiet sh' y"
proof (cases "tc_xid ctx")
  case (Some x)
  obtain r1 sh1 where c: "sh_commit env [clog_put_op x Aborted] sh = (r1, sh1)" by force
  then show ?thesis using assms Some quiet_commit [OF c, of y] by (auto simp: abort_ctx_def)
qed (use assms in \<open>simp add: abort_ctx_def\<close>)

lemma commit_cmd_quiet:
  assumes "commit_cmd env s sh = (r, s', sh')" and "accounted s sh y"
  shows "quiet sh' y" and "se_state s' = Idle"
proof -
  have "quiet sh' y \<and> se_state s' = Idle"
  proof (cases "se_state s")
    case Idle
    then show ?thesis using assms by (auto simp: commit_cmd_def accounted_def local_xid_def)
  next
    case (InTransaction ctx)
    show ?thesis
    proof (cases "tc_xid ctx")
      case None
      then show ?thesis using assms InTransaction by (auto simp: commit_cmd_def accounted_def local_xid_def)
    next
      case (Some x)
      let ?ops = "[clog_put_op x Committed] @ (if pa_mode (sh_pa sh) = Replicated then [next_xid_op (sh_pa sh)] else [])"
      obtain r1 sh1 where c: "sh_commit env ?ops sh = (r1, sh1)" by force
      then show ?thesis
        using assms InTransaction Some quiet_commit [OF c, of y]
        by (auto simp: commit_cmd_def accounted_def local_xid_def Let_def split: sum.splits)
    qed
  next
    case (Failed ctx)
    obtain r1 sh1 where c: "abort_ctx env ctx sh = (r1, sh1)" by force
    then show ?thesis
      using assms Failed abort_ctx_quiet [OF c, of y]
      by (auto simp: commit_cmd_def accounted_def local_xid_def Let_def split: sum.splits)
  qed
  then show "quiet sh' y" and "se_state s' = Idle" by blast+
qed

lemma rollback_cmd_quiet:
  assumes "rollback_cmd env s sh = (r, s', sh')" and "accounted s sh y"
  shows "quiet sh' y" and "se_state s' = Idle"
proof -
  have *: "(case (abort_ctx env ctx sh) of (r, sh) \<Rightarrow>
      case r of Inl e \<Rightarrow> (Inl e, s0, sh) | Inr _ \<Rightarrow> (Inr (Command ''ROLLBACK''), s0\<lparr> se_guc := guc_rollback (se_guc s0) \<rparr>, sh)) = (r, s', sh')
      \<Longrightarrow> se_state s0 = Idle \<Longrightarrow> quiet sh y \<or> tc_xid ctx = Some y \<Longrightarrow> quiet sh' y \<and> se_state s' = Idle" for ctx s0
    using abort_ctx_quiet [of env ctx sh _ _ y] by (auto split: prod.splits sum.splits)
  have "quiet sh' y \<and> se_state s' = Idle"
    using assms by (cases "se_state s") (auto simp: rollback_cmd_def accounted_def local_xid_def Let_def elim!: *)
  then show "quiet sh' y" and "se_state s' = Idle" by blast+
qed

lemma locking_accounted:
  assumes "\<not> is_failed s" and "cat_ok env" and X: "exec_respects X A" "y \<in> A" and acc: "accounted s sh y"
    and w: "run_select_locking X env mode q s sh = (r, s', sh')"
  shows "accounted s' sh' y" and "\<not> is_failed s'"
proof -
  have "accounted s' sh' y \<and> \<not> is_failed s'"
  proof (cases "se_state s")
    case Idle
    obtain kv pa x where b: "begin_write (sh_kv sh, sh_pa sh) = ((kv, pa), x)" by (metis surj_pair)
    obtain g where g: "global_read_snapshot env s None = Inr g" using global_snapshot_total [OF assms(2)] by blast
    let ?sh = "sh\<lparr> sh_kv := kv, sh_pa := pa \<rparr>"
    obtain r1 sh1 where x: "x_read_locking X (ev_cat env) g (pa_snapshot pa) x False mode q (eval_context env s) ?sh = (r1, sh1)" by force
    have q: "quiet sh y" using acc Idle by (simp add: accounted_def local_xid_def)
    have "y = x \<or> quiet sh1 y" using respectsD(2) [OF X _ _ x] quiet_begin [OF b, of y] q by blast
    then show ?thesis
      using w Idle acc assms(1) by (auto simp: run_select_locking_def b g x accounted_def split: sum.splits)
  next
    case (InTransaction c0)
    obtain s1 sh1 where e: "ensure_write_xid s sh = (s1, sh1)" by force
    note e1 = ensure_write_xid_accounted [OF e acc]
    obtain c1 x where c1: "se_state s1 = InTransaction c1" "tc_xid c1 = Some x"
      using e1(3) InTransaction by (auto simp: in_txn_def)
    obtain s2 gs where b: "block_snapshots env s1 sh1 = (s2, gs)" by force
    note b2 = block_snapshots_block [OF b c1(1)]
    obtain c2 where c2: "se_state s2 = InTransaction c2" "tc_xid c2 = Some x" using b2(1) c1(2) by auto
    obtain g where g: "gs = Inr g" using b2(5) assms(2) by blast
    obtain r1 sh3 where x: "x_read_locking X (ev_cat env) g (tc_snapshot c2) x (tc_repeatable_read c2) mode q (eval_context env s2) sh1 = (r1, sh3)" by force
    have acc2: "accounted s2 sh1 y" using e1(1) b2(2) by (auto simp: accounted_def)
    have lx: "local_xid s2 = Some x" by (simp add: local_xid_def c2)
    have "accounted s2 sh3 y" by (rule accounted_exec(2) [OF X acc2 lx x])
    then show ?thesis
      using w InTransaction acc c2
      by (auto simp: run_select_locking_def e b g x is_failed_def split: sum.splits if_splits)
  next
    case (Failed c)
    then show ?thesis using assms(1) by (simp add: is_failed_def)
  qed
  then show "accounted s' sh' y" and "\<not> is_failed s'" by blast+
qed

lemma autocommit_accounted:
  assumes "se_state s = Idle" and "cat_ok env" and X: "exec_respects X A" "y \<in> A" and acc: "accounted s sh y"
    and w: "write_autocommit X env w s sh = (r, s', sh')"
  shows "accounted s' sh' y" and "s' = s"
proof -
  obtain kv pa x where b: "begin_write (sh_kv sh, sh_pa sh) = ((kv, pa), x)" by (metis surj_pair)
  obtain g where g: "global_read_snapshot env s None = Inr g" using global_snapshot_total [OF assms(2)] by blast
  let ?sh = "sh\<lparr> sh_kv := kv, sh_pa := pa \<rparr>"
  obtain r1 sh1 where x: "x_write X (ev_cat env) g (pa_snapshot pa) x False w (eval_context env s) ?sh = (r1, sh1)" by force
  have q: "quiet sh y" using acc assms(1) by (simp add: accounted_def local_xid_def)
  have "y = x \<or> quiet sh1 y" using respectsD(1) [OF X _ _ x] quiet_begin [OF b, of y] q by blast
  then have "accounted s' sh' y \<and> s' = s"
    using w acc quiet_commit [of env _ sh1 _ _ y]
    by (auto simp: write_autocommit_def b g x accounted_def split: sum.splits prod.splits)
  then show "accounted s' sh' y" and "s' = s" by blast+
qed

lemma begin_accounted:
  assumes "\<not> is_failed s" and "begin_cmd env il s sh = (r, s')" and "accounted s sh y"
  shows "accounted s' sh y" and "\<not> is_failed s'"
  using assms
  by (auto simp: begin_cmd_def accounted_def local_xid_def is_failed_def in_txn_def Let_def split: txn_state.splits sum.splits if_splits)

lemma read_context_block: "read_context env s sh = (r, s') \<Longrightarrow> local_xid s' = local_xid s \<and> is_failed s' = is_failed s \<and> in_txn s' = in_txn s"
  by (auto simp: read_context_def map_ctx_def local_xid_def is_failed_def in_txn_def Let_def split: txn_state.splits sum.splits if_splits)

lemma run_select_block: "run_select X env q s sh = (r, s') \<Longrightarrow> local_xid s' = local_xid s \<and> is_failed s' = is_failed s \<and> in_txn s' = in_txn s"
  using read_context_block [of env s sh] by (auto simp: run_select_def split: prod.splits sum.splits)

lemma guc_stmt_block:
  "set_guc env is_local name val s = (r, s') \<Longrightarrow> local_xid s' = local_xid s \<and> is_failed s' = is_failed s \<and> in_txn s' = in_txn s"
  "reset_guc name s = (r, s') \<Longrightarrow> local_xid s' = local_xid s \<and> is_failed s' = is_failed s \<and> in_txn s' = in_txn s"
  by (auto simp: set_guc_def reset_guc_def is_failed_def in_txn_def Let_def split: if_splits set_value.splits)

lemma run_ddl_quiet: "run_ddl X env d sh = (r, sh') \<Longrightarrow> quiet sh' y = quiet sh y"
  using quiet_commit [of env _ sh _ _ y] by (auto simp: run_ddl_def split: sum.splits prod.splits)

lemma not_failed_states: "\<not> is_failed s \<Longrightarrow> \<not> in_txn s \<Longrightarrow> se_state s = Idle"
  by (simp add: is_failed_def in_txn_def split: txn_state.splits)

lemma in_txn_not_failed: "in_txn s \<Longrightarrow> \<not> is_failed s"
  by (simp add: is_failed_def in_txn_def split: txn_state.splits)

lemma exec_stmt_accounted:
  assumes "\<not> is_failed s \<or> closes stmt" and "cat_ok env" and X: "exec_respects X A" "y \<in> A" and acc: "accounted s sh y"
    and w: "exec_stmt X env stmt s sh = (r, s', sh')"
  shows "accounted s' sh' y" and "\<not> is_failed s'"
proof -
  have idle: "\<not> is_failed s'" if "se_state s' = Idle" using that by (simp add: is_failed_def)
  have q: "accounted s' sh' y" if "quiet sh' y" using that by (simp add: accounted_def)
  have "accounted s' sh' y \<and> \<not> is_failed s'"
  proof (cases stmt)
    case SCommit
    then show ?thesis using w commit_cmd_quiet [OF _ acc] idle q by fastforce
  next
    case SRollback
    then show ?thesis using w rollback_cmd_quiet [OF _ acc] idle q by fastforce
  next
    case (SBegin il)
    then show ?thesis using w assms(1) by (auto split: prod.splits dest: begin_accounted [OF _ _ acc])
  next
    case (SDdl d)
    then show ?thesis using w assms(1) acc by (auto simp: accounted_def run_ddl_quiet split: prod.splits)
  next
    case (SWrite u)
    show ?thesis
    proof (cases "in_txn s")
      case True
      with w SWrite have wb: "write_in_block X env u s sh = (r, s', sh')" by (simp add: run_write_def)
      show ?thesis using write_in_block_accounted [OF True assms(2) X acc wb] in_txn_not_failed by blast
    next
      case False
      with SWrite assms(1) have i: "se_state s = Idle" using not_failed_states by auto
      from w SWrite False have wa: "write_autocommit X env u s sh = (r, s', sh')" by (simp add: run_write_def)
      show ?thesis using autocommit_accounted [OF i assms(2) X acc wa] i by (simp add: is_failed_def)
    qed
  next
    case (SLocking mode u)
    then show ?thesis using w assms(1) locking_accounted [OF _ assms(2) X acc] by auto
  next
    case (SQuery u)
    then show ?thesis using w assms(1) acc run_select_block [of X env u s sh] by (auto simp: accounted_def split: prod.splits)
  next
    case (SSet is_local name val)
    then show ?thesis using w assms(1) acc guc_stmt_block(1) [of env is_local name val s] by (auto simp: accounted_def split: prod.splits)
  next
    case (SReset name)
    then show ?thesis using w assms(1) acc guc_stmt_block(2) [of name s] by (auto simp: accounted_def split: prod.splits)
  next
    case (SShow name)
    then show ?thesis using w assms(1) acc by auto
  qed
  then show "accounted s' sh' y" and "\<not> is_failed s'" by blast+
qed

lemma run_one_accounted:
  assumes "cat_ok env" and "exec_respects X A" and "y \<in> A" and "accounted s sh y" and "run_one X env stmt s sh = (r, s', sh')"
  shows "accounted s' sh' y"
proof (cases "is_failed s \<and> \<not> closes stmt")
  case False
  then have c: "\<not> is_failed s \<or> closes stmt" by blast
  obtain r1 s1 sh1 where e: "exec_stmt X env stmt s sh = (r1, s1, sh1)" by (metis surj_pair)
  note a = exec_stmt_accounted [OF c assms(1-4) e]
  have "local_xid (fail_block s1) = local_xid s1"
    using not_failed_states [OF a(2)] by (cases "in_txn s1") (simp_all add: local_xid_def [of s1])
  with a(1) have "accounted (fail_block s1) sh1 y" by (simp add: accounted_def)
  then show ?thesis using assms(5) False a by (auto simp: run_one_def e split: sum.splits)
qed (use assms in \<open>simp add: run_one_def\<close>)

text \<open>
  Everything that can happen to a session and the state it shares: a statement, the participant
  calls of a global transaction, and steps of others, which never register or lock under the ids
  of \<open>A\<close>, the ids handed to this session.
\<close>

inductive session_step :: "'j ext \<Rightarrow> ('d, 'w, 'q, 'r) exec_fns \<Rightarrow> xid set \<Rightarrow> sql_session \<times> shared \<Rightarrow> sql_session \<times> shared \<Rightarrow> bool"
  for E X A where
  step_run: "\<lbrakk>ev_ext env = E; cat_ok env; run_one X env stmt s sh = (r, s', sh')\<rbrakk> \<Longrightarrow> session_step E X A (s, sh) (s', sh')"
| step_began: "\<lbrakk>ev_ext env = E; ensure_began env s sh = (r, s')\<rbrakk> \<Longrightarrow> session_step E X A (s, sh) (s', sh)"
| step_join: "\<lbrakk>ev_ext env = E; join_global env g s sh = (r, s', sh')\<rbrakk> \<Longrightarrow> session_step E X A (s, sh) (s', sh')"
| step_commit_release: "commit_release s sh = (s', sh') \<Longrightarrow> session_step E X A (s, sh) (s', sh')"
| step_abort_release: "abort_release s sh = (s', sh') \<Longrightarrow> session_step E X A (s, sh) (s', sh')"
| step_others: "(\<And>x. x \<in> A \<Longrightarrow> quiet sh x \<Longrightarrow> quiet sh' x) \<Longrightarrow> session_step E X A (s, sh) (s, sh')"

inductive_cases session_stepE: "session_step E X A (s, sh) (s', sh')"

lemma ensure_began_accounted: "\<lbrakk>ensure_began env s sh = (r, s'); accounted s sh y\<rbrakk> \<Longrightarrow> accounted s' sh y"
  using begin_accounted [of s env None sh _ s' y]
  by (auto simp: ensure_began_def is_failed_def split: if_splits prod.splits)

lemma join_global_accounted:
  assumes "join_global env g s sh = (r, s', sh')" and "accounted s sh y"
  shows "accounted s' sh' y"
proof (cases "local_xid s")
  case (Some li)
  let ?s = "s\<lparr> se_global_xid := Some g \<rparr>"
  show ?thesis
  proof (cases "effective_global_xid env ?s (sh_kv sh) g")
    case (Inr eff)
    obtain r1 sh1 where c: "sh_commit env [clog_put_op li (Prepared eff)] sh = (r1, sh1)" by force
    then show ?thesis
      using assms Some Inr quiet_commit [OF c, of y]
      by (auto simp: join_global_def accounted_def Let_def intro!: quiet_pa_finish split: sum.splits)
  qed (use assms Some in \<open>auto simp: join_global_def accounted_def\<close>)
qed (use assms in \<open>auto simp: join_global_def accounted_def\<close>)

lemma release_accounted: "\<lbrakk>finish_current_txn s sh = (s', sh'); accounted s sh y\<rbrakk> \<Longrightarrow> accounted s' sh' y \<and> quiet sh' y"
  by (auto simp: finish_current_txn_def accounted_def split: option.splits)

lemma session_step_accounted:
  assumes "session_step E X A (s, sh) (s', sh')" and "exec_respects X A" and "y \<in> A" and "accounted s sh y"
  shows "accounted s' sh' y"
  using assms(1)
proof (rule session_stepE)
  fix env stmt r
  assume "cat_ok env" "run_one X env stmt s sh = (r, s', sh')"
  then show ?thesis using run_one_accounted assms by blast
next
  fix env and r
  assume "sh' = sh" "ensure_began env s sh = (r, s')"
  then show ?thesis using ensure_began_accounted assms by blast
next
  fix env and g r
  assume "join_global env g s sh = (r, s', sh')"
  then show ?thesis using join_global_accounted assms by blast
qed (use assms release_accounted in \<open>auto simp: commit_release_def abort_release_def accounted_def\<close>)

lemma session_steps_accounted:
  assumes "(session_step E X A)\<^sup>*\<^sup>* (s, sh) (s', sh')" and "exec_respects X A" and "y \<in> A" and "accounted s sh y"
  shows "accounted s' sh' y"
  using assms(1)
proof (induction "(s', sh')" arbitrary: s' sh' rule: rtranclp_induct)
  case (step b)
  then show ?case using session_step_accounted [OF _ assms(2,3)] by (cases b) auto
qed (use assms in auto)

section \<open>What a block keeps\<close>

text \<open>
  The parts of a block's context that no statement inside it changes: its isolation level, its
  start time, its id once it has one, and for REPEATABLE READ both snapshots.
\<close>

definition same_block :: "sql_session \<Rightarrow> sql_session \<Rightarrow> bool" where
  "same_block s s' \<longleftrightarrow>
     (\<exists>c c'. se_state s = InTransaction c \<and> se_state s' = InTransaction c'
        \<and> tc_repeatable_read c' = tc_repeatable_read c \<and> tc_txn_now c' = tc_txn_now c
        \<and> tc_global_snapshot c' = tc_global_snapshot c \<and> (tc_repeatable_read c \<longrightarrow> tc_snapshot c' = tc_snapshot c)
        \<and> (tc_xid c \<noteq> None \<longrightarrow> tc_xid c' = tc_xid c))"

lemma same_block_refl: "in_txn s \<Longrightarrow> same_block s s"
  by (auto simp: same_block_def in_txn_def split: txn_state.splits)

lemma same_block_trans: "\<lbrakk>same_block s s'; same_block s' s''\<rbrakk> \<Longrightarrow> same_block s s''"
  by (auto simp: same_block_def)

lemma same_block_txn: "same_block s s' \<Longrightarrow> in_txn s \<and> in_txn s'"
  by (auto simp: same_block_def in_txn_def)

lemma same_block_state: "\<lbrakk>same_block s s'; se_state s'' = se_state s'\<rbrakk> \<Longrightarrow> same_block s s''"
  by (simp add: same_block_def)

lemma same_block_rows: "same_block s s' \<Longrightarrow> same_block s (map_ctx (\<lambda>c. c\<lparr> tc_written_rows := tc_written_rows c @ rows \<rparr>) s')"
  by (auto simp: same_block_def map_ctx_def)

lemma same_block_ensure: "in_txn s \<Longrightarrow> ensure_write_xid s sh = (s', sh') \<Longrightarrow> same_block s s'"
  by (auto simp: ensure_write_xid_def same_block_def in_txn_def map_ctx_def split: txn_state.splits prod.splits if_splits)

lemma same_block_snapshots: "in_txn s \<Longrightarrow> block_snapshots env s sh = (s', gs) \<Longrightarrow> same_block s s'"
  by (auto simp: block_snapshots_def same_block_def in_txn_def map_ctx_def split: txn_state.splits if_splits)

lemma same_block_select: "in_txn s \<Longrightarrow> run_select X env q s sh = (r, s') \<Longrightarrow> same_block s s'"
  by (auto simp: run_select_def read_context_def same_block_def in_txn_def map_ctx_def Let_def
      split: txn_state.splits prod.splits sum.splits if_splits)

lemma same_block_write:
  assumes "in_txn s" and w: "write_in_block X env w s sh = (r, s', sh')"
  shows "same_block s s'"
proof -
  obtain s1 sh1 where e: "ensure_write_xid s sh = (s1, sh1)" by force
  obtain s2 gs where b: "block_snapshots env s1 sh1 = (s2, gs)" by force
  have 1: "same_block s s1" using same_block_ensure [OF assms(1) e] .
  have 2: "same_block s s2" using same_block_snapshots [OF _ b] same_block_txn [OF 1] same_block_trans [OF 1] by blast
  have 3: "same_block s s5" if "stamp_marker env' x kv (map_ctx (\<lambda>c. c\<lparr> tc_written_rows := tc_written_rows c @ rows \<rparr>) s2) = Inr (s5, m)" for env' :: "'e env" and x kv rows s5 m
    using same_block_state [OF same_block_rows [OF 2]] stamp_marker_state [OF that] by blast
  show ?thesis
    using w 1 2 3 same_block_rows [OF 2]
    by (auto simp: write_in_block_def e b Let_def split: sum.splits prod.splits txn_state.splits)
qed

lemma same_block_locking:
  assumes "in_txn s" and w: "run_select_locking X env mode q s sh = (r, s', sh')"
  shows "same_block s s'"
proof -
  obtain s1 sh1 where e: "ensure_write_xid s sh = (s1, sh1)" by force
  obtain s2 gs where b: "block_snapshots env s1 sh1 = (s2, gs)" by force
  have 1: "same_block s s1" using same_block_ensure [OF assms(1) e] .
  have 2: "same_block s s2" using same_block_snapshots [OF _ b] same_block_txn [OF 1] same_block_trans [OF 1] by blast
  from assms(1) obtain c0 where "se_state s = InTransaction c0" by (auto simp: in_txn_def split: txn_state.splits)
  then show ?thesis
    using w 1 2 same_block_refl [OF assms(1)]
    by (auto simp: run_select_locking_def e b split: sum.splits prod.splits txn_state.splits if_splits)
qed

lemma exec_stmt_same_block:
  assumes t: "in_txn s" and "\<not> closes stmt" and "exec_stmt X env stmt s sh = (r, s', sh')"
  shows "same_block s s'"
proof (cases stmt)
  case (SBegin il)
  then show ?thesis using assms same_block_refl by (auto simp: begin_cmd_def)
next
  case (SSet is_local name val)
  then have "se_state s' = se_state s"
    using assms(3) by (auto simp: set_guc_def Let_def split: if_splits set_value.splits)
  then show ?thesis using same_block_state [OF same_block_refl [OF t]] by blast
next
  case (SReset name)
  then have "se_state s' = se_state s" using assms(3) by (auto simp: reset_guc_def Let_def split: if_splits)
  then show ?thesis using same_block_state [OF same_block_refl [OF t]] by blast
qed (use assms in \<open>auto simp: run_write_def split: prod.splits
       intro: same_block_refl same_block_write same_block_locking same_block_select\<close>)

lemma run_one_in_block:
  assumes "in_txn s" and "\<not> closes stmt" and "run_one X env stmt s sh = (r, s', sh')"
  shows "case r of Inl _ \<Rightarrow> is_failed s' \<and> (\<forall>x. local_xid s = Some x \<longrightarrow> local_xid s' = Some x) | Inr _ \<Rightarrow> same_block s s'"
proof -
  obtain r1 s1 sh1 where e: "exec_stmt X env stmt s sh = (r1, s1, sh1)" by (metis surj_pair)
  have b: "same_block s s1" by (rule exec_stmt_same_block [OF assms(1,2) e])
  then have "is_failed (fail_block s1) \<and> (\<forall>x. local_xid s = Some x \<longrightarrow> local_xid (fail_block s1) = Some x)"
    by (auto simp: same_block_def fail_block_def is_failed_def local_xid_def)
  then show ?thesis using assms(3) b in_txn_not_failed [OF assms(1)] by (auto simp: run_one_def e split: sum.splits)
qed

lemma run_one_failed: "\<lbrakk>is_failed s; \<not> closes stmt\<rbrakk> \<Longrightarrow> run_one X env stmt s sh = (Inl EInFailedTransaction, s, sh)"
  by (simp add: run_one_def)

section \<open>Settings inside a block\<close>

text \<open>The value a statement assigns to the zone for the rest of the session, if it does.\<close>

fun assigns :: "'j env \<Rightarrow> ('d, 'w, 'q) statement \<Rightarrow> string option" where
  "assigns env (SSet is_local name val) =
     (let zone = (case val of SetDefault \<Rightarrow> ''UTC'' | SetValue v \<Rightarrow> v)
      in if \<not> is_local \<and> eq_ignore_case name ''timezone'' \<and> (eq_ignore_case zone ''UTC'' \<or> ev_zone_known env zone)
         then Some zone else None)"
| "assigns env (SReset name) = (if eq_ignore_case name ''timezone'' then Some ''UTC'' else None)"
| "assigns env stmt = None"

fun last_assigned :: "string \<Rightarrow> ('j env \<times> ('d, 'w, 'q) statement) list \<Rightarrow> string" where
  "last_assigned z [] = z"
| "last_assigned z ((env, stmt) # rest) = last_assigned (case assigns env stmt of Some v \<Rightarrow> v | None \<Rightarrow> z) rest"

lemma guc_map_ctx [simp]: "se_guc (map_ctx f s) = se_guc s"
  by (simp add: map_ctx_def split: txn_state.splits)

lemma guc_ensure: "ensure_write_xid s sh = (s', sh') \<Longrightarrow> se_guc s' = se_guc s"
  by (auto simp: ensure_write_xid_def split: txn_state.splits prod.splits if_splits)

lemma guc_snapshots: "block_snapshots env s sh = (s', gs) \<Longrightarrow> se_guc s' = se_guc s"
  by (auto simp: block_snapshots_def split: txn_state.splits if_splits)

lemma guc_select: "run_select X env q s sh = (r, s') \<Longrightarrow> se_guc s' = se_guc s"
  by (auto simp: run_select_def read_context_def Let_def split: txn_state.splits prod.splits sum.splits if_splits)

lemma guc_write: "write_in_block X env w s sh = (r, s', sh') \<Longrightarrow> se_guc s' = se_guc s"
  by (auto simp: write_in_block_def Let_def dest!: guc_ensure guc_snapshots stamp_marker_state
      split: sum.splits prod.splits txn_state.splits)

lemma guc_locking: "run_select_locking X env mode q s sh = (r, s', sh') \<Longrightarrow> se_guc s' = se_guc s"
  by (auto simp: run_select_locking_def Let_def dest!: guc_ensure guc_snapshots
      split: sum.splits prod.splits txn_state.splits if_splits)

lemma exec_stmt_guc:
  assumes "in_txn s" and "\<not> closes stmt" and "exec_stmt X env stmt s sh = (Inr r, s', sh')"
  shows "guc_committed (se_guc s') = guc_committed (se_guc s)"
    and "guc_session (se_guc s') = (case assigns env stmt of Some z \<Rightarrow> Some z | None \<Rightarrow> guc_session (se_guc s))"
proof -
  have "guc_committed (se_guc s') = guc_committed (se_guc s)
      \<and> guc_session (se_guc s') = (case assigns env stmt of Some z \<Rightarrow> Some z | None \<Rightarrow> guc_session (se_guc s))"
  proof (cases stmt)
    case (SSet is_local name val)
    then show ?thesis
      using assms by (auto simp: set_guc_def set_local_def set_session_def Let_def split: if_splits set_value.splits)
  next
    case (SReset name)
    then show ?thesis
      using assms by (auto simp: reset_guc_def guc_reset_def in_txn_def Let_def split: if_splits)
  next
    case (SBegin il)
    then show ?thesis using assms by (auto simp: begin_cmd_def)
  next
    case (SWrite w)
    then show ?thesis using assms by (auto simp: run_write_def dest!: guc_write)
  next
    case (SLocking mode q)
    then show ?thesis using assms by (auto dest!: guc_locking)
  qed (use assms in \<open>auto split: prod.splits dest!: guc_select\<close>)
  then show "guc_committed (se_guc s') = guc_committed (se_guc s)"
    and "guc_session (se_guc s') = (case assigns env stmt of Some z \<Rightarrow> Some z | None \<Rightarrow> guc_session (se_guc s))" by blast+
qed

lemma run_one_okD:
  "run_one X env stmt s sh = (Inr r, s', sh') \<Longrightarrow> exec_stmt X env stmt s sh = (Inr r, s', sh')"
  by (auto simp: run_one_def split: if_splits prod.splits sum.splits)

text \<open>The value COMMIT will keep.\<close>

definition session_value :: "sql_session \<Rightarrow> string" where
  "session_value s = (case guc_session (se_guc s) of Some v \<Rightarrow> v | None \<Rightarrow> guc_committed (se_guc s))"

lemma run_all_guc:
  "\<lbrakk>run_all X stmts s sh = (Inr rs, s', sh'); in_txn s; list_all (\<lambda>(_, stmt). \<not> closes stmt) stmts\<rbrakk>
   \<Longrightarrow> in_txn s' \<and> guc_committed (se_guc s') = guc_committed (se_guc s) \<and> session_value s' = last_assigned (session_value s) stmts"
proof (induction stmts arbitrary: s sh rs)
  case (Cons p stmts)
  obtain env stmt where p: "p = (env, stmt)" by force
  from Cons.prems(1) obtain r s1 sh1 rs' where o: "run_one X env stmt s sh = (Inr r, s1, sh1)" "run_all X stmts s1 sh1 = (Inr rs', s', sh')"
    by (auto simp: p split: prod.splits sum.splits)
  have c: "\<not> closes stmt" using Cons.prems(3) p by simp
  have t1: "in_txn s1" using run_one_in_block [OF Cons.prems(2) c o(1)] same_block_txn by simp
  note g = exec_stmt_guc [OF Cons.prems(2) c run_one_okD [OF o(1)]]
  have "session_value s1 = (case assigns env stmt of Some v \<Rightarrow> v | None \<Rightarrow> session_value s)"
    by (simp add: session_value_def g split: option.splits)
  then show ?case using Cons.IH [OF o(2) t1] Cons.prems(3) g(1) by (simp add: p)
qed simp

lemma close_guc:
  assumes "in_txn s"
  shows "run_one X env SCommit s sh = (Inr r, s', sh') \<Longrightarrow>
           se_guc s' = \<lparr> guc_committed = session_value s, guc_session = None, guc_local = None \<rparr> \<and> sess_tx_status s' = TxIdle"
    and "run_one X env SRollback s sh = (Inr r', s', sh') \<Longrightarrow>
           se_guc s' = \<lparr> guc_committed = guc_committed (se_guc s), guc_session = None, guc_local = None \<rparr> \<and> sess_tx_status s' = TxIdle"
  using assms
  by (auto simp: commit_cmd_def rollback_cmd_def guc_commit_def guc_rollback_def session_value_def in_txn_def sess_tx_status_def Let_def
      dest!: run_one_okD split: txn_state.splits prod.splits sum.splits option.splits)

section \<open>Properties\<close>

context committer
begin

lemma status_recorded:
  assumes "ok kv" and "list_all op_ok bs" and "clog_key x \<notin> op_key ` set bs" and "\<not> is_decided (kv_get kv (clog_key x))"
    and "fst (commit (clog_put_op x st # bs) kv) = Inr ()"
  shows "clog_get (snd (commit (clog_put_op x st # bs) kv)) x = Inr st"
  using stored_first [of kv "clog_key x" "clog_value st" bs] assms
  by (simp add: clog_put_op_def clog_get_def counter_ok_def)

end

lemma next_xid_op_facts [simp]: "op_ok (next_xid_op pa)" "op_key (next_xid_op pa) = next_xid_key"
  by (simp_all add: next_xid_op_def counter_ok_def)

lemma clog_key_not_next_xid [simp]: "clog_key x \<noteq> next_xid_key"
  by (simp add: system_key_bytes)

text \<open>Writing a status through a committer that keeps its contract.\<close>

lemma sh_commit_status:
  assumes c: "committer (ev_commit env) good_store" and "good_store (sh_kv sh)" and "clog_get (sh_kv sh) x = Inr InProgress"
    and "list_all op_ok bs" and "op_key ` set bs \<subseteq> {next_xid_key}"
    and r: "sh_commit env (clog_put_op x st # bs) sh = (Inr u, sh')"
  shows "clog_get (sh_kv sh') y = (if y = x then Inr st else clog_get (sh_kv sh) y)"
proof -
  let ?ops = "clog_put_op x st # bs"
  from r have f: "fst (ev_commit env ?ops (sh_kv sh)) = Inr ()" and s: "sh_kv sh' = snd (ev_commit env ?ops (sh_kv sh))"
    by (auto simp: sh_commit_def split: prod.splits)
  have nd: "\<not> is_decided (kv_get (sh_kv sh) (clog_key x))"
    unfolding decided_outcome using assms(3) by (simp add: is_outcome_def)
  have nk: "clog_key y \<notin> op_key ` set bs" for y using assms(5) clog_key_not_next_xid by blast
  show ?thesis
  proof (cases "y = x")
    case True
    then show ?thesis using committer.status_recorded [OF c, OF assms(2,4) nk nd f] s by simp
  next
    case False
    then have "clog_key y \<notin> op_key ` set ?ops" using nk by (simp add: clog_put_op_def)
    then show ?thesis using committer.clog_untouched [OF c, OF assms(2), of ?ops y] assms(4) s False by simp
  qed
qed

lemma close_recorded:
  assumes c: "committer (ev_commit env) good_store" "good_store (sh_kv sh)" "clog_get (sh_kv sh) x = Inr InProgress"
    and "local_xid s = Some x" and "closes stmt" and e: "exec_stmt X env stmt s sh = (Inr r, s', sh')"
  shows "r = Command (if in_txn s \<and> stmt = SCommit then ''COMMIT'' else ''ROLLBACK'')" and "se_state s' = Idle"
    and "clog_get (sh_kv sh') y =
           (if y = x then Inr (if in_txn s \<and> stmt = SCommit then Committed else Aborted) else clog_get (sh_kv sh) y)"
proof -
  note w = sh_commit_status [OF c(1,2,3)]
  let ?next = "if pa_mode (sh_pa sh) = Replicated then [next_xid_op (sh_pa sh)] else []"
  have a: "clog_get (sh_kv sh1) y = (if y = x then Inr Aborted else clog_get (sh_kv sh) y)"
    if "abort_ctx env ctx sh = (Inr u, sh1)" "tc_xid ctx = Some x" for ctx u sh1
    using that w [of "[]" Aborted _ _ y] by (auto simp: abort_ctx_def finish_xid_def split: prod.splits)
  have k: "clog_get (sh_kv (finish_xid x sh1)) y = (if y = x then Inr Committed else clog_get (sh_kv sh) y)"
    if "sh_commit env (clog_put_op x Committed # ?next) sh = (Inr u, sh1)" for u sh1
    using w [OF _ _ that, of y] by (cases "pa_mode (sh_pa sh) = Replicated") (simp_all add: finish_xid_def)
  have "r = Command (if in_txn s \<and> stmt = SCommit then ''COMMIT'' else ''ROLLBACK'') \<and> se_state s' = Idle
    \<and> clog_get (sh_kv sh') y =
           (if y = x then Inr (if in_txn s \<and> stmt = SCommit then Committed else Aborted) else clog_get (sh_kv sh) y)"
  proof (cases "se_state s")
    case Idle
    then show ?thesis using assms(4) by (simp add: local_xid_def)
  next
    case (InTransaction ctx)
    then have t: "tc_xid ctx = Some x" "in_txn s" using assms(4) by (simp_all add: local_xid_def in_txn_def)
    show ?thesis
      using assms(5) e InTransaction t a k
      by (cases stmt) (auto simp: commit_cmd_def rollback_cmd_def Let_def split: prod.splits sum.splits)
  next
    case (Failed ctx)
    then have t: "tc_xid ctx = Some x" "\<not> in_txn s" using assms(4) by (simp_all add: local_xid_def in_txn_def)
    show ?thesis
      using assms(5) e Failed t a
      by (cases stmt) (auto simp: commit_cmd_def rollback_cmd_def Let_def split: prod.splits sum.splits)
  qed
  then show "r = Command (if in_txn s \<and> stmt = SCommit then ''COMMIT'' else ''ROLLBACK'')" and "se_state s' = Idle"
    and "clog_get (sh_kv sh') y =
           (if y = x then Inr (if in_txn s \<and> stmt = SCommit then Committed else Aborted) else clog_get (sh_kv sh) y)" by blast+
qed

text \<open>With the local committer, closing a block cannot fail.\<close>

lemma local_abort: "ev_commit env = local_commit \<Longrightarrow> \<exists>sh'. abort_ctx env ctx sh = (Inr (), sh')"
  by (cases "tc_xid ctx") (simp_all add: abort_ctx_def sh_commit_def local_commit_def)

lemma local_close:
  assumes "ev_commit env = local_commit" and "closes stmt"
  shows "\<exists>v s' sh'. run_one X env stmt s sh = (Inr v, s', sh')"
proof -
  define f where "f ctx = snd (abort_ctx env ctx sh)" for ctx
  have f: "abort_ctx env ctx sh = (Inr (), f ctx)" for ctx
    using local_abort [OF assms(1), of ctx sh] by (auto simp: f_def)
  have "\<exists>v s' sh'. exec_stmt X env stmt s sh = (Inr v, s', sh')"
  proof (cases "se_state s")
    case (InTransaction ctx)
    then show ?thesis
      using assms by (cases stmt; cases "tc_xid ctx") (auto simp: commit_cmd_def rollback_cmd_def f sh_commit_def local_commit_def Let_def)
  qed (use assms f in \<open>cases stmt; auto simp: commit_cmd_def rollback_cmd_def Let_def\<close>)+
  then show ?thesis using assms(2) by (auto simp: run_one_def)
qed

text \<open>A concrete engine and executors for the witnesses: every write puts one version and locks one row.\<close>

definition sample_exec :: "(unit, unit, unit, unit) exec_fns" where
  "sample_exec =
     \<lparr> x_ddl = (\<lambda>_ _. Inl (EUnsupported ''ddl'')),
       x_write = (\<lambda>cat gs snap x rr w ctx sh.
         (Inr (Command ''INSERT 0 1'', [Put (version_key_xid 1 1 x) []]), sh\<lparr> sh_lk := reacquire_exclusive (sh_lk sh) (1, 1) x \<rparr>)),
       x_read = (\<lambda>cat kv gs snap own q ctx. Inl (EUndefinedColumn ''x'')),
       x_read_locking = (\<lambda>cat gs snap x rr m q ctx sh. (Inl EDeadlock, sh)) \<rparr>"

definition sample_env :: "int \<Rightarrow> int env" where
  "sample_env now =
     \<lparr> ev_commit = local_commit, ev_linear = Inr (), ev_barrier = Inr (), ev_now = now, ev_cat = kv_new,
       ev_ext = plain_ext, ev_zone_known = (\<lambda>z. z = ''Europe/Paris'') \<rparr>"

definition sample_shared :: shared where
  "sample_shared =
     \<lparr> sh_kv = kv_new, sh_pa = \<lparr> pa_next_xid = 1, pa_running = {}, pa_mode = Replicated \<rparr>, sh_lk = lockmgr_new \<rparr>"

lemma sample_respects: "exec_respects sample_exec A"
  by (auto simp: exec_respects_def sample_exec_def quiet_def reacquire_exclusive_def holders_of_def Let_def split: option.splits if_splits)

lemma sample_cat_ok: "cat_ok (sample_env now)"
  by (simp add: cat_ok_def sample_env_def read_next_global_def)

lemma sample_quiet: "quiet sample_shared x"
  by (simp add: quiet_def sample_shared_def lockmgr_new_def holders_of_def)

lemma sample_committer: "committer (ev_commit (sample_env now)) good_store"
  by (simp add: sample_env_def localc.committer_axioms)

lemma sample_store: "good_store kv_new"
  by (simp add: good_store_def store_ok_def counter_ok_def)

lemmas sample_simps = sample_exec_def sample_env_def sample_shared_def sess_new_def run_one_def is_failed_def in_txn_def
  begin_cmd_def run_write_def write_in_block_def ensure_write_xid_def map_ctx_def ensure_global_readable_def
  block_snapshots_def global_read_snapshot_def begin_write_def stamp_marker_def fold_next_xid_def sh_commit_def
  local_xid_def gates_def pa_snapshot_def


text \<open>A block opened and written to, then dropped with the connection.\<close>

definition sample_block :: "sql_session \<times> shared" where
  "sample_block =
     (let (_, s, sh) = run_one sample_exec (sample_env 0) (SBegin None) (sess_new False False) sample_shared;
          (_, s, sh) = run_one sample_exec (sample_env 1) (SWrite ()) s sh
      in (s, sh))"

lemma sample_block_value: "local_xid (fst sample_block) = Some 1" "1 \<in> holders_of (sh_lk (snd sample_block)) (1, 1)"
  "in_txn (fst sample_block)" "1 \<in> pa_running (sh_pa (snd sample_block))"
  by (simp_all add: sample_block_def sample_simps local_commit_def Let_def reacquire_exclusive_def lockmgr_new_def holders_of_def)

lemma sample_block_steps: "(session_step plain_ext sample_exec A)\<^sup>*\<^sup>* (sess_new False False, sample_shared) sample_block"
proof -
  obtain r1 s1 sh1 where 1: "run_one sample_exec (sample_env 0) (SBegin None) (sess_new False False) sample_shared = (r1, s1, sh1)"
    by (metis surj_pair)
  obtain r2 s2 sh2 where 2: "run_one sample_exec (sample_env 1) (SWrite ()) s1 sh1 = (r2, s2, sh2)" by (metis surj_pair)
  have e: "ev_ext (sample_env n) = plain_ext" for n by (simp add: sample_env_def)
  have "session_step plain_ext sample_exec A (sess_new False False, sample_shared) (s1, sh1)"
    "session_step plain_ext sample_exec A (s1, sh1) (s2, sh2)"
    by (rule step_run [OF e sample_cat_ok 1], rule step_run [OF e sample_cat_ok 2])
  moreover have "sample_block = (s2, sh2)" by (simp add: sample_block_def 1 2)
  ultimately show ?thesis by (metis converse_rtranclp_into_rtranclp rtranclp.rtrancl_refl)
qed


text \<open>C6.
  An error fails the block. When a statement inside a block fails, the session reports a failed
  block; from then on every statement but COMMIT and ROLLBACK is rejected with SQLSTATE 25P02 and
  changes neither the session nor the shared state, and both COMMIT and ROLLBACK can only answer
  ROLLBACK and return the session to idle.
\<close>

theorem failed_block_rejects:
  fixes X :: "('d, 'w, 'q, 'r) exec_fns" and env :: "'j env"
  assumes "in_txn s" and "\<not> closes stmt" and "run_one X env stmt s sh = (Inl e, s1, sh1)"
  shows "sess_tx_status s1 = TxFailed
    \<and> (\<forall>(env' :: 'j env) stmt'. \<not> closes stmt' \<longrightarrow> run_one X env' stmt' s1 sh1 = (Inl EInFailedTransaction, s1, sh1))
    \<and> pg_code (into_pg EInFailedTransaction) = ''25P02''
    \<and> (\<forall>(env' :: 'j env) stmt' res s2 sh2. closes stmt' \<and> run_one X env' stmt' s1 sh1 = (Inr res, s2, sh2)
         \<longrightarrow> res = Command ''ROLLBACK'' \<and> sess_tx_status s2 = TxIdle)"
proof -
  have f: "is_failed s1" using run_one_in_block [OF assms] by simp
  then obtain ctx where c: "se_state s1 = Failed ctx" by (auto simp: is_failed_def split: txn_state.splits)
  have "res = Command ''ROLLBACK'' \<and> sess_tx_status s2 = TxIdle"
    if "closes stmt'" "run_one X env' stmt' s1 sh1 = (Inr res, s2, sh2)" for env' :: "'j env" and stmt' :: "('d, 'w, 'q) statement" and res s2 sh2
    using that c
    by (cases stmt') (auto simp: commit_cmd_def rollback_cmd_def sess_tx_status_def Let_def dest!: run_one_okD split: prod.splits sum.splits)
  moreover have "sess_tx_status s1 = TxFailed" "pg_code (into_pg EInFailedTransaction) = ''25P02''"
    by (simp_all add: c sess_tx_status_def pg_error_of_def)
  ultimately show ?thesis using run_one_failed [OF f] by blast
qed

theorem failed_block_rejects_witness:
  "\<exists>s1 sh1. run_one sample_exec (sample_env 2) (SQuery ()) (fst sample_block) (snd sample_block) = (Inl (EUndefinedColumn ''x''), s1, sh1)
     \<and> run_one sample_exec (sample_env 3) (SWrite ()) s1 sh1 = (Inl EInFailedTransaction, s1, sh1)
     \<and> fst (run_one sample_exec (sample_env 4) SCommit s1 sh1) = Inr (Command ''ROLLBACK'')"
proof -
  obtain s sh where b: "sample_block = (s, sh)" by force
  have t: "in_txn s" using sample_block_value(3) by (simp add: b)
  obtain r s1 sh1 where q: "run_one sample_exec (sample_env 2) (SQuery ()) s sh = (r, s1, sh1)" by (metis surj_pair)
  have "fst (run_one sample_exec (sample_env 2) (SQuery ()) (fst sample_block) (snd sample_block)) = Inl (EUndefinedColumn ''x'')"
    by (simp add: sample_block_def sample_simps local_commit_def run_select_def read_context_def Let_def)
  then have r: "r = Inl (EUndefinedColumn ''x'')" using q by (simp add: b)
  have cl: "\<not> closes (SQuery () :: (unit, unit, unit) statement)" "closes (SCommit :: (unit, unit, unit) statement)" by simp_all
  note f = failed_block_rejects [OF t cl(1) q [unfolded r]]
  obtain v s2 sh2 where c: "run_one sample_exec (sample_env 4) SCommit s1 sh1 = (Inr v, s2, sh2)"
    using local_close [of "sample_env 4" SCommit sample_exec s1 sh1] by (auto simp: sample_env_def)
  have "v = Command ''ROLLBACK''" using f c cl(2) by blast
  moreover have "run_one sample_exec (sample_env 3) (SWrite ()) s1 sh1 = (Inl EInFailedTransaction, s1, sh1)" using f by simp
  ultimately show ?thesis using q r c by (intro exI [of _ s1] exI [of _ sh1]) (simp add: b)
qed

text \<open>C7.
  A block's outcome is recorded before it is acknowledged. When COMMIT or ROLLBACK of a block that
  has written succeeds, through any committer that keeps its contract, the answer is COMMIT exactly
  when the block had not failed and COMMIT was asked; the commit log then holds Committed or
  Aborted for its id accordingly and is unchanged elsewhere, and the id is no longer registered and
  holds no lock.
\<close>

theorem block_outcome_recorded:
  assumes "committer (ev_commit env) good_store" and "good_store (sh_kv sh)" and "clog_get (sh_kv sh) x = Inr InProgress"
    and "local_xid s = Some x" and "closes stmt" and "run_one X env stmt s sh = (Inr r, s', sh')"
  shows "r = Command (if in_txn s \<and> stmt = SCommit then ''COMMIT'' else ''ROLLBACK'') \<and> sess_tx_status s' = TxIdle
    \<and> (\<forall>y. clog_get (sh_kv sh') y =
             (if y = x then Inr (if in_txn s \<and> stmt = SCommit then Committed else Aborted) else clog_get (sh_kv sh) y))
    \<and> quiet sh' x"
proof -
  have e: "exec_stmt X env stmt s sh = (Inr r, s', sh')" by (rule run_one_okD [OF assms(6)])
  have "accounted s sh x" using assms(4) by (simp add: accounted_def)
  then have "quiet sh' x" using e assms(5) commit_cmd_quiet(1) rollback_cmd_quiet(1) by (cases stmt) fastforce+
  then show ?thesis using close_recorded [OF assms(1-5) e] by (simp add: sess_tx_status_def)
qed

theorem block_outcome_recorded_witness:
  "\<exists>s' sh'. run_one sample_exec (sample_env 5) SCommit (fst sample_block) (snd sample_block) = (Inr (Command ''COMMIT''), s', sh')
     \<and> clog_get (sh_kv sh') 1 = Inr Committed \<and> quiet sh' 1"
proof -
  obtain s sh where b: "sample_block = (s, sh)" by force
  have kv: "sh_kv sh = write_batch kv_new [Put (version_key_xid 1 1 1) [], Put next_xid_key (be_bytes (2 :: u64))]"
    using b by (auto simp: sample_block_def sample_simps local_commit_def next_xid_op_def Let_def simp del: write_batch_simps)
  have "counter_ok (version_key_xid 1 1 1) (Some [])"
    by (simp add: counter_ok_def is_counter_key_def is_seq_key_def version_key_xid_def row_key_def table_prefix_def system_key_bytes put_u32_def put_u64_def INDEX_PRIMARY_def)
  then have g: "good_store (sh_kv sh)"
    using localc.ok_commit [OF sample_store, of "[Put (version_key_xid 1 1 1) [], Put next_xid_key (be_bytes (2 :: u64))]"]
    by (simp add: kv local_commit_def counter_ok_def del: write_batch_simps)
  have k: "version_key_xid 1 1 1 \<noteq> clog_key 1"
    by (simp add: version_key_xid_def row_key_def table_prefix_def system_key_bytes put_u32_def put_u64_def INDEX_PRIMARY_def)
  have i: "clog_get (sh_kv sh) 1 = Inr InProgress"
    using k by (simp add: kv clog_get_def kv_get_batch clog_decode_def del: write_batch_simps)
  have x: "local_xid s = Some 1" "in_txn s" using sample_block_value by (simp_all add: b)
  obtain r s' sh' where c: "run_one sample_exec (sample_env 5) SCommit s sh = (Inr r, s', sh')"
    using local_close [of "sample_env 5" SCommit sample_exec s sh] by (auto simp: sample_env_def)
  from block_outcome_recorded [OF sample_committer g i x(1) _ c] x(2) c show ?thesis by (simp add: b)
qed

text \<open>Statements of one block, with any changes others make to the shared state between them.\<close>

inductive block_step :: "'j ext \<Rightarrow> ('d, 'w, 'q, 'r) exec_fns \<Rightarrow> sql_session \<times> shared \<Rightarrow> sql_session \<times> shared \<Rightarrow> bool"
  for E X where
  block_run: "\<lbrakk>ev_ext env = E; \<not> closes stmt; run_one X env stmt s sh = (r, s', sh')\<rbrakk> \<Longrightarrow> block_step E X (s, sh) (s', sh')"
| block_others: "block_step E X (s, sh) (s, sh')"

inductive_cases block_stepE: "block_step E X (s, sh) (s', sh')"

lemma block_step_same:
  assumes "block_step E X (s1, sh1) (s2, sh2)" and "same_block s s1 \<or> is_failed s1"
  shows "same_block s s2 \<or> is_failed s2"
  using assms(1)
proof (rule block_stepE)
  fix env stmt r
  assume c: "\<not> closes stmt" and o: "run_one X env stmt s1 sh1 = (r, s2, sh2)"
  show ?thesis
  proof (cases "is_failed s1")
    case True
    then show ?thesis using o c by (simp add: run_one_def)
  next
    case False
    then have b: "same_block s s1" using assms(2) by blast
    from run_one_in_block [OF conjunct2 [OF same_block_txn [OF b]] c o] show ?thesis
      using same_block_trans [OF b] by (auto split: sum.splits)
  qed
qed (use assms in auto)

lemma block_steps_same:
  assumes "(block_step E X)\<^sup>*\<^sup>* (s, sh) (s', sh')" and "in_txn s"
  shows "same_block s s' \<or> is_failed s'"
  using assms(1)
proof (induction "(s', sh')" arbitrary: s' sh' rule: rtranclp_induct)
  case base
  then show ?case using same_block_refl [OF assms(2)] by simp
next
  case (step b)
  then show ?case using block_step_same by (cases b) blast
qed

text \<open>C8.
  A REPEATABLE READ block reads one snapshot. Whatever statements the block runs and whatever
  other sessions do in between, as long as the block has not failed every query in it is evaluated
  with the local snapshot, the global snapshot and the transaction time fixed by its BEGIN, and
  running it does not change the session.
\<close>

theorem repeatable_read_one_snapshot:
  assumes "se_state s = Idle" and "begin_cmd env (Some RepeatableRead) s sh = (Inr r, s0)"
    and "(block_step E X)\<^sup>*\<^sup>* (s0, sh) (s1, sh1)" and "in_txn s1"
  shows "\<exists>gs. global_read_snapshot env s None = Inr gs
    \<and> run_select X env' q s1 sh1 =
        (x_read X (ev_cat env') (sh_kv sh1) gs (pa_snapshot (sh_pa sh)) (local_xid s1) q (eval_context env' s1), s1)
    \<and> ec_now (eval_context env' s1) = ev_now env"
proof -
  from assms(1,2) obtain gs c0 where gs: "global_read_snapshot env s None = Inr gs" and c0: "se_state s0 = InTransaction c0"
    "tc_repeatable_read c0" "tc_snapshot c0 = pa_snapshot (sh_pa sh)" "tc_global_snapshot c0 = Some gs" "tc_txn_now c0 = ev_now env"
    by (auto simp: begin_cmd_def in_txn_def Let_def split: sum.splits)
  have "in_txn s0" using c0(1) by (simp add: in_txn_def)
  then have "same_block s0 s1" using block_steps_same [OF assms(3)] assms(4) in_txn_not_failed by blast
  then obtain c1 where "se_state s1 = InTransaction c1" "tc_repeatable_read c1" "tc_snapshot c1 = pa_snapshot (sh_pa sh)"
    "tc_global_snapshot c1 = Some gs" "tc_txn_now c1 = ev_now env"
    using c0 by (auto simp: same_block_def)
  then show ?thesis
    using gs by (simp add: run_select_def read_context_def global_read_snapshot_def local_xid_def eval_context_def Let_def)
qed

theorem repeatable_read_one_snapshot_witness:
  "\<exists>s0 s1 sh1. begin_cmd (sample_env 9) (Some RepeatableRead) (sess_new False False) sample_shared = (Inr (Command ''BEGIN'' :: unit query_result), s0)
     \<and> run_one sample_exec (sample_env 10) (SWrite ()) s0 sample_shared = (Inr (Command ''INSERT 0 1''), s1, sh1)
     \<and> pa_snapshot (sh_pa sh1) \<noteq> pa_snapshot (sh_pa sample_shared)
     \<and> run_select sample_exec (sample_env 11) () s1 sh1 =
         (x_read sample_exec kv_new (sh_kv sh1) NO_GLOBAL_SNAPSHOT (pa_snapshot (sh_pa sample_shared)) (Some 1) () (eval_context (sample_env 11) s1), s1)"
proof -
  obtain r s0 where b: "(begin_cmd (sample_env 9) (Some RepeatableRead) (sess_new False False) sample_shared
      :: (exec_error + unit query_result) \<times> _) = (r, s0)" by force
  then have r: "r = Inr (Command ''BEGIN'')" and
    s0: "s0 = (sess_new False False)\<lparr> se_state := InTransaction \<lparr> tc_xid = None, tc_snapshot = pa_snapshot (sh_pa sample_shared),
           tc_repeatable_read = True, tc_global_snapshot = Some NO_GLOBAL_SNAPSHOT, tc_written_rows = [], tc_txn_now = 9 \<rparr> \<rparr>"
    by (auto simp: sample_simps)
  obtain w s1 sh1 where w: "run_one sample_exec (sample_env 10) (SWrite ()) s0 sample_shared = (w, s1, sh1)" by (metis surj_pair)
  then have w1: "w = Inr (Command ''INSERT 0 1'')" "in_txn s1" "local_xid s1 = Some 1" "pa_next_xid (sh_pa sh1) = 2"
    by (auto simp: s0 sample_simps local_commit_def)
  have st: "(block_step plain_ext sample_exec)\<^sup>*\<^sup>* (s0, sample_shared) (s1, sh1)"
    by (rule r_into_rtranclp, rule block_run [OF _ _ w]) (simp_all add: sample_env_def)
  have "snap_xmax (pa_snapshot (sh_pa sh1)) = 2" "snap_xmax (pa_snapshot (sh_pa sample_shared)) = 1"
    using w1(4) by (simp_all add: pa_snapshot_def sample_shared_def Let_def)
  then have "pa_snapshot (sh_pa sh1) \<noteq> pa_snapshot (sh_pa sample_shared)" by auto
  moreover have "se_state (sess_new False False) = Idle" by (simp add: sess_new_def)
  note repeatable_read_one_snapshot [OF this b [unfolded r] st w1(2), of "sample_env 11" "()"]
  ultimately show ?thesis
    using b r w w1 by (auto simp: global_read_snapshot_def sess_new_def sample_env_def)
qed


definition paris_block :: "(int env \<times> (unit, unit, unit) statement) list" where
  "paris_block = [(sample_env 1, SSet False ''timezone'' (SetValue ''Europe/Paris'')), (sample_env 2, SSet True ''timezone'' SetDefault)]"

lemma sample_local_close:
  "closes stmt \<Longrightarrow> \<exists>v s' sh'. run_one X (sample_env n) stmt s sh = (Inr v, s', sh')"
  by (rule local_close) (simp_all add: sample_env_def)


text \<open>A failed close leaks settings. When the write that closes a block fails, the session is idle
  again but the block's SET and SET LOCAL values stay in effect for the statements after it.
\<close>

theorem failed_close_keeps_settings:
  assumes "local_xid s = Some x" and "in_txn s" and "closes stmt" and "\<forall>ops kv. fst (ev_commit env ops kv) = Inl e"
  shows "\<exists>s' sh'. run_one X env stmt s sh = (Inl e, s', sh') \<and> sess_tx_status s' = TxIdle \<and> se_guc s' = se_guc s"
proof -
  from assms(1,2) obtain c where c: "se_state s = InTransaction c" "tc_xid c = Some x"
    by (auto simp: local_xid_def in_txn_def split: txn_state.splits)
  have f: "\<exists>kv. sh_commit env ops sh = (Inl e, sh\<lparr> sh_kv := kv \<rparr>)" for ops
    using assms(4) by (cases "ev_commit env ops (sh_kv sh)") (metis (no_types) case_prod_conv fst_conv sh_commit_def)
  define k where "k ops = (SOME kv. sh_commit env ops sh = (Inl e, sh\<lparr> sh_kv := kv \<rparr>))" for ops
  have k: "sh_commit env ops sh = (Inl e, sh\<lparr> sh_kv := k ops \<rparr>)" for ops unfolding k_def using f [of ops] by (rule someI_ex)
  have "\<exists>sh'. exec_stmt X env stmt s sh = (Inl e, s\<lparr> se_state := Idle \<rparr>, sh')"
    using assms(3) c by (cases stmt) (simp_all add: commit_cmd_def rollback_cmd_def abort_ctx_def k)
  then show ?thesis
    using assms(3) by (auto simp: run_one_def fail_block_def sess_tx_status_def)
qed

definition local_zone_session :: sql_session where
  "local_zone_session = (fst sample_block)\<lparr> se_guc := \<lparr> guc_committed = ''UTC'', guc_session = None, guc_local = Some ''Europe/Paris'' \<rparr> \<rparr>"

theorem failed_close_keeps_settings_witness:
  "\<exists>s' sh'. run_one sample_exec (sample_env 6\<lparr> ev_commit := raft_commit ForwardToLeader \<rparr>) SCommit local_zone_session (snd sample_block)
       = (Inl ENotLeader, s', sh') \<and> sess_tx_status s' = TxIdle \<and> effective (se_guc s') = ''Europe/Paris''"
proof -
  let ?env = "sample_env 6\<lparr> ev_commit := raft_commit ForwardToLeader \<rparr>"
  have "local_xid local_zone_session = Some 1" "in_txn local_zone_session"
    using sample_block_value by (simp_all add: local_zone_session_def in_txn_def)
  moreover have "\<forall>ops kv. fst (ev_commit ?env ops kv) = Inl ENotLeader" by (simp add: raft_commit_def map_write_err_def)
  ultimately obtain s' sh' where "run_one sample_exec ?env SCommit local_zone_session (snd sample_block) = (Inl ENotLeader, s', sh')"
    "sess_tx_status s' = TxIdle" "se_guc s' = se_guc local_zone_session"
    using failed_close_keeps_settings [of local_zone_session 1 SCommit ?env ENotLeader sample_exec "snd sample_block"] by auto
  then show ?thesis by (auto simp: local_zone_session_def effective_def)
qed

text \<open>An autocommit write whose global snapshot cannot be read leaves its id registered.\<close>

lemma autocommit_leaks_xid:
  assumes "se_state s = Idle" and "ensure_global_readable env s = Inr ()" and "se_has_gtm s"
    and "read_next_global (ev_cat env) = Inl e"
  shows "\<exists>sh'. run_one X env (SWrite w) s sh = (Inl e, s, sh') \<and> pa_next_xid (sh_pa sh) \<in> pa_running (sh_pa sh')"
  using assms
  by (simp add: run_one_def is_failed_def run_write_def in_txn_def write_autocommit_def begin_write_def global_read_snapshot_def
      durable_global_snapshot_def fail_block_def Let_def)

end
