(* ===== verification/Ast.thy ===== *)
theory Ast
  imports PgTypes Errors
begin

text \<open>
  The syntax tree of \<open>pgparser/src/ast.rs\<close>. Structs that take part in the recursion between
  expressions and queries are datatypes with one constructor and named selectors; the small nodes
  are parametric in the expressions or queries they hold. Identifiers and literal texts are UTF-8
  byte lists. Statements other than queries appear as the constructors of \<open>statement\<close> in \<open>Session\<close>.
\<close>

datatype row_lock_strength = ForUpdate | ForShare

datatype join_kind = JInner | JLeft | JRight | JFull | JCross

datatype unary_op = UNot | UNeg

datatype binary_op =
    BAdd | BSub | BMul | BDiv | BConcat | BEq | BNe | BLt | BLe | BGt | BGe | BAnd | BOr

datatype 'e func_args = Star | Exprs "'e list"

datatype 'e order_item = OrderItem (o_expr: 'e) (o_asc: bool)

datatype 'e select_item = Wildcard | QualifiedWildcard bytes | ItemExpr 'e "bytes option"

datatype 'e join_constraint = On 'e | Using "bytes list" | Natural | NoConstraint

datatype 'q cte = Cte (cte_name: bytes) (cte_columns: "bytes list option") (cte_query: 'q)

datatype 'q with_clause = WithClause (w_recursive: bool) (w_ctes: "'q cte list")

datatype ('e, 't) select_stmt =
    SelectStmt (s_projection: "'e select_item list") (s_from: "'t list") (s_filter: "'e option")
      (s_distinct: bool) (s_group_by: "'e list") (s_having: "'e option") (s_order_by: "'e order_item list")
      (s_limit: "int option") (s_offset: "int option") (s_locking: "row_lock_strength option")

datatype ('e, 't, 'q) query_body = Select "('e, 't) select_stmt" | Values "'e list list" | Nested 'q

datatype 'b set_expr = QBody 'b | QSetOp set_op bool "'b set_expr" "'b set_expr"

datatype (dead 'j) expr =
    IntLiteral bytes
  | NumericLiteral bytes
  | StringLiteral bytes
  | BoolLiteral bool
  | NullLiteral
  | Column "bytes option" bytes
  | Param nat
  | Unary unary_op "'j expr"
  | Binary binary_op "'j expr" "'j expr"
  | Func bytes bool "'j expr func_args"
  | IsNull "'j expr" bool
  | InList "'j expr" "'j expr list" bool
  | Between "'j expr" "'j expr" "'j expr" bool
  | Like "'j expr" "'j expr" bool bool
  | Case "'j expr option" "('j expr \<times> 'j expr) list" "'j expr option"
  | Cast "'j expr" column_type
  | ScalarSubquery "'j query_expr"
  | Exists "'j query_expr"
  | InSubquery "'j expr" "'j query_expr" bool
  | Quantified "'j expr" binary_op bool "'j query_expr"
  | Const "'j datum" column_type
and (dead 'j) query_expr =
    QueryExpr (q_with: "'j query_expr with_clause option") (q_body: "('j expr, 'j table_expr, 'j query_expr) query_body set_expr") (q_order_by: "'j expr order_item list")
      (q_limit: "int option") (q_offset: "int option") (q_locking: "row_lock_strength option")
and (dead 'j) table_expr =
    Table bytes "bytes option"
  | Derived "'j query_expr" bytes "bytes list option"
  | Join "'j table_expr" "'j table_expr" join_kind "'j expr join_constraint"

end
