(* ===== verification/QueryRanges.thy ===== *)
theory QueryRanges
  imports Ast Catalog RangeMap
begin

text \<open>
  Which data ranges a query touches: the \<open>collect_*_ranges\<close> functions of
  \<open>cluster/src/range/router.rs\<close>. They walk the whole syntax tree, skip names bound by an enclosing
  WITH and foreign tables, and stop at the first unknown table or recursive WITH. The theorem
  compares them with the set of free table names of the query.
\<close>

text \<open>The range of a base table; a foreign table has none.\<close>

definition table_range :: "mem_kv \<Rightarrow> range_map \<Rightarrow> bytes \<Rightarrow> exec_error + range_id option" where
  "table_range kv rm name =
     rbind (map_err ECatalog (get_table kv name)) (\<lambda>t.
       Inr (if tb_foreign t = None then Some (range_for_table rm (tb_id t)) else None))"

type_synonym 'r lookup = "bytes \<Rightarrow> exec_error + 'r option"
type_synonym 'r collected = "exec_error + 'r set"

text \<open>
  A walk takes the names bound by the enclosing WITH clauses and the ranges found so far. The nodes
  of the tree are parametric in what they hold, so the function for a node is defined on a node that
  holds the walks of its children; the mutual recursion below maps itself over the children and is
  primitive.
\<close>

type_synonym 'r walk = "bytes list \<Rightarrow> 'r set \<Rightarrow> 'r collected"

definition collect_table_name :: "'r lookup \<Rightarrow> bytes \<Rightarrow> 'r walk" where
  "collect_table_name lk name ctx out =
     (if name \<in> set ctx then Inr out
      else rbind (lk name) (\<lambda>r. Inr (case r of Some r \<Rightarrow> insert r out | None \<Rightarrow> out)))"

primrec collect_opt :: "'r walk option \<Rightarrow> 'r walk" where
  "collect_opt None = (\<lambda>ctx out. Inr out)"
| "collect_opt (Some e) = e"

fun collect_exprs :: "'r walk list \<Rightarrow> 'r walk" where
  "collect_exprs [] ctx out = Inr out"
| "collect_exprs (e # es) ctx out = rbind (e ctx out) (\<lambda>out. collect_exprs es ctx out)"

fun collect_whens :: "('r walk \<times> 'r walk) list \<Rightarrow> 'r walk" where
  "collect_whens [] ctx out = Inr out"
| "collect_whens ((c, r) # ws) ctx out =
     rbind (c ctx out) (\<lambda>out. rbind (r ctx out) (\<lambda>out. collect_whens ws ctx out))"

fun collect_items :: "'r walk select_item list \<Rightarrow> 'r walk" where
  "collect_items [] ctx out = Inr out"
| "collect_items (ItemExpr e _ # items) ctx out = rbind (e ctx out) (\<lambda>out. collect_items items ctx out)"
| "collect_items (_ # items) ctx out = collect_items items ctx out"

fun collect_orders :: "'r walk order_item list \<Rightarrow> 'r walk" where
  "collect_orders [] ctx out = Inr out"
| "collect_orders (OrderItem e _ # os) ctx out = rbind (e ctx out) (\<lambda>out. collect_orders os ctx out)"

fun collect_values_ranges :: "'r walk list list \<Rightarrow> 'r walk" where
  "collect_values_ranges [] ctx out = Inr out"
| "collect_values_ranges (row # rows) ctx out =
     rbind (collect_exprs row ctx out) (\<lambda>out. collect_values_ranges rows ctx out)"

fun collect_ctes :: "'r walk cte list \<Rightarrow> bytes list \<Rightarrow> 'r set \<Rightarrow> exec_error + bytes list \<times> 'r set" where
  "collect_ctes [] ctx out = Inr (ctx, out)"
| "collect_ctes (Cte name _ q # ctes) ctx out =
     rbind (q ctx out) (\<lambda>out. collect_ctes ctes (ctx @ [name]) out)"

fun collect_with_ranges :: "'r walk with_clause option \<Rightarrow> bytes list \<Rightarrow> 'r set \<Rightarrow> exec_error + bytes list \<times> 'r set" where
  "collect_with_ranges None ctx out = Inr (ctx, out)"
| "collect_with_ranges (Some (WithClause recursive ctes)) ctx out =
     (if recursive then Inl (EUnsupported ''WITH RECURSIVE is not supported'') else collect_ctes ctes ctx out)"

fun collect_select_ranges :: "('r walk, 'r walk) select_stmt \<Rightarrow> 'r walk" where
  "collect_select_ranges (SelectStmt projection from flt _ group_by having order_by _ _ _) ctx out =
     rbind (collect_exprs from ctx out) (\<lambda>out.
     rbind (collect_items projection ctx out) (\<lambda>out.
     rbind (collect_opt flt ctx out) (\<lambda>out.
     rbind (collect_opt having ctx out) (\<lambda>out.
     rbind (collect_exprs group_by ctx out) (\<lambda>out. collect_orders order_by ctx out)))))"

fun collect_query_body_ranges :: "('r walk, 'r walk, 'r walk) query_body \<Rightarrow> 'r walk" where
  "collect_query_body_ranges (Select s) ctx out = collect_select_ranges s ctx out"
| "collect_query_body_ranges (Values rows) ctx out = collect_values_ranges rows ctx out"
| "collect_query_body_ranges (Nested q) ctx out = q ctx out"

fun collect_set_expr_ranges :: "('r walk, 'r walk, 'r walk) query_body set_expr \<Rightarrow> 'r walk" where
  "collect_set_expr_ranges (QBody body) ctx out = collect_query_body_ranges body ctx out"
| "collect_set_expr_ranges (QSetOp _ _ l r) ctx out =
     rbind (collect_set_expr_ranges l ctx out) (\<lambda>out. collect_set_expr_ranges r ctx out)"

primrec collect_expr_ranges :: "'r lookup \<Rightarrow> 'j expr \<Rightarrow> 'r walk"
and collect_query_expr_ranges :: "'r lookup \<Rightarrow> 'j query_expr \<Rightarrow> 'r walk"
and collect_table_expr_ranges :: "'r lookup \<Rightarrow> 'j table_expr \<Rightarrow> 'r walk"
where
  "collect_expr_ranges lk (ScalarSubquery q) = (\<lambda>ctx out. collect_query_expr_ranges lk q ctx out)"
| "collect_expr_ranges lk (Exists q) = (\<lambda>ctx out. collect_query_expr_ranges lk q ctx out)"
| "collect_expr_ranges lk (InSubquery e q _) = (\<lambda>ctx out.
     rbind (collect_expr_ranges lk e ctx out) (\<lambda>out. collect_query_expr_ranges lk q ctx out))"
| "collect_expr_ranges lk (Quantified e _ _ q) = (\<lambda>ctx out.
     rbind (collect_expr_ranges lk e ctx out) (\<lambda>out. collect_query_expr_ranges lk q ctx out))"
| "collect_expr_ranges lk (Unary _ e) = (\<lambda>ctx out. collect_expr_ranges lk e ctx out)"
| "collect_expr_ranges lk (Binary _ l r) = (\<lambda>ctx out.
     rbind (collect_expr_ranges lk l ctx out) (\<lambda>out. collect_expr_ranges lk r ctx out))"
| "collect_expr_ranges lk (Func _ _ args) = (\<lambda>ctx out.
     case map_func_args (collect_expr_ranges lk) args of Exprs es \<Rightarrow> collect_exprs es ctx out | Star \<Rightarrow> Inr out)"
| "collect_expr_ranges lk (IsNull e _) = (\<lambda>ctx out. collect_expr_ranges lk e ctx out)"
| "collect_expr_ranges lk (InList e es _) = (\<lambda>ctx out.
     rbind (collect_expr_ranges lk e ctx out) (\<lambda>out. collect_exprs (map (collect_expr_ranges lk) es) ctx out))"
| "collect_expr_ranges lk (Between e lo hi _) = (\<lambda>ctx out.
     rbind (collect_expr_ranges lk e ctx out) (\<lambda>out.
     rbind (collect_expr_ranges lk lo ctx out) (\<lambda>out. collect_expr_ranges lk hi ctx out)))"
| "collect_expr_ranges lk (Like e pat _ _) = (\<lambda>ctx out.
     rbind (collect_expr_ranges lk e ctx out) (\<lambda>out. collect_expr_ranges lk pat ctx out))"
| "collect_expr_ranges lk (Case operand whens else_result) = (\<lambda>ctx out.
     rbind (collect_opt (map_option (collect_expr_ranges lk) operand) ctx out) (\<lambda>out.
     rbind (collect_whens (map (map_prod (collect_expr_ranges lk) (collect_expr_ranges lk)) whens) ctx out) (\<lambda>out.
       collect_opt (map_option (collect_expr_ranges lk) else_result) ctx out)))"
| "collect_expr_ranges lk (Cast e _) = (\<lambda>ctx out. collect_expr_ranges lk e ctx out)"
| "collect_expr_ranges lk (IntLiteral _) = (\<lambda>ctx out. Inr out)"
| "collect_expr_ranges lk (NumericLiteral _) = (\<lambda>ctx out. Inr out)"
| "collect_expr_ranges lk (StringLiteral _) = (\<lambda>ctx out. Inr out)"
| "collect_expr_ranges lk (BoolLiteral _) = (\<lambda>ctx out. Inr out)"
| "collect_expr_ranges lk NullLiteral = (\<lambda>ctx out. Inr out)"
| "collect_expr_ranges lk (Column _ _) = (\<lambda>ctx out. Inr out)"
| "collect_expr_ranges lk (Param _) = (\<lambda>ctx out. Inr out)"
| "collect_expr_ranges lk (Const _ _) = (\<lambda>ctx out. Inr out)"
| "collect_query_expr_ranges lk (QueryExpr w body order_by _ _ _) = (\<lambda>ctx out.
     rbind (collect_with_ranges (map_option (map_with_clause (collect_query_expr_ranges lk)) w) ctx out) (\<lambda>(query_ctx, out).
     rbind (collect_set_expr_ranges
              (map_set_expr (map_query_body (collect_expr_ranges lk) (collect_table_expr_ranges lk) (collect_query_expr_ranges lk)) body)
              query_ctx out) (\<lambda>out.
       collect_orders (map (map_order_item (collect_expr_ranges lk)) order_by) query_ctx out)))"
| "collect_table_expr_ranges lk (Table name _) = (\<lambda>ctx out. collect_table_name lk name ctx out)"
| "collect_table_expr_ranges lk (Derived q _ _) = (\<lambda>ctx out. collect_query_expr_ranges lk q ctx out)"
| "collect_table_expr_ranges lk (Join l r _ c) = (\<lambda>ctx out.
     rbind (collect_table_expr_ranges lk l ctx out) (\<lambda>out.
     rbind (collect_table_expr_ranges lk r ctx out) (\<lambda>out.
       case map_join_constraint (collect_expr_ranges lk) c of On e \<Rightarrow> e ctx out | _ \<Rightarrow> Inr out)))"

section \<open>Free tables\<close>

text \<open>
  The names the walk asks for: the same walk with a lookup that knows every table and answers its
  name.
\<close>

definition name_lookup :: "bytes lookup" where
  "name_lookup n = Inr (Some n)"

definition free_tables :: "'j query_expr \<Rightarrow> exec_error + bytes set" where
  "free_tables q = collect_query_expr_ranges name_lookup q [] {}"

definition known :: "'r lookup \<Rightarrow> bytes set \<Rightarrow> bool" where
  "known lk N \<longleftrightarrow> (\<forall>n\<in>N. \<exists>v. lk n = Inr v)"

definition found :: "'r lookup \<Rightarrow> bytes set \<Rightarrow> 'r set" where
  "found lk N = {r. \<exists>n\<in>N. lk n = Inr (Some r)}"

definition agrees :: "'r lookup \<Rightarrow> 'r collected \<Rightarrow> bytes collected \<Rightarrow> bool" where
  "agrees lk r nm = (case nm of Inr N \<Rightarrow> if known lk N then r = Inr (found lk N) else \<exists>e. r = Inl e | Inl _ \<Rightarrow> \<exists>e. r = Inl e)"

definition step :: "'r lookup \<Rightarrow> bytes set \<Rightarrow> 'r collected \<Rightarrow> bytes collected \<Rightarrow> bool" where
  "step lk N r nm \<longleftrightarrow> (\<forall>N'. nm = Inr N' \<longrightarrow> N \<subseteq> N') \<and> (known lk N \<longrightarrow> agrees lk r nm)"

lemma known_mono: "\<lbrakk>known lk N'; N \<subseteq> N'\<rbrakk> \<Longrightarrow> known lk N"
  by (auto simp: known_def)

lemma step_ret [simp]: "step lk N (Inr (found lk N)) (Inr N)"
  by (simp add: step_def agrees_def)

lemma step_bind:
  assumes "step lk N a b" and "\<And>N'. b = Inr N' \<Longrightarrow> step lk N' (f (found lk N')) (g N')"
  shows "step lk N (rbind a f) (rbind b g)"
proof (cases b)
  case (Inr N1)
  have s1: "N1 \<subseteq> N2" if "g N1 = Inr N2" for N2 using assms(2) [OF Inr] that by (simp add: step_def)
  have s2: "agrees lk (f (found lk N1)) (g N1)" if "known lk N1" using assms(2) [OF Inr] that by (simp add: step_def)
  have s3: "\<not> known lk N2" if "g N1 = Inr N2" "\<not> known lk N1" for N2 using s1 [OF that(1)] known_mono that(2) by blast
  show ?thesis
  proof (cases "known lk N1")
    case True
    then show ?thesis using assms(1) Inr s1 s2 by (auto simp: step_def agrees_def)
  next
    case False
    then show ?thesis using assms(1) Inr s1 s3 by (auto simp: step_def agrees_def split: sum.splits)
  qed
qed (use assms in \<open>auto simp: step_def agrees_def\<close>)

lemma step_name: "step lk N (collect_table_name lk n ctx (found lk N)) (collect_table_name name_lookup n ctx N)"
proof (cases "lk n")
  case (Inr r)
  then show ?thesis
    by (cases r) (auto simp: collect_table_name_def name_lookup_def step_def agrees_def known_def found_def)
qed (auto simp: collect_table_name_def name_lookup_def step_def agrees_def known_def found_def)

lemma step_error [simp]: "step lk N (Inl e) (Inl e')"
  by (simp add: step_def agrees_def)

text \<open>
  Two walks that stay in step, whatever the scope and the ranges collected so far. Each node
  function keeps this relation, lifted to the node by the relator of its type.
\<close>

definition in_step :: "'r lookup \<Rightarrow> 'r walk \<Rightarrow> bytes walk \<Rightarrow> bool" where
  "in_step lk f g \<longleftrightarrow> (\<forall>ctx N. step lk N (f ctx (found lk N)) (g ctx N))"

lemma in_stepI: "(\<And>ctx N. step lk N (f ctx (found lk N)) (g ctx N)) \<Longrightarrow> in_step lk f g"
  by (simp add: in_step_def)

lemma in_stepD: "in_step lk f g \<Longrightarrow> step lk N (f ctx (found lk N)) (g ctx N)"
  by (simp add: in_step_def)

lemmas in_step_bind = step_bind [OF in_stepD]

lemma opt_in_step: "rel_option (in_step lk) a b \<Longrightarrow> in_step lk (collect_opt a) (collect_opt b)"
  by (auto elim!: option.rel_cases intro: in_stepI)

lemma exprs_in_step: "list_all2 (in_step lk) es fs \<Longrightarrow> in_step lk (collect_exprs es) (collect_exprs fs)"
proof (induction rule: list_all2_induct)
  case (Cons e es f fs)
  then show ?case by (auto intro!: in_stepI in_step_bind dest: in_stepD)
qed (auto intro!: in_stepI)

lemma exprs_map_in_step:
  "(\<And>e. e \<in> set es \<Longrightarrow> in_step lk (f e) (g e)) \<Longrightarrow> in_step lk (collect_exprs (map f es)) (collect_exprs (map g es))"
  by (rule exprs_in_step) (auto simp: list.rel_map intro: list.rel_refl_strong)

lemma whens_in_step:
  "list_all2 (rel_prod (in_step lk) (in_step lk)) ws vs \<Longrightarrow> in_step lk (collect_whens ws) (collect_whens vs)"
proof (induction rule: list_all2_induct)
  case (Cons w ws v vs)
  then show ?case by (cases w; cases v) (auto intro!: in_stepI in_step_bind dest: in_stepD)
qed (auto intro!: in_stepI)

lemma items_in_step: "list_all2 (rel_select_item (in_step lk)) es fs \<Longrightarrow> in_step lk (collect_items es) (collect_items fs)"
proof (induction rule: list_all2_induct)
  case (Cons e es f fs)
  then show ?case by (cases e; cases f) (auto intro!: in_stepI in_step_bind dest: in_stepD)
qed (auto intro!: in_stepI)

lemma orders_in_step: "list_all2 (rel_order_item (in_step lk)) es fs \<Longrightarrow> in_step lk (collect_orders es) (collect_orders fs)"
proof (induction rule: list_all2_induct)
  case (Cons e es f fs)
  then show ?case by (cases e; cases f) (auto intro!: in_stepI in_step_bind dest: in_stepD)
qed (auto intro!: in_stepI)

lemma values_in_step:
  "list_all2 (list_all2 (in_step lk)) es fs \<Longrightarrow> in_step lk (collect_values_ranges es) (collect_values_ranges fs)"
proof (induction rule: list_all2_induct)
  case (Cons e es f fs)
  then show ?case by (auto intro!: in_stepI in_step_bind exprs_in_step dest: in_stepD)
qed (auto intro!: in_stepI)

lemma select_in_step:
  "rel_select_stmt (in_step lk) (in_step lk) s t \<Longrightarrow> in_step lk (collect_select_ranges s) (collect_select_ranges t)"
  by (cases s; cases t)
    (auto intro!: in_stepI in_step_bind exprs_in_step items_in_step opt_in_step in_stepD [OF orders_in_step])

lemma body_in_step:
  "rel_query_body (in_step lk) (in_step lk) (in_step lk) b c \<Longrightarrow>
   in_step lk (collect_query_body_ranges b) (collect_query_body_ranges c)"
  by (cases b; cases c) (auto intro!: in_stepI intro: in_stepD in_stepD [OF select_in_step] in_stepD [OF values_in_step])

lemma set_expr_in_step:
  "rel_set_expr (rel_query_body (in_step lk) (in_step lk) (in_step lk)) s t \<Longrightarrow>
   in_step lk (collect_set_expr_ranges s) (collect_set_expr_ranges t)"
proof (induction rule: set_expr.rel_induct)
  case (QSetOp a1 a2 a3 a4 b1 b2 b3 b4)
  then show ?case by (auto intro!: in_stepI in_step_bind dest: in_stepD)
qed (auto intro!: in_stepI in_stepD [OF body_in_step])

text \<open>
  The scope a WITH clause adds does not depend on the lookup, so the query below it is walked in the
  same scope.
\<close>

lemma rbind_assoc: "rbind (rbind a f) g = rbind a (\<lambda>x. rbind (f x) g)"
  by (cases a) simp_all

lemma ctes_bind:
  assumes "list_all2 (rel_cte (in_step lk)) cs ds" and "in_step lk f g"
  shows "step lk N (rbind (collect_ctes cs ctx (found lk N)) (\<lambda>(qc, out). f qc out))
                   (rbind (collect_ctes ds ctx N) (\<lambda>(qc, out). g qc out))"
  using assms(1)
proof (induction arbitrary: ctx N rule: list_all2_induct)
  case Nil
  then show ?case using assms(2) by (simp add: in_stepD)
next
  case (Cons c cs d ds)
  then show ?case by (cases c; cases d) (auto simp: rbind_assoc intro!: in_step_bind)
qed

lemma with_bind:
  assumes "rel_option (rel_with_clause (in_step lk)) v w" and "in_step lk f g"
  shows "step lk N (rbind (collect_with_ranges v ctx (found lk N)) (\<lambda>(qc, out). f qc out))
                   (rbind (collect_with_ranges w ctx N) (\<lambda>(qc, out). g qc out))"
  using assms(1)
proof (cases rule: option.rel_cases)
  case None
  then show ?thesis using assms(2) by (simp add: in_stepD)
next
  case (Some a b)
  then show ?thesis by (cases a; cases b) (auto intro!: ctes_bind assms(2))
qed

lemmas node_rel_map = option.rel_map list.rel_map prod.rel_map select_item.rel_map order_item.rel_map
  cte.rel_map with_clause.rel_map select_stmt.rel_map query_body.rel_map set_expr.rel_map

lemmas node_rel_refl = option.rel_refl_strong list.rel_refl_strong prod.rel_refl_strong order_item.rel_refl_strong
  with_clause.rel_refl_strong query_body.rel_refl_strong set_expr.rel_refl_strong

lemma collect_step:
  fixes e :: "'j expr" and q :: "'j query_expr" and t :: "'j table_expr"
  shows "in_step lk (collect_expr_ranges lk e) (collect_expr_ranges name_lookup e)"
    and "in_step lk (collect_query_expr_ranges lk q) (collect_query_expr_ranges name_lookup q)"
    and "in_step lk (collect_table_expr_ranges lk t) (collect_table_expr_ranges name_lookup t)"
proof (induction e and q and t)
  case (Func n d args)
  show ?case
  proof (cases args)
    case (Exprs es)
    have "in_step lk (collect_exprs (map (collect_expr_ranges lk) es)) (collect_exprs (map (collect_expr_ranges name_lookup) es))"
      using Func Exprs by (intro exprs_map_in_step) simp
    then show ?thesis by (simp add: Exprs)
  qed (auto intro: in_stepI)
next
  case (InList e es n)
  have "in_step lk (collect_exprs (map (collect_expr_ranges lk) es)) (collect_exprs (map (collect_expr_ranges name_lookup) es))"
    using InList by (intro exprs_map_in_step) simp
  then show ?case using InList(1) by (auto intro!: in_stepI in_step_bind dest: in_stepD)
next
  case (Case operand whens else_result)
  have "rel_option (in_step lk) (map_option (collect_expr_ranges lk) v) (map_option (collect_expr_ranges name_lookup) v)"
    if "v = operand \<or> v = else_result" for v
    using Case that unfolding node_rel_map by (auto intro!: node_rel_refl)
  moreover have "list_all2 (rel_prod (in_step lk) (in_step lk))
      (map (map_prod (collect_expr_ranges lk) (collect_expr_ranges lk)) whens)
      (map (map_prod (collect_expr_ranges name_lookup) (collect_expr_ranges name_lookup)) whens)"
    using Case unfolding node_rel_map by (auto intro!: node_rel_refl)
  ultimately show ?case
    by (simp, intro in_stepI in_step_bind opt_in_step whens_in_step in_stepD [OF opt_in_step]) simp_all
next
  case (QueryExpr w body order_by a b c)
  have "rel_option (rel_with_clause (in_step lk)) (map_option (map_with_clause (collect_query_expr_ranges lk)) w)
      (map_option (map_with_clause (collect_query_expr_ranges name_lookup)) w)"
    using QueryExpr unfolding node_rel_map by (auto intro!: node_rel_refl)
  moreover have "list_all2 (rel_order_item (in_step lk)) (map (map_order_item (collect_expr_ranges lk)) order_by)
      (map (map_order_item (collect_expr_ranges name_lookup)) order_by)"
    using QueryExpr unfolding node_rel_map by (auto intro!: node_rel_refl)
  moreover have "rel_set_expr (rel_query_body (in_step lk) (in_step lk) (in_step lk))
      (map_set_expr (map_query_body (collect_expr_ranges lk) (collect_table_expr_ranges lk) (collect_query_expr_ranges lk)) body)
      (map_set_expr (map_query_body (collect_expr_ranges name_lookup) (collect_table_expr_ranges name_lookup)
        (collect_query_expr_ranges name_lookup)) body)"
    using QueryExpr unfolding node_rel_map by (auto intro!: node_rel_refl)
  ultimately show ?case
    by (simp, intro in_stepI with_bind in_step_bind set_expr_in_step in_stepD [OF orders_in_step]) simp_all
next
  case (Join l r k c)
  then show ?case by (cases c) (auto intro!: in_stepI in_step_bind dest: in_stepD)
qed (auto intro!: in_stepI in_step_bind step_name dest: in_stepD)

text \<open>A query's ranges are those of the tables its walk asks for; it fails when one is unknown.\<close>

lemma collect_query_names:
  "agrees lk (collect_query_expr_ranges lk q [] {}) (free_tables q)"
  using in_stepD [OF collect_step(2), of lk "{}" q "[]"]
  by (simp add: step_def free_tables_def known_def found_def)

section \<open>The range a query runs on\<close>

definition query_range :: "mem_kv \<Rightarrow> range_map \<Rightarrow> 'j query_expr \<Rightarrow> exec_error + range_id option" where
  "query_range kv rm q =
     rbind (collect_query_expr_ranges (table_range kv rm) q [] {}) (\<lambda>ranges.
       if card ranges = 0 then Inr None
       else if card ranges = 1 then Inr (Some (the_elem ranges))
       else Inl (EUnsupported (case q_body q of
              QSetOp _ _ _ _ \<Rightarrow> ''set operations spanning ranges are not supported''
            | QBody _ \<Rightarrow> ''cross-range joins or subqueries are not supported'')))"

text \<open>Where a query may run: the ranges of the local tables among its free names.\<close>

definition query_range_spec :: "range_id set \<Rightarrow> exec_error + range_id option \<Rightarrow> bool" where
  "query_range_spec R res \<longleftrightarrow>
     (R = {} \<longrightarrow> res = Inr None) \<and> (\<forall>r. R = {r} \<longrightarrow> res = Inr (Some r))
     \<and> ((\<exists>r\<in>R. \<exists>r'\<in>R. r \<noteq> r') \<longrightarrow> (\<exists>msg. res = Inl (EUnsupported msg)))"


text \<open>Two tables, named a and b, on two ranges.\<close>

definition sample_catalog :: mem_kv where
  "sample_catalog = write_batch kv_new
     [Put (catalog_key [97]) (serialize_schema 1 [id_column] None),
      Put (catalog_key [98]) (serialize_schema 20 [id_column] None)]"

definition sample_map :: range_map where
  "sample_map = \<lparr> boundaries = [10] \<rparr>"

definition from_query :: "bytes list \<Rightarrow> 'j query_expr" where
  "from_query ts = QueryExpr None (QBody (Select (SelectStmt [Wildcard] (map (\<lambda>t. Table t None) ts) None False [] None [] None None None)))
     [] None None None"

lemma sample_tables:
  "table_range sample_catalog sample_map [97] = Inr (Some 0)"
  "table_range sample_catalog sample_map [98] = Inr (Some 1)"
  by (simp_all add: table_range_def get_table_def sample_catalog_def kv_get_batch id_column_ok schema_roundtrip
      range_for_table_def sample_map_def word_le_nat_alt del: write_batch_simps)


end
