(* ===== verification/Router.thy ===== *)
theory Router
  imports Session QueryRanges
begin

text \<open>
  The per-connection router of \<open>cluster/src/range/router.rs\<close>: it sends each statement to the range
  of its tables, pins a transaction to the first range it touches and escalates it to a global
  transaction when it touches a second one. A connection holds one session per local range. The
  shared state of every range, range 0's transaction manager and the rest of the cluster form the
  record \<open>world\<close>; the forwarding client and the coordinator are fields of \<open>gateway\<close>, so are
  leadership and the recovery gate, read once per statement. A forwarded or staged statement is
  represented by the statement itself instead of its text.

  The theorems: a global COMMIT or ROLLBACK answers exactly the decision that range 0 records and
  frees every local participant; the gate keeps writes out; and two flaws, a block left open on
  range 0 and a COMMIT that ignores a failed statement.
\<close>

section \<open>State\<close>

type_synonym ('d, 'w, 'j) stmt = "('d, bytes \<times> 'w, 'j query_expr) statement"

datatype pin = PNone | POpen | PRange range_id | PGlobal "range_id set" xid

record router =
  ro_sessions :: "range_id \<Rightarrow> sql_session option"
  ro_pin :: pin
  ro_map :: range_map
  ro_engines :: "range_id set"
  ro_has_gtm :: "range_id \<Rightarrow> bool"
  ro_has_barrier :: "range_id \<Rightarrow> bool"

record 'm world =
  wd_shared :: "range_id \<Rightarrow> shared"
  wd_gtm :: gtm
  wd_remote :: 'm

record ('d, 'w, 'j, 'm) coordinator =
  co_begin :: "'m world \<Rightarrow> (exec_error + xid) \<times> 'm world"
  co_stage_remote :: "xid \<Rightarrow> range_id \<Rightarrow> ('d, 'w, 'j) stmt \<Rightarrow> 'm world \<Rightarrow> (exec_error + unit) \<times> 'm world"
  co_commit :: "xid \<Rightarrow> bool \<Rightarrow> 'm world \<Rightarrow> (exec_error + bool) \<times> 'm world"
  co_release_remote :: "xid \<Rightarrow> range_id \<Rightarrow> bool \<Rightarrow> 'm world \<Rightarrow> (exec_error + unit) \<times> 'm world"

record ('d, 'w, 'j, 'r, 'm) gateway =
  gw_exec :: "('d, bytes \<times> 'w, 'j query_expr, 'r) exec_fns"
  gw_env :: "range_id \<Rightarrow> 'j env"
  gw_leads :: "range_id \<Rightarrow> bool"
  gw_serving :: "range_id \<Rightarrow> bool"
  gw_catalog :: mem_kv
  gw_forward :: "range_id \<Rightarrow> ('d, 'w, 'j) stmt \<Rightarrow> 'm \<Rightarrow> (exec_error + 'r query_result) \<times> 'm"
  gw_coord :: "('d, 'w, 'j, 'm) coordinator option"

section \<open>The in-process coordinator\<close>

definition set_kv :: "range_id \<Rightarrow> mem_kv \<Rightarrow> 'm world \<Rightarrow> 'm world" where
  "set_kv r kv w = w\<lparr> wd_shared := (wd_shared w)(r := (wd_shared w r)\<lparr> sh_kv := kv \<rparr>) \<rparr>"

definition local_begin_global :: "committer_fn \<Rightarrow> 'm world \<Rightarrow> (exec_error + xid) \<times> 'm world" where
  "local_begin_global commit w =
     (let (r, kv, gtm) = begin_global_durable commit (sh_kv (wd_shared w 0)) (wd_gtm w)
      in (r, (set_kv 0 kv w)\<lparr> wd_gtm := gtm \<rparr>))"

definition local_commit_global :: "committer_fn \<Rightarrow> xid \<Rightarrow> bool \<Rightarrow> 'm world \<Rightarrow> (exec_error + bool) \<times> 'm world" where
  "local_commit_global commit g do_commit w =
     (let status = (if do_commit then Committed else Aborted);
          (r, kv) = commit_global_decision commit (sh_kv (wd_shared w 0)) (wd_gtm w) g status;
          w = set_kv 0 kv w
      in case r of
           Inl e \<Rightarrow> (Inl e, w)
         | Inr eff \<Rightarrow> (Inr (eff = Committed), w\<lparr> wd_gtm := finish_global (wd_gtm w) g \<rparr>))"

definition no_remote :: "range_id \<Rightarrow> 'm world \<Rightarrow> (exec_error + unit) \<times> 'm world" where
  "no_remote r w = (Inl (EUnsupported (''local coordinator has no remote range '' @ chars_of (dec_bytes (unat r)))), w)"

definition local_coordinator :: "committer_fn \<Rightarrow> ('d, 'w, 'j, 'm) coordinator" where
  "local_coordinator commit =
     \<lparr> co_begin = local_begin_global commit, co_stage_remote = (\<lambda>_ r _. no_remote r),
       co_commit = local_commit_global commit, co_release_remote = (\<lambda>_ r _. no_remote r) \<rparr>"

lemma local_coordinator_sel [simp]:
  "co_commit (local_coordinator commit) = local_commit_global commit" "co_begin (local_coordinator commit) = local_begin_global commit"
  "co_release_remote (local_coordinator commit) g r c = no_remote r"
  by (simp_all add: local_coordinator_def)

section \<open>Sessions\<close>

definition router_new :: "range_map \<Rightarrow> range_id set \<Rightarrow> (range_id \<Rightarrow> bool) \<Rightarrow> (range_id \<Rightarrow> bool) \<Rightarrow> router" where
  "router_new rm engines has_gtm has_barrier =
     \<lparr> ro_sessions = Map.empty, ro_pin = PNone, ro_map = rm, ro_engines = engines, ro_has_gtm = has_gtm, ro_has_barrier = has_barrier \<rparr>"

text \<open>Only called for ranges with a local engine.\<close>

definition session_of :: "router \<Rightarrow> range_id \<Rightarrow> sql_session" where
  "session_of rt r = (case ro_sessions rt r of Some s \<Rightarrow> s | None \<Rightarrow> sess_new (ro_has_gtm rt r) (ro_has_barrier rt r))"

definition put_session :: "range_id \<Rightarrow> sql_session \<Rightarrow> router \<Rightarrow> router" where
  "put_session r s rt = rt\<lparr> ro_sessions := (ro_sessions rt)(r \<mapsto> s) \<rparr>"

definition put_shared :: "range_id \<Rightarrow> shared \<Rightarrow> 'm world \<Rightarrow> 'm world" where
  "put_shared r sh w = w\<lparr> wd_shared := (wd_shared w)(r := sh) \<rparr>"

definition led_here :: "('d, 'w, 'j, 'r, 'm) gateway \<Rightarrow> router \<Rightarrow> range_id \<Rightarrow> bool" where
  "led_here G rt r \<longleftrightarrow> r \<in> ro_engines rt \<and> gw_leads G r"

definition run_on ::
  "('d, 'w, 'j, 'r, 'm) gateway \<Rightarrow> range_id \<Rightarrow> ('d, 'w, 'j) stmt \<Rightarrow> router \<Rightarrow> 'm world
     \<Rightarrow> (exec_error + 'r query_result) \<times> router \<times> 'm world" where
  "run_on G r stmt rt w =
     (if led_here G rt r then
        (let (res, s, sh) = run_one (gw_exec G) (gw_env G r) stmt (session_of rt r) (wd_shared w r)
         in (res, put_session r s rt, put_shared r sh w))
      else (let (res, m) = gw_forward G r stmt (wd_remote w) in (res, rt, w\<lparr> wd_remote := m \<rparr>)))"

definition ensure_began_on ::
  "('d, 'w, 'j, 'r, 'm) gateway \<Rightarrow> range_id \<Rightarrow> router \<Rightarrow> 'm world \<Rightarrow> (exec_error + unit) \<times> router" where
  "ensure_began_on G r rt w =
     (let (res, s) = ensure_began (gw_env G r) (session_of rt r) (wd_shared w r) in (res, put_session r s rt))"

definition join_on ::
  "('d, 'w, 'j, 'r, 'm) gateway \<Rightarrow> range_id \<Rightarrow> xid \<Rightarrow> router \<Rightarrow> 'm world \<Rightarrow> (exec_error + unit) \<times> router \<times> 'm world" where
  "join_on G r g rt w =
     (let (res, s, sh) = join_global (gw_env G r) g (session_of rt r) (wd_shared w r)
      in (res, put_session r s rt, put_shared r sh w))"

definition stage_on ::
  "('d, 'w, 'j, 'r, 'm) gateway \<Rightarrow> range_id \<Rightarrow> xid \<Rightarrow> ('d, 'w, 'j) stmt \<Rightarrow> router \<Rightarrow> 'm world
     \<Rightarrow> (exec_error + 'r query_result) \<times> router \<times> 'm world" where
  "stage_on G r g stmt rt w =
     (if led_here G rt r then
        (if \<not> gw_serving G r then (Inl ENotLeader, rt, w)
         else case ensure_began_on G r rt w of
                (Inl e, rt) \<Rightarrow> (Inl e, rt, w)
              | (Inr _, rt) \<Rightarrow>
                  (case join_on G r g rt w of
                     (Inl e, rt, w) \<Rightarrow> (Inl e, rt, w)
                   | (Inr _, rt, w) \<Rightarrow>
                       (let (res, s, sh) = run_one (gw_exec G) (gw_env G r) stmt (session_of rt r) (wd_shared w r)
                        in (res, put_session r s rt, put_shared r sh w))))
      else (case gw_coord G of
              None \<Rightarrow> (Inl (EUnsupported ''coordinator for cross-range''), rt, w)
            | Some co \<Rightarrow>
                (case co_stage_remote co g r stmt w of
                   (Inl e, w) \<Rightarrow> (Inl e, rt, w)
                 | (Inr _, w) \<Rightarrow> (Inr (Command ''OK''), rt, w))))"

section \<open>Dispatch\<close>

definition range_of :: "('d, 'w, 'j, 'r, 'm) gateway \<Rightarrow> router \<Rightarrow> bytes \<Rightarrow> exec_error + range_id" where
  "range_of G rt name =
     rbind (map_err ECatalog (get_table (gw_catalog G) name)) (\<lambda>t. Inr (range_for_table (ro_map rt) (tb_id t)))"

fun pinning_range :: "('d, 'w, 'j, 'r, 'm) gateway \<Rightarrow> router \<Rightarrow> ('d, 'w, 'j) stmt \<Rightarrow> exec_error + range_id option" where
  "pinning_range G rt (SWrite (table, _)) = rbind (range_of G rt table) (\<lambda>r. Inr (Some r))"
| "pinning_range G rt (SQuery q) = query_range (gw_catalog G) (ro_map rt) q"
| "pinning_range G rt (SLocking _ q) = query_range (gw_catalog G) (ro_map rt) q"
| "pinning_range G rt _ = Inr None"

fun is_write :: "('d, 'w, 'j) stmt \<Rightarrow> bool" where
  "is_write (SWrite _) = True"
| "is_write _ = False"

text \<open>Releasing the participants after the decision, in the order of their ids.\<close>

fun release_ranges ::
  "('d, 'w, 'j, 'r, 'm) gateway \<Rightarrow> ('d, 'w, 'j, 'm) coordinator \<Rightarrow> xid \<Rightarrow> bool \<Rightarrow> range_id list \<Rightarrow> router \<Rightarrow> 'm world
     \<Rightarrow> router \<times> 'm world" where
  "release_ranges G co g committed [] rt w = (rt, w)"
| "release_ranges G co g committed (r # rs) rt w =
     (if led_here G rt r then
        (let (s, sh) = (if committed then commit_release (session_of rt r) (wd_shared w r)
                        else abort_release (session_of rt r) (wd_shared w r))
         in release_ranges G co g committed rs (put_session r s rt) (put_shared r sh w))
      else (let (_, w) = co_release_remote co g r committed w in release_ranges G co g committed rs rt w))"

definition finish_txn ::
  "('d, 'w, 'j, 'r, 'm) gateway \<Rightarrow> ('d, 'w, 'j) stmt \<Rightarrow> router \<Rightarrow> 'm world \<Rightarrow> (exec_error + 'r query_result) \<times> router \<times> 'm world" where
  "finish_txn G stmt rt w =
     (let rt' = rt\<lparr> ro_pin := PNone \<rparr> in
      case ro_pin rt of
        PGlobal ranges g \<Rightarrow>
          (case gw_coord G of
             None \<Rightarrow> (Inl (EUnsupported ''coordinator''), rt', w)
           | Some co \<Rightarrow>
               (case co_commit co g (stmt = SCommit) w of
                  (Inl e, w) \<Rightarrow> (Inl e, rt', w)
                | (Inr committed, w) \<Rightarrow>
                    (let (rt', w) = release_ranges G co g committed (sorted_list_of_set ranges) rt' w
                     in (Inr (Command (if committed then ''COMMIT'' else ''ROLLBACK'')), rt', w))))
      | PRange p \<Rightarrow> run_on G p stmt rt' w
      | _ \<Rightarrow> run_on G 0 stmt rt' w)"

definition span_error :: exec_error where
  "span_error = EUnsupported ''a transaction may not span ranges yet (D3b)''"

text \<open>Escalation: a new global id, the local ranges that join it first, then the statement itself.\<close>

definition escalate ::
  "('d, 'w, 'j, 'r, 'm) gateway \<Rightarrow> range_id option \<Rightarrow> range_id \<Rightarrow> ('d, 'w, 'j) stmt \<Rightarrow> router \<Rightarrow> 'm world
     \<Rightarrow> (exec_error + 'r query_result) \<times> router \<times> 'm world" where
  "escalate G pinned r stmt rt w =
     (case gw_coord G of
        None \<Rightarrow> (Inl span_error, rt, w)
      | Some co \<Rightarrow>
          (case co_begin co w of
             (Inl e, w) \<Rightarrow> (Inl e, rt, w)
           | (Inr g, w) \<Rightarrow>
               (case pinned of
                  None \<Rightarrow> stage_on G r g stmt (rt\<lparr> ro_pin := PGlobal {r} g \<rparr>) w
                | Some p \<Rightarrow>
                    (case join_on G p g rt w of
                       (Inl e, rt, w) \<Rightarrow> (Inl e, rt, w)
                     | (Inr _, rt, w) \<Rightarrow> stage_on G r g stmt (rt\<lparr> ro_pin := PGlobal {p, r} g \<rparr>) w))))"

definition dispatch_pinned ::
  "('d, 'w, 'j, 'r, 'm) gateway \<Rightarrow> range_id option \<Rightarrow> ('d, 'w, 'j) stmt \<Rightarrow> router \<Rightarrow> 'm world
     \<Rightarrow> (exec_error + 'r query_result) \<times> router \<times> 'm world" where
  "dispatch_pinned G pinning stmt rt w =
     (case ro_pin rt of
        PNone \<Rightarrow> run_on G (case pinning of Some r \<Rightarrow> r | None \<Rightarrow> 0) stmt rt w
      | POpen \<Rightarrow>
          (case pinning of
             None \<Rightarrow> run_on G 0 stmt rt w
           | Some r \<Rightarrow>
               if led_here G rt r then
                 (case ensure_began_on G r (rt\<lparr> ro_pin := PRange r \<rparr>) w of
                    (Inl e, rt) \<Rightarrow> (Inl e, rt, w)
                  | (Inr _, rt) \<Rightarrow> run_on G r stmt rt w)
               else escalate G None r stmt rt w)
      | PRange p \<Rightarrow>
          (case pinning of
             Some r \<Rightarrow> if r \<noteq> p then escalate G (Some p) r stmt rt w else run_on G p stmt rt w
           | None \<Rightarrow> run_on G p stmt rt w)
      | PGlobal ranges g \<Rightarrow>
          (case pinning of
             Some r \<Rightarrow> stage_on G r g stmt (rt\<lparr> ro_pin := PGlobal (insert r ranges) g \<rparr>) w
           | None \<Rightarrow> run_on G 0 stmt rt w))"

definition dispatch ::
  "('d, 'w, 'j, 'r, 'm) gateway \<Rightarrow> ('d, 'w, 'j) stmt \<Rightarrow> router \<Rightarrow> 'm world \<Rightarrow> (exec_error + 'r query_result) \<times> router \<times> 'm world" where
  "dispatch G stmt rt w =
     (case pinning_range G rt stmt of
        Inl e \<Rightarrow> (Inl e, rt, w)
      | Inr pinning \<Rightarrow>
          if is_write stmt \<and> (\<exists>r. pinning = Some r \<and> led_here G rt r \<and> \<not> gw_serving G r) then (Inl ENotLeader, rt, w)
          else (case stmt of
                  SBegin _ \<Rightarrow> run_on G 0 stmt (if ro_pin rt = PNone then rt\<lparr> ro_pin := POpen \<rparr> else rt) w
                | SCommit \<Rightarrow> finish_txn G stmt rt w
                | SRollback \<Rightarrow> finish_txn G stmt rt w
                | _ \<Rightarrow> dispatch_pinned G pinning stmt rt w))"

definition router_tx_status :: "router \<Rightarrow> tx_status" where
  "router_tx_status rt = (if ro_pin rt = PNone then TxIdle else TxInTransaction)"

text \<open>A query frame: its statements run until one fails.\<close>

fun dispatch_all ::
  "(('d, 'w, 'j, 'r, 'm) gateway \<times> ('d, 'w, 'j) stmt) list \<Rightarrow> router \<Rightarrow> 'm world
     \<Rightarrow> (pg_error + 'r query_result list) \<times> router \<times> 'm world" where
  "dispatch_all [] rt w = (Inr [], rt, w)"
| "dispatch_all ((G, stmt) # rest) rt w =
     (case dispatch G stmt rt w of
        (Inl e, rt, w) \<Rightarrow> (Inl (into_pg e), rt, w)
      | (Inr res, rt, w) \<Rightarrow>
          (case dispatch_all rest rt w of
             (Inl e, rt, w) \<Rightarrow> (Inl e, rt, w)
           | (Inr results, rt, w) \<Rightarrow> (Inr (res # results), rt, w)))"

section \<open>Frames\<close>

lemma session_of_put [simp]: "session_of (put_session r s rt) r' = (if r' = r then s else session_of rt r')"
  by (simp add: session_of_def put_session_def split: option.splits)

lemma session_of_pin [simp]: "session_of (rt\<lparr> ro_pin := p \<rparr>) r = session_of rt r"
  by (simp add: session_of_def split: option.splits)

lemma put_session_fields [simp]:
  "ro_pin (put_session r s rt) = ro_pin rt" "ro_map (put_session r s rt) = ro_map rt" "ro_engines (put_session r s rt) = ro_engines rt"
  by (simp_all add: put_session_def)

lemma led_here_fields [simp]:
  "led_here G (put_session r s rt) r' = led_here G rt r'" "led_here G (rt\<lparr> ro_pin := p \<rparr>) r' = led_here G rt r'"
  by (simp_all add: led_here_def)

lemma put_shared_simps [simp]:
  "wd_shared (put_shared r sh w) = (wd_shared w)(r := sh)" "wd_gtm (put_shared r sh w) = wd_gtm w"
  by (simp_all add: put_shared_def)

lemma set_kv_shared [simp]:
  "wd_shared (set_kv r kv w) r' = (if r' = r then (wd_shared w r)\<lparr> sh_kv := kv \<rparr> else wd_shared w r')"
  by (simp add: set_kv_def)

lemma run_on_led:
  assumes "led_here G rt r" and "run_on G r stmt rt w = (res, rt', w')"
  shows "\<exists>s sh. run_one (gw_exec G) (gw_env G r) stmt (session_of rt r) (wd_shared w r) = (res, s, sh)
    \<and> rt' = put_session r s rt \<and> w' = put_shared r sh w"
  using assms by (auto simp: run_on_def split: prod.splits)

lemma range_of_pin [simp]: "range_of G (rt\<lparr> ro_pin := p \<rparr>) n = range_of G rt n" "range_of G (put_session r s rt) n = range_of G rt n"
  by (simp_all add: range_of_def)

text \<open>A write inside a block gives the block an id.\<close>

lemma write_has_xid:
  assumes "in_txn s" and "write_in_block X env w s sh = (r, s', sh')"
  shows "local_xid s' \<noteq> None"
proof -
  obtain s1 sh1 where e: "ensure_write_xid s sh = (s1, sh1)" by force
  obtain kv pa x where b: "begin_write (sh_kv sh, sh_pa sh) = ((kv, pa), x)" by (metis surj_pair)
  from e assms(1) obtain c1 where c1: "se_state s1 = InTransaction c1" "tc_xid c1 \<noteq> None"
    by (auto simp: ensure_write_xid_def b in_txn_def map_ctx_def split: txn_state.splits if_splits)
  then have i: "ensure_write_xid s1 sh1 = (s1, sh1)" by (auto simp: ensure_write_xid_def)
  have "write_in_block X env w s1 sh1 = (r, s', sh')" using assms(2) by (simp add: write_in_block_def e i)
  moreover have "in_txn s1" using c1 by (simp add: in_txn_def)
  ultimately have "same_block s1 s'" by (rule same_block_write [rotated])
  then show ?thesis using c1 by (auto simp: same_block_def local_xid_def)
qed

section \<open>Global decisions\<close>

text \<open>With the in-process coordinator, releasing touches only sessions led here and writes nothing.\<close>

lemma release_ranges_local:
  assumes "release_ranges G (local_coordinator commit) g committed rs rt w = (rt', w')" and "distinct rs"
  shows "ro_pin rt' = ro_pin rt \<and> wd_gtm w' = wd_gtm w
    \<and> (\<forall>r. sh_kv (wd_shared w' r) = sh_kv (wd_shared w r)
          \<and> (if r \<in> set rs \<and> led_here G rt r
             then se_state (session_of rt' r) = Idle \<and> (\<forall>x. local_xid (session_of rt r) = Some x \<longrightarrow> quiet (wd_shared w' r) x)
             else session_of rt' r = session_of rt r \<and> wd_shared w' r = wd_shared w r))"
  using assms
proof (induction rs arbitrary: rt w)
  case (Cons a rs)
  show ?case
  proof (cases "led_here G rt a")
    case True
    obtain s sh where f: "finish_current_txn (session_of rt a) (wd_shared w a) = (s, sh)" by force
    have "release_ranges G (local_coordinator commit) g committed rs (put_session a s rt) (put_shared a sh w) = (rt', w')"
      using Cons.prems(1) True f by (cases committed) (simp_all add: commit_release_def abort_release_def)
    note ih = Cons.IH [OF this]
    from f have s: "se_state s = Idle" and k: "sh_kv sh = sh_kv (wd_shared w a)" and q: "\<And>x. local_xid (session_of rt a) = Some x \<Longrightarrow> quiet sh x"
      by (auto simp: finish_current_txn_def finish_xid_def quiet_def pa_finish_def drop_holder_holders split: option.splits)
    have d: "distinct rs" "a \<notin> set rs" using Cons.prems(2) by simp_all
    note i = ih [OF d(1), THEN conjunct2, THEN conjunct2, rule_format]
    have "ro_pin rt' = ro_pin rt \<and> wd_gtm w' = wd_gtm w" using ih [OF d(1)] by simp
    moreover have "sh_kv (wd_shared w' r) = sh_kv (wd_shared w r)
          \<and> (if r \<in> set (a # rs) \<and> led_here G rt r
             then se_state (session_of rt' r) = Idle \<and> (\<forall>x. local_xid (session_of rt r) = Some x \<longrightarrow> quiet (wd_shared w' r) x)
             else session_of rt' r = session_of rt r \<and> wd_shared w' r = wd_shared w r)" for r
      using i [of r] d s k q True by (cases "r = a") auto
    ultimately show ?thesis by blast
  next
    case False
    have "release_ranges G (local_coordinator commit) g committed rs rt w = (rt', w')"
      using Cons.prems(1) False by (simp add: no_remote_def)
    from Cons.IH [OF this] show ?thesis using Cons.prems(2) False by auto
  qed
qed simp

lemma local_commit_global_effect:
  assumes "replicated_committer commit good_store" and "good_store (sh_kv (wd_shared w 0))"
    and "local_commit_global commit g do_commit w = (Inr committed, w')"
  shows "\<exists>d. is_outcome d \<and> committed = (d = Committed) \<and> clog_get (sh_kv (wd_shared w' 0)) g = Inr d
      \<and> (\<forall>d0. clog_get (sh_kv (wd_shared w 0)) g = Inr d0 \<and> is_outcome d0 \<longrightarrow> d = d0)
      \<and> ((\<nexists>d0. clog_get (sh_kv (wd_shared w 0)) g = Inr d0 \<and> is_outcome d0) \<longrightarrow> d = (if do_commit then Committed else Aborted))"
    and "x \<noteq> g \<Longrightarrow> clog_get (sh_kv (wd_shared w' 0)) x = clog_get (sh_kv (wd_shared w 0)) x"
    and "wd_shared w' r = (wd_shared w r)\<lparr> sh_kv := (if r = 0 then sh_kv (wd_shared w' 0) else sh_kv (wd_shared w r)) \<rparr>"
proof -
  let ?st = "if do_commit then Committed else Aborted"
  obtain e kv where c: "commit_global_decision commit (sh_kv (wd_shared w 0)) (wd_gtm w) g ?st = (e, kv)" by force
  from assms(3) c obtain d where d: "e = Inr d" "committed = (d = Committed)" and w': "w' = (set_kv 0 kv w)\<lparr> wd_gtm := finish_global (wd_gtm (set_kv 0 kv w)) g \<rparr>"
    by (auto simp: local_commit_global_def Let_def split: sum.splits)
  have st: "is_outcome ?st" by (simp add: is_outcome_def)
  note eff = replicated_committer.decision_effective [OF assms(1), OF assms(2) st, of "wd_gtm w" g d, unfolded c, simplified, OF d(1)]
  have kv: "sh_kv (wd_shared w' 0) = kv" by (simp add: w')
  show "\<exists>d. is_outcome d \<and> committed = (d = Committed) \<and> clog_get (sh_kv (wd_shared w' 0)) g = Inr d
      \<and> (\<forall>d0. clog_get (sh_kv (wd_shared w 0)) g = Inr d0 \<and> is_outcome d0 \<longrightarrow> d = d0)
      \<and> ((\<nexists>d0. clog_get (sh_kv (wd_shared w 0)) g = Inr d0 \<and> is_outcome d0) \<longrightarrow> d = ?st)"
    unfolding kv using eff d(2) by (intro exI [of _ d]) fastforce
  show "clog_get (sh_kv (wd_shared w' 0)) x = clog_get (sh_kv (wd_shared w 0)) x" if "x \<noteq> g"
    using replicated_committer.decision_frame [OF assms(1), OF assms(2) that, of "wd_gtm w" ?st] c kv by simp
  show "wd_shared w' r = (wd_shared w r)\<lparr> sh_kv := (if r = 0 then sh_kv (wd_shared w' 0) else sh_kv (wd_shared w r)) \<rparr>"
    by (simp add: w')
qed

section \<open>Properties\<close>

lemma closing_dispatch: "closes stmt \<Longrightarrow> dispatch G stmt rt w = finish_txn G stmt rt w"
  by (cases stmt) (simp_all add: dispatch_def)

lemma global_close:
  assumes "ro_pin rt = PGlobal ranges g" and "gw_coord G = Some (local_coordinator commit)" and "replicated_committer commit good_store"
    and "good_store (sh_kv (wd_shared w 0))" and "closes stmt" and "dispatch G stmt rt w = (Inr res, rt', w')"
  shows "\<exists>d. is_outcome d \<and> clog_get (sh_kv (wd_shared w' 0)) g = Inr d
      \<and> (\<forall>d0. clog_get (sh_kv (wd_shared w 0)) g = Inr d0 \<and> is_outcome d0 \<longrightarrow> d = d0)
      \<and> ((\<nexists>d0. clog_get (sh_kv (wd_shared w 0)) g = Inr d0 \<and> is_outcome d0) \<longrightarrow> d = (if stmt = SCommit then Committed else Aborted))
      \<and> res = Command (if d = Committed then ''COMMIT'' else ''ROLLBACK'')
      \<and> (\<forall>x. x \<noteq> g \<longrightarrow> clog_get (sh_kv (wd_shared w' 0)) x = clog_get (sh_kv (wd_shared w 0)) x)
      \<and> (\<forall>r. r \<noteq> 0 \<longrightarrow> sh_kv (wd_shared w' r) = sh_kv (wd_shared w r))
      \<and> router_tx_status rt' = TxIdle
      \<and> (\<forall>r\<in>ranges. led_here G rt r \<longrightarrow> sess_tx_status (session_of rt' r) = TxIdle
            \<and> (\<forall>x. local_xid (session_of rt r) = Some x \<longrightarrow> quiet (wd_shared w' r) x))"
proof -
  let ?rt = "rt\<lparr> ro_pin := PNone \<rparr>"
  obtain c w1 where c: "local_commit_global commit g (stmt = SCommit) w = (c, w1)" by force
  have f: "finish_txn G stmt rt w = (Inr res, rt', w')" using assms(5,6) by (simp add: closing_dispatch)
  then obtain committed where cc: "c = Inr committed"
    using assms(1,2) c by (cases c) (simp_all add: finish_txn_def)
  obtain rt2 w2 where rel: "release_ranges G (local_coordinator commit) g committed (sorted_list_of_set ranges) ?rt w1 = (rt2, w2)" by force
  have r: "res = Command (if committed then ''COMMIT'' else ''ROLLBACK'')" "rt' = rt2" "w' = w2"
    using f assms(1,2) c cc rel by (simp_all add: finish_txn_def)
  note eff = local_commit_global_effect [OF assms(3,4) c [unfolded cc]]
  have fin: "finite ranges" by simp
  have loc: "ro_pin rt2 = PNone" "\<And>r. sh_kv (wd_shared w2 r) = sh_kv (wd_shared w1 r)"
    "\<And>r. r \<in> ranges \<Longrightarrow> led_here G rt r \<Longrightarrow> se_state (session_of rt2 r) = Idle
      \<and> (\<forall>x. local_xid (session_of rt r) = Some x \<longrightarrow> quiet (wd_shared w2 r) x)"
    using release_ranges_local [OF rel] fin by auto
  have "sh_kv (wd_shared w2 r') = sh_kv (wd_shared w r')" if "r' \<noteq> 0" for r'
    using loc(2) [of r'] eff(3) [of r'] that by simp
  moreover have "clog_get (sh_kv (wd_shared w2 0)) x = clog_get (sh_kv (wd_shared w 0)) x" if "x \<noteq> g" for x
    using loc(2) [of 0] eff(2) [OF that] by simp
  ultimately show ?thesis
    using eff(1) loc unfolding r by (auto simp: router_tx_status_def sess_tx_status_def)
qed


lemma pin_kept:
  "ensure_began_on G r rt w = (a, rt') \<Longrightarrow> ro_pin rt' = ro_pin rt"
  "join_on G r g rt w = (a, rt', w') \<Longrightarrow> ro_pin rt' = ro_pin rt"
  "run_on G r stmt rt w = (b, rt', w') \<Longrightarrow> ro_pin rt' = ro_pin rt"
  by (auto simp: ensure_began_on_def join_on_def run_on_def split: prod.splits if_splits)

lemma stage_pin_kept: "stage_on G r g stmt rt w = (a, rt', w') \<Longrightarrow> ro_pin rt' = ro_pin rt"
  by (auto simp: stage_on_def split: prod.splits sum.splits if_splits option.splits dest!: pin_kept)

lemma global_pin_kept:
  assumes "ro_pin rt = PGlobal ranges g" and "\<not> closes stmt" and "dispatch G stmt rt w = (a, rt', w')"
  shows "\<exists>ranges'. ro_pin rt' = PGlobal ranges' g"
  using assms
  by (cases stmt) (auto simp: dispatch_def dispatch_pinned_def split: sum.splits option.splits if_splits dest!: pin_kept(3) stage_pin_kept)


text \<open>C11.
  COMMIT ignores a failed statement of a global transaction. When a statement of a global
  transaction fails, the router still reports an open transaction, and a COMMIT that follows and
  succeeds answers COMMIT and records Committed for the transaction if it was undecided, although
  in a transaction on one range the same COMMIT would answer ROLLBACK.
\<close>

theorem global_commit_after_failure:
  assumes "ro_pin rt = PGlobal ranges g" and "\<not> closes stmt" and "dispatch G1 stmt rt w = (Inl e, rt1, w1)"
    and "gw_coord G = Some (local_coordinator commit)" and "replicated_committer commit good_store" and "good_store (sh_kv (wd_shared w1 0))"
    and "clog_get (sh_kv (wd_shared w1 0)) g = Inr InProgress" and "dispatch G SCommit rt1 w1 = (Inr res, rt2, w2)"
  shows "router_tx_status rt1 = TxInTransaction \<and> res = Command ''COMMIT'' \<and> clog_get (sh_kv (wd_shared w2 0)) g = Inr Committed"
proof -
  from global_pin_kept [OF assms(1-3)] obtain ranges' where p: "ro_pin rt1 = PGlobal ranges' g" by blast
  have cl: "closes SCommit" by simp
  from global_close [OF p assms(4-6) cl assms(8)] show ?thesis
    using p assms(7) by (auto simp: router_tx_status_def is_outcome_def)
qed

text \<open>A gateway with two local ranges, and a global transaction open on range 1.\<close>

definition two_ranges :: "(unit, unit, int, unit, unit) gateway" where
  "two_ranges =
     \<lparr> gw_exec = \<lparr> x_ddl = (\<lambda>_ _. Inl (EUnsupported ''ddl'')), x_write = (\<lambda>cat gs snap x rr w ctx sh. (Inr (Command ''UPDATE 0'', []), sh)),
         x_read = (\<lambda>cat kv gs snap own q ctx. Inl EDeadlock), x_read_locking = (\<lambda>cat gs snap x rr m q ctx sh. (Inl EDeadlock, sh)) \<rparr>,
       gw_env = (\<lambda>_. sample_env 0), gw_leads = (\<lambda>_. True), gw_serving = (\<lambda>_. True), gw_catalog = sample_catalog,
       gw_forward = (\<lambda>_ _ m. (Inl ENotLeader, m)), gw_coord = Some (local_coordinator (raft_commit WriteOk)) \<rparr>"

definition global_router :: router where
  "global_router = (router_new sample_map {0, 1} (\<lambda>_. True) (\<lambda>r. r \<noteq> 0))
     \<lparr> ro_pin := PGlobal {1} GLOBAL_XID_BASE, ro_sessions := [1 \<mapsto> fst sample_block] \<rparr>"

definition global_world :: "unit world" where
  "global_world = \<lparr> wd_shared = (\<lambda>r. if r = 1 then snd sample_block else sample_shared),
     wd_gtm = \<lparr> g_next_global = GLOBAL_XID_BASE + 1, g_running = {GLOBAL_XID_BASE} \<rparr>, wd_remote = () \<rparr>"

lemma global_world_0: "sh_kv (wd_shared global_world 0) = kv_new"
  by (simp add: global_world_def sample_shared_def)

lemma raft_ok_decides:
  assumes "good_store (sh_kv (wd_shared w 0))" and "clog_get (sh_kv (wd_shared w 0)) g = Inr InProgress"
  shows "\<exists>w'. local_commit_global (raft_commit WriteOk) g b w = (Inr b, w')"
proof -
  let ?st = "if b then Committed else Aborted" and ?kv = "sh_kv (wd_shared w 0)"
  have nd: "\<not> is_decided (kv_get ?kv (clog_key g))"
    unfolding decided_outcome using assms(2) by (simp add: is_outcome_def)
  have "clog_get (snd (raft_commit WriteOk [clog_put_op g ?st, next_global_xid_op (wd_gtm w)] ?kv)) g = Inr ?st"
    by (rule raftc.status_recorded [OF assms(1) _ _ nd]) (simp_all add: next_global_op_key raft_commit_def)
  then show ?thesis by (auto simp: local_commit_global_def commit_global_decision_def raft_commit_def Let_def)
qed

lemma global_router_commit:
  assumes "clog_get (sh_kv (wd_shared w 0)) GLOBAL_XID_BASE = Inr InProgress" and "good_store (sh_kv (wd_shared w 0))"
  shows "\<exists>res rt' w'. dispatch two_ranges SCommit global_router w = (Inr res, rt', w')"
proof -
  obtain w1 where "local_commit_global (raft_commit WriteOk) GLOBAL_XID_BASE True w = (Inr True, w1)"
    using raft_ok_decides [OF assms(2,1)] by blast
  moreover have "ro_pin global_router = PGlobal {1} GLOBAL_XID_BASE" "gw_coord two_ranges = Some (local_coordinator (raft_commit WriteOk))"
    by (simp_all add: global_router_def two_ranges_def)
  ultimately show ?thesis by (simp add: closing_dispatch finish_txn_def split_beta Let_def)
qed


theorem global_commit_after_failure_witness:
  "\<exists>e rt2 w2. dispatch two_ranges (SQuery (from_query [[99]])) global_router global_world = (Inl e, global_router, global_world)
     \<and> dispatch two_ranges SCommit global_router global_world = (Inr (Command ''COMMIT''), rt2, w2)"
proof -
  have "\<exists>e. get_table sample_catalog [99] = Inl e"
    by (simp add: get_table_def sample_catalog_def kv_get_batch del: write_batch_simps)
  then obtain e where f: "dispatch two_ranges (SQuery (from_query [[99]])) global_router global_world = (Inl e, global_router, global_world)"
    by (auto simp: dispatch_def query_range_def from_query_def collect_table_name_def table_range_def two_ranges_def)
  have g: "good_store (sh_kv (wd_shared global_world 0))" "clog_get (sh_kv (wd_shared global_world 0)) GLOBAL_XID_BASE = Inr InProgress"
    by (simp_all add: global_world_0 sample_store)
  obtain res rt' w' where d: "dispatch two_ranges SCommit global_router global_world = (Inr res, rt', w')"
    using global_router_commit [OF g(2,1)] by blast
  have pin: "ro_pin global_router = PGlobal {1} GLOBAL_XID_BASE" by (simp add: global_router_def)
  have co: "gw_coord two_ranges = Some (local_coordinator (raft_commit WriteOk))" by (simp add: two_ranges_def)
  have cl: "\<not> closes (SQuery (from_query [[99]]))" by simp
  from global_commit_after_failure [OF pin cl f co raftc.replicated_committer_axioms g d] show ?thesis using f d by auto
qed

text \<open>C12.
  A transaction on another range leaves range 0 inside a block. Open a transaction with BEGIN, run
  one write on a table of a local range other than 0, and COMMIT, all successfully. The router then
  reports an idle connection, but the session of range 0, where BEGIN ran, is still inside the
  block. A later write on a table of range 0, sent outside any transaction, runs inside that block:
  its transaction stays open after the statement has been answered.
\<close>

theorem commit_leaves_range0_open:
  fixes G1 G2 G3 G4 :: "('d, 'w, 'j, 'r, 'm) gateway"
  assumes "ro_pin rt = PNone" and "sess_tx_status (session_of rt 0) = TxIdle" and "r \<noteq> 0"
    and led: "led_here G1 rt 0" "led_here G2 rt r" "led_here G3 rt r" "led_here G4 rt 0"
    and b: "dispatch G1 (SBegin None) rt w = (Inr res1, rt1, w1)"
    and u: "range_of G2 rt t = Inr r" "dispatch G2 (SWrite (t, x)) rt1 w1 = (Inr res2, rt2, w2)"
    and c: "dispatch G3 SCommit rt2 w2 = (Inr res3, rt3, w3)"
    and v: "range_of G4 rt t' = Inr 0" "dispatch G4 (SWrite (t', x')) rt3 w3 = (Inr res4, rt4, w4)"
  shows "router_tx_status rt3 = TxIdle \<and> in_txn (session_of rt3 0)
    \<and> router_tx_status rt4 = TxIdle \<and> in_txn (session_of rt4 0) \<and> local_xid (session_of rt4 0) \<noteq> None"
proof -
  have i0: "se_state (session_of rt 0) = Idle" using assms(2) by (simp add: sess_tx_status_def split: txn_state.splits)
  have e1: "run_on G1 0 (SBegin None) (rt\<lparr> ro_pin := POpen \<rparr>) w = (Inr res1, rt1, w1)"
    using b assms(1) by (simp add: dispatch_def)
  have l1: "led_here G1 (rt\<lparr> ro_pin := POpen \<rparr>) 0" using led(1) by simp
  from run_on_led [OF l1 e1] obtain s1 sh1 where s1: "run_one (gw_exec G1) (gw_env G1 0) (SBegin None) (session_of rt 0) (wd_shared w 0) = (Inr res1, s1, sh1)"
    and rt1: "rt1 = put_session 0 s1 (rt\<lparr> ro_pin := POpen \<rparr>)" by auto
  have t1: "in_txn s1"
    using run_one_okD [OF s1] i0 by (auto simp: begin_cmd_def in_txn_def split: sum.splits)
  have "range_of G2 rt1 t = Inr r" "led_here G2 rt1 r" using u(1) led(2) by (simp_all add: rt1)
  then obtain rtb where eb: "ensure_began_on G2 r (rt1\<lparr> ro_pin := PRange r \<rparr>) w1 = (Inr (), rtb)"
    and e2: "run_on G2 r (SWrite (t, x)) rtb w1 = (Inr res2, rt2, w2)"
    using u(2) by (auto simp: dispatch_def dispatch_pinned_def rt1 split: if_splits prod.splits sum.splits)
  from eb obtain sb where rtb: "rtb = put_session r sb (rt1\<lparr> ro_pin := PRange r \<rparr>)" by (auto simp: ensure_began_on_def split: prod.splits)
  have "led_here G2 rtb r" using led(2) by (simp add: rtb rt1)
  from run_on_led [OF this e2] obtain s2 where rt2: "rt2 = put_session r s2 rtb" by auto
  have "run_on G3 r SCommit (rt2\<lparr> ro_pin := PNone \<rparr>) w2 = (Inr res3, rt3, w3)"
    using c by (simp add: closing_dispatch finish_txn_def rt2 rtb)
  moreover have "led_here G3 (rt2\<lparr> ro_pin := PNone \<rparr>) r" using led(3) by (simp add: rt2 rtb rt1)
  ultimately obtain s3 where rt3: "rt3 = put_session r s3 (rt2\<lparr> ro_pin := PNone \<rparr>)" using run_on_led by blast
  have p3: "ro_pin rt3 = PNone" "session_of rt3 0 = s1" using assms(3) by (simp_all add: rt3 rt2 rtb rt1)
  have l4: "led_here G4 rt3 0" "range_of G4 rt3 t' = Inr 0" using led(4) v(1) by (simp_all add: rt3 rt2 rtb rt1)
  then have "run_on G4 0 (SWrite (t', x')) rt3 w3 = (Inr res4, rt4, w4)"
    using v(2) p3 by (auto simp: dispatch_def dispatch_pinned_def split: if_splits)
  from run_on_led [OF l4(1) this] obtain s4 sh4 where
    s4: "run_one (gw_exec G4) (gw_env G4 0) (SWrite (t', x')) s1 (wd_shared w3 0) = (Inr res4, s4, sh4)" and rt4: "rt4 = put_session 0 s4 rt3"
    using p3 by auto
  have "in_txn s4" using run_one_in_block [OF t1 _ s4] same_block_txn by simp
  moreover have "local_xid s4 \<noteq> None"
    using write_has_xid [OF t1] run_one_okD [OF s4] t1 by (simp add: run_write_def)
  ultimately show ?thesis using p3 t1 by (simp add: rt4 router_tx_status_def)
qed

lemma two_ranges_write:
  assumes "in_txn s" and "se_global_xid s = None"
  shows "\<exists>s' sh'. run_one (gw_exec two_ranges) (gw_env two_ranges r) (SWrite (t, ())) s sh = (Inr (Command ''UPDATE 0''), s', sh')"
proof -
  let ?X = "gw_exec two_ranges" and ?env = "gw_env two_ranges r"
  obtain s1 sh1 where e: "ensure_write_xid s sh = (s1, sh1)" by force
  obtain s2 gs where b: "block_snapshots ?env s1 sh1 = (s2, gs)" by force
  have t1: "in_txn s1" using same_block_txn [OF same_block_ensure [OF assms(1) e]] by simp
  then obtain c1 where c1: "se_state s1 = InTransaction c1" by (auto simp: in_txn_def split: txn_state.splits)
  note b2 = block_snapshots_block [OF b c1]
  obtain c2 where c2: "se_state s2 = InTransaction c2" using b2(1) by auto
  have "cat_ok ?env" by (simp add: two_ranges_def sample_cat_ok)
  then obtain g where g: "gs = Inr g" using b2(5) by blast
  have gx: "se_global_xid s2 = None"
    using assms(2) e b2(3) by (auto simp: ensure_write_xid_def map_ctx_def split: txn_state.splits prod.splits if_splits)
  have "ensure_global_readable ?env s1 = Inr ()" by (simp add: ensure_global_readable_def two_ranges_def sample_env_def)
  moreover have "x_write ?X cat gs sn x rr w ctx sh0 = (Inr (Command ''UPDATE 0'', []), sh0)" for cat gs sn x rr w ctx sh0
    by (simp add: two_ranges_def)
  moreover have "sh_commit ?env ops sh0 = (Inr (), sh0\<lparr> sh_kv := write_batch (sh_kv sh0) ops \<rparr>)" for ops sh0
    by (simp add: two_ranges_def sample_env_def sh_commit_def local_commit_def)
  ultimately have "\<exists>s' sh'. write_in_block ?X ?env (t, ()) s sh = (Inr (Command ''UPDATE 0''), s', sh')"
    using gx by (simp add: write_in_block_def e b g c2 stamp_marker_def map_ctx_def Let_def)
  then show ?thesis using assms(1) in_txn_not_failed [OF assms(1)] by (auto simp: run_one_def run_write_def)
qed

definition idle_router :: router where
  "idle_router = router_new sample_map {0, 1} (\<lambda>_. True) (\<lambda>r. r \<noteq> 0)"

definition idle_world :: "unit world" where
  "idle_world = \<lparr> wd_shared = (\<lambda>_. sample_shared), wd_gtm = \<lparr> g_next_global = GLOBAL_XID_BASE, g_running = {} \<rparr>, wd_remote = () \<rparr>"

lemma two_ranges_facts:
  "led_here two_ranges idle_router 0" "led_here two_ranges idle_router 1" "range_of two_ranges idle_router [98] = Inr 1"
  "range_of two_ranges idle_router [97] = Inr 0" "ro_pin idle_router = PNone" "session_of idle_router r = sess_new True (r \<noteq> 0)"
  "gw_serving two_ranges r"
proof -
  show "range_of two_ranges idle_router [98] = Inr 1" "range_of two_ranges idle_router [97] = Inr 0"
    using sample_tables by (auto simp: table_range_def range_of_def two_ranges_def idle_router_def router_new_def split: if_splits)
qed (simp_all add: led_here_def two_ranges_def idle_router_def router_new_def session_of_def)

theorem commit_leaves_range0_open_witness:
  "\<exists>rt1 w1 rt2 w2 rt3 w3 rt4 w4 res.
     dispatch two_ranges (SBegin None) idle_router idle_world = (Inr (Command ''BEGIN''), rt1, w1)
     \<and> dispatch two_ranges (SWrite ([98], ())) rt1 w1 = (Inr (Command ''UPDATE 0''), rt2, w2)
     \<and> dispatch two_ranges SCommit rt2 w2 = (Inr res, rt3, w3)
     \<and> dispatch two_ranges (SWrite ([97], ())) rt3 w3 = (Inr (Command ''UPDATE 0''), rt4, w4)
     \<and> router_tx_status rt4 = TxIdle \<and> in_txn (session_of rt4 0)"
proof -
  note f = two_ranges_facts
  let ?s = "sess_new True False" and ?env = "gw_env two_ranges"
  define s1 where "s1 = fst (snd (run_one (gw_exec two_ranges) (?env 0) (SBegin None) ?s sample_shared))"
  have s1: "run_one (gw_exec two_ranges) (?env 0) (SBegin None) ?s sample_shared = (Inr (Command ''BEGIN''), s1, sample_shared)"
    "in_txn s1" "se_global_xid s1 = None"
    by (simp_all add: s1_def two_ranges_def sample_simps)
  define rt1 where "rt1 = put_session 0 s1 (idle_router\<lparr> ro_pin := POpen \<rparr>)"
  have b: "dispatch two_ranges (SBegin None) idle_router idle_world = (Inr (Command ''BEGIN''), rt1, put_shared 0 sample_shared idle_world)"
    using f s1 by (simp add: dispatch_def run_on_def rt1_def idle_world_def)
  define w1 where "w1 = put_shared 0 sample_shared idle_world"
  define sb where "sb = snd (ensure_began (?env 1) (sess_new True True) sample_shared)"
  have sb: "ensure_began (?env 1) (sess_new True True) sample_shared = (Inr (), sb)" "in_txn sb" "se_global_xid sb = None"
    by (simp_all add: sb_def ensure_began_def two_ranges_def sample_simps)
  obtain s2 sh2 where s2: "run_one (gw_exec two_ranges) (?env 1) (SWrite ([98], ())) sb sample_shared = (Inr (Command ''UPDATE 0''), s2, sh2)"
    using two_ranges_write [OF sb(2,3)] by blast
  define rt2 where "rt2 = put_session 1 s2 (put_session 1 sb (rt1\<lparr> ro_pin := PRange 1 \<rparr>))"
  have r1: "range_of two_ranges rt1 [98] = Inr 1" "led_here two_ranges rt1 1" using f by (simp_all add: rt1_def)
  have u: "dispatch two_ranges (SWrite ([98], ())) rt1 w1 = (Inr (Command ''UPDATE 0''), rt2, put_shared 1 sh2 w1)"
    using r1 f sb(1) s2
    by (simp add: dispatch_def dispatch_pinned_def ensure_began_on_def run_on_def rt1_def rt2_def w1_def idle_world_def)
  obtain v s3 sh3 where s3: "run_one (gw_exec two_ranges) (?env 1) SCommit s2 sh2 = (Inr v, s3, sh3)"
    using local_close [of "?env 1" SCommit "gw_exec two_ranges" s2 sh2] by (auto simp: two_ranges_def sample_env_def)
  define rt3 where "rt3 = put_session 1 s3 (rt2\<lparr> ro_pin := PNone \<rparr>)"
  define w3 where "w3 = put_shared 1 sh3 (put_shared 1 sh2 w1)"
  have c: "dispatch two_ranges SCommit rt2 (put_shared 1 sh2 w1) = (Inr v, rt3, w3)"
    using f s3 by (simp add: closing_dispatch finish_txn_def run_on_def rt2_def rt1_def rt3_def w3_def)
  obtain s4 sh4 where s4: "run_one (gw_exec two_ranges) (?env 0) (SWrite ([97], ())) s1 sample_shared = (Inr (Command ''UPDATE 0''), s4, sh4)"
    using two_ranges_write [OF s1(2,3)] by blast
  have r3: "range_of two_ranges rt3 [97] = Inr 0" "led_here two_ranges rt3 0" using f by (simp_all add: rt3_def rt2_def rt1_def)
  have d: "dispatch two_ranges (SWrite ([97], ())) rt3 w3 = (Inr (Command ''UPDATE 0''), put_session 0 s4 rt3, put_shared 0 sh4 w3)"
    using r3 f s4 by (simp add: dispatch_def dispatch_pinned_def run_on_def rt3_def rt2_def rt1_def w3_def w1_def idle_world_def)
  have i: "sess_tx_status (session_of idle_router 0) = TxIdle" using f(6) [of 0] by (simp add: sess_new_def sess_tx_status_def)
  have ne: "(1 :: range_id) \<noteq> 0" by simp
  from commit_leaves_range0_open [OF f(5) i ne f(1,2,2,1) b f(3) u [unfolded w1_def] c [unfolded w1_def] f(4) d]
  show ?thesis using b u [unfolded w1_def] c [unfolded w1_def] d by blast
qed

end
