(* ===== verification/TwoPc.thy ===== *)
theory TwoPc
  imports Router Seq
begin

text \<open>
  The networked two-phase commit: the participant registry, coordinator and client of
  \<open>cluster/src/twopc.rs\<close>, the request handler of \<open>transport/server.rs\<close>, the recovery gate of
  \<open>recovery_gate.rs\<close> and the settle pass of \<open>server_node.rs\<close>. A request runs as one step on the node
  that serves it; requests, lost replies, retries, sweeps and crashes interleave freely. Leader
  resolution and the connection pool are represented by the outcome of an attempt. Raft metrics, the
  clock, the parser and the debug text of an error are parameters. Where a scan panics the handler
  returns \<open>None\<close>.

  The theorems: everybody who learns the outcome of a global transaction learns the one recorded in
  range 0, and participants free their locks only after it is recorded; the gate opens only when no
  inherited marker is undecided, and it does open when range 0 answers; and two flaws, a lock freed
  while its transaction is undecided and a retried request that runs its statement twice.
\<close>

section \<open>The wire\<close>

datatype 's txn_rpc =
    BeginGlobal
  | Stage xid range_id 's
  | CommitGlobal xid bool
  | Release xid range_id bool
  | GlobalBarrier

datatype txn_resp =
    Began xid
  | Staged
  | TCommitted
  | TAborted
  | Released
  | Barrier u64
  | TNotLeader
  | Retryable
  | TErr string

definition map_exec_err :: "(exec_error \<Rightarrow> string) \<Rightarrow> exec_error \<Rightarrow> txn_resp" where
  "map_exec_err debug e =
     (case e of
        ENotLeader \<Rightarrow> TNotLeader
      | ESerializationFailure \<Rightarrow> Retryable
      | EDeadlock \<Rightarrow> Retryable
      | other \<Rightarrow> TErr (debug other))"

section \<open>The client\<close>

text \<open>What becomes of one attempt: no leader is known, the exchange fails, or an answer arrives.\<close>

datatype attempt = NoLeader | Lost | Answer txn_resp

definition client_call :: "('s \<Rightarrow> attempt \<times> 's) \<Rightarrow> ('s \<Rightarrow> attempt \<times> 's) \<Rightarrow> 's \<Rightarrow> txn_resp option \<times> 's" where
  "client_call first second s =
     (let again = (\<lambda>s. case second s of (Answer resp, s) \<Rightarrow> (Some resp, s) | (_, s) \<Rightarrow> (None, s)) in
      case first s of
        (NoLeader, s) \<Rightarrow> (None, s)
      | (Answer resp, s) \<Rightarrow> if resp = TNotLeader then again s else (Some resp, s)
      | (Lost, s) \<Rightarrow> again s)"

section \<open>The networked coordinator\<close>

definition net_begin_global :: "txn_resp option \<Rightarrow> exec_error + xid" where
  "net_begin_global r = (case r of Some (Began g) \<Rightarrow> Inr g | Some TNotLeader \<Rightarrow> Inl ENotLeader | _ \<Rightarrow> Inl EUnavailable)"

definition net_stage_remote :: "txn_resp option \<Rightarrow> exec_error + unit" where
  "net_stage_remote r =
     (case r of
        Some Staged \<Rightarrow> Inr ()
      | Some TNotLeader \<Rightarrow> Inl ENotLeader
      | Some Retryable \<Rightarrow> Inl ESerializationFailure
      | Some (TErr e) \<Rightarrow> Inl (EUnsupported e)
      | _ \<Rightarrow> Inl EUnavailable)"

definition net_commit_global :: "txn_resp option \<Rightarrow> exec_error + bool" where
  "net_commit_global r =
     (case r of
        Some TCommitted \<Rightarrow> Inr True
      | Some TAborted \<Rightarrow> Inr False
      | Some TNotLeader \<Rightarrow> Inl ENotLeader
      | _ \<Rightarrow> Inl EUnavailable)"

definition net_release_remote :: "txn_resp option \<Rightarrow> exec_error + unit" where
  "net_release_remote r = (case r of Some Released \<Rightarrow> Inr () | Some TNotLeader \<Rightarrow> Inl ENotLeader | _ \<Rightarrow> Inl EUnavailable)"

definition net_coordinator ::
  "(range_id \<Rightarrow> ('d, 'w, 'j) stmt txn_rpc \<Rightarrow> 'm world \<Rightarrow> txn_resp option \<times> 'm world) \<Rightarrow> ('d, 'w, 'j, 'm) coordinator" where
  "net_coordinator call =
     \<lparr> co_begin = (\<lambda>w. apfst net_begin_global (call 0 BeginGlobal w)),
       co_stage_remote = (\<lambda>g r sql w. apfst net_stage_remote (call r (Stage g r sql) w)),
       co_commit = (\<lambda>g commit w. apfst net_commit_global (call 0 (CommitGlobal g commit) w)),
       co_release_remote = (\<lambda>g r commit w. apfst net_release_remote (call r (Release g r commit) w)) \<rparr>"

section \<open>The recovery gate\<close>

type_synonym node_id = u64

record metrics =
  mt_leader :: "node_id option"
  mt_is_leader :: bool
  mt_term :: u64

definition UNSETTLED :: u64 where
  "UNSETTLED = 0"

record recovery_gate =
  rg_ranges :: "range_id \<Rightarrow> u64 option"
  rg_id :: node_id

definition gate_new :: "node_id \<Rightarrow> recovery_gate" where
  "gate_new n = \<lparr> rg_ranges = Map.empty, rg_id = n \<rparr>"

definition register_range :: "range_id \<Rightarrow> recovery_gate \<Rightarrow> recovery_gate" where
  "register_range r gate = (if rg_ranges gate r = None then gate\<lparr> rg_ranges := (rg_ranges gate)(r \<mapsto> UNSETTLED) \<rparr> else gate)"

definition is_serving :: "(range_id \<Rightarrow> metrics) \<Rightarrow> recovery_gate \<Rightarrow> range_id \<Rightarrow> bool" where
  "is_serving mets gate r =
     (case rg_ranges gate r of
        None \<Rightarrow> True
      | Some served \<Rightarrow> mt_leader (mets r) = Some (rg_id gate) \<and> mt_is_leader (mets r) \<and> served = mt_term (mets r))"

definition mark_served :: "range_id \<Rightarrow> u64 \<Rightarrow> recovery_gate \<Rightarrow> recovery_gate" where
  "mark_served r term gate = (if rg_ranges gate r \<noteq> None then gate\<lparr> rg_ranges := (rg_ranges gate)(r \<mapsto> term) \<rparr> else gate)"

section \<open>The participant registry\<close>

record held_entry =
  he_session :: sql_session
  he_joined_at :: nat

text \<open>
  A node: for each hosted range whether its engine has a transaction manager and a range-0 barrier,
  the state of its ranges, the held sessions, the gate and range 0's transaction manager.
\<close>

record node =
  nd_engines :: "range_id \<Rightarrow> (bool \<times> bool) option"
  nd_shared :: "range_id \<Rightarrow> shared"
  nd_held :: "xid \<times> range_id \<Rightarrow> held_entry option"
  nd_gate :: "recovery_gate option"
  nd_gtm :: gtm

record ('d, 'w, 'q, 'r, 'j, 's) request_env =
  rq_exec :: "('d, 'w, 'q, 'r) exec_fns"
  rq_env :: "range_id \<Rightarrow> 'j env"
  rq_metrics :: "range_id \<Rightarrow> metrics"
  rq_now :: nat
  rq_parse :: "'s \<Rightarrow> parse_error + ('d, 'w, 'q) statement list"
  rq_debug :: "exec_error \<Rightarrow> string"
  rq_debug_status :: "xid_status \<Rightarrow> string"
  rq_linear0 :: "(unit + u64 option) option"

definition svc_is_serving :: "(range_id \<Rightarrow> metrics) \<Rightarrow> node \<Rightarrow> range_id \<Rightarrow> bool" where
  "svc_is_serving mets nd r = (case nd_gate nd of None \<Rightarrow> True | Some gate \<Rightarrow> is_serving mets gate r)"

definition register_engine :: "range_id \<Rightarrow> bool \<times> bool \<Rightarrow> node \<Rightarrow> node" where
  "register_engine r e nd = nd\<lparr> nd_engines := (nd_engines nd)(r \<mapsto> e) \<rparr>"

text \<open>Removing a held session and releasing it.\<close>

definition close_held :: "xid \<Rightarrow> range_id \<Rightarrow> bool \<Rightarrow> node \<Rightarrow> node" where
  "close_held g r commit nd =
     (case nd_held nd (g, r) of
        None \<Rightarrow> nd
      | Some e \<Rightarrow>
          (let (_, sh) = (if commit then commit_release (he_session e) (nd_shared nd r) else abort_release (he_session e) (nd_shared nd r))
           in nd\<lparr> nd_held := (nd_held nd)((g, r) := None), nd_shared := (nd_shared nd)(r := sh) \<rparr>))"

definition resolve_in_doubt :: "txn_resp option \<Rightarrow> xid \<Rightarrow> range_id \<Rightarrow> node \<Rightarrow> node" where
  "resolve_in_doubt answer g r nd =
     (case answer of
        Some TCommitted \<Rightarrow> close_held g r True nd
      | Some TAborted \<Rightarrow> close_held g r False nd
      | _ \<Rightarrow> nd)"

text \<open>The keys of the held sessions are given in the order in which the registry lists them.\<close>

fun resolve_all :: "(xid \<Rightarrow> txn_resp option) \<Rightarrow> (xid \<times> range_id) list \<Rightarrow> node \<Rightarrow> node" where
  "resolve_all answers [] nd = nd"
| "resolve_all answers ((g, r) # keys) nd = resolve_all answers keys (resolve_in_doubt (answers g) g r nd)"

definition resolve_and_release_for_range ::
  "(xid \<times> range_id) list \<Rightarrow> (xid \<Rightarrow> txn_resp option) \<Rightarrow> range_id \<Rightarrow> node \<Rightarrow> node" where
  "resolve_and_release_for_range keys answers rid nd = resolve_all answers (filter (\<lambda>(_, r). r = rid) keys) nd"

definition sweep_stale ::
  "(xid \<times> range_id) list \<Rightarrow> (xid \<Rightarrow> txn_resp option) \<Rightarrow> nat \<Rightarrow> nat \<Rightarrow> node \<Rightarrow> node" where
  "sweep_stale keys answers now timeout nd =
     resolve_all answers
       (filter (\<lambda>k. case nd_held nd k of Some e \<Rightarrow> timeout \<le> now - he_joined_at e | None \<Rightarrow> False) keys) nd"

fun release_all_for_range :: "(xid \<times> range_id) list \<Rightarrow> range_id \<Rightarrow> node \<Rightarrow> node" where
  "release_all_for_range [] rid nd = nd"
| "release_all_for_range ((g, r) # keys) rid nd =
     release_all_for_range keys rid (if r = rid then close_held g r False nd else nd)"

definition session_handle :: "nat \<Rightarrow> xid \<Rightarrow> range_id \<Rightarrow> node \<Rightarrow> sql_session option \<times> node" where
  "session_handle now g r nd =
     (case nd_engines nd r of
        None \<Rightarrow> (None, nd)
      | Some (has_gtm, has_barrier) \<Rightarrow>
          (case nd_held nd (g, r) of
             Some e \<Rightarrow> (Some (he_session e), nd)
           | None \<Rightarrow>
               (let s = sess_new has_gtm has_barrier
                in (Some s, nd\<lparr> nd_held := (nd_held nd)((g, r) \<mapsto> \<lparr> he_session = s, he_joined_at = now \<rparr>) \<rparr>))))"

text \<open>The work on the held session, under its lock.\<close>

definition stage_session ::
  "('d, 'w, 'q, 'r, 'j, 's) request_env \<Rightarrow> xid \<Rightarrow> range_id \<Rightarrow> ('d, 'w, 'q) statement \<Rightarrow> sql_session \<Rightarrow> shared \<Rightarrow> txn_resp \<times> sql_session \<times> shared" where
  "stage_session Q g r stmt s sh =
     (case ensure_began (rq_env Q r) s sh of
        (Inl e, s) \<Rightarrow> (map_exec_err (rq_debug Q) e, s, sh)
      | (Inr _, s) \<Rightarrow>
          (case join_global (rq_env Q r) g s sh of
             (Inl e, s, sh) \<Rightarrow> (map_exec_err (rq_debug Q) e, s, sh)
           | (Inr _, s, sh) \<Rightarrow>
               (case run_one (rq_exec Q) (rq_env Q r) stmt s sh of
                  (Inl e, s, sh) \<Rightarrow> (map_exec_err (rq_debug Q) e, s, sh)
                | (Inr _, s, sh) \<Rightarrow> (Staged, s, sh))))"

definition put_held :: "xid \<Rightarrow> range_id \<Rightarrow> sql_session \<Rightarrow> shared \<Rightarrow> node \<Rightarrow> node" where
  "put_held g r s sh nd =
     nd\<lparr> nd_held := (nd_held nd)((g, r) := map_option (\<lambda>e. e\<lparr> he_session := s \<rparr>) (nd_held nd (g, r))),
         nd_shared := (nd_shared nd)(r := sh) \<rparr>"

definition svc_stage ::
  "('d, 'w, 'q, 'r, 'j, 's) request_env \<Rightarrow> xid \<Rightarrow> range_id \<Rightarrow> 's \<Rightarrow> node \<Rightarrow> (txn_resp \<times> node) option" where
  "svc_stage Q g r sql nd =
     (if nd_engines nd r = None then Some (TNotLeader, nd)
      else if \<not> svc_is_serving (rq_metrics Q) nd r then Some (TNotLeader, nd)
      else case (if nd_held nd (g, r) = None then staged_local_for (sh_kv (nd_shared nd r)) g else Some (Inr None)) of
             None \<Rightarrow> None
           | Some (Inl e) \<Rightarrow> Some (map_exec_err (rq_debug Q) e, nd)
           | Some (Inr (Some _)) \<Rightarrow> Some (Staged, nd)
           | Some (Inr None) \<Rightarrow>
               (case rq_parse Q sql of
                  Inr [stmt] \<Rightarrow>
                    (case session_handle (rq_now Q) g r nd of
                       (None, nd) \<Rightarrow> Some (TNotLeader, nd)
                     | (Some s, nd) \<Rightarrow>
                         (let (resp, s, sh) = stage_session Q g r stmt s (nd_shared nd r)
                          in Some (resp, put_held g r s sh nd)))
                | _ \<Rightarrow> Some (TErr ''stage expects exactly one statement'', nd)))"

definition svc_release :: "xid \<Rightarrow> range_id \<Rightarrow> bool \<Rightarrow> node \<Rightarrow> txn_resp \<times> node" where
  "svc_release g r commit nd = (Released, close_held g r commit nd)"

definition svc_handle ::
  "('d, 'w, 'q, 'r, 'j, 's) request_env \<Rightarrow> 's txn_rpc \<Rightarrow> node \<Rightarrow> (txn_resp \<times> node) option" where
  "svc_handle Q rpc nd =
     (case rpc of
        Stage g r sql \<Rightarrow> svc_stage Q g r sql nd
      | Release g r commit \<Rightarrow> Some (svc_release g r commit nd)
      | _ \<Rightarrow> Some (TErr ''non-participant rpc routed to TxnService'', nd))"

section \<open>The request handler\<close>

definition put_kv0 :: "mem_kv \<Rightarrow> node \<Rightarrow> node" where
  "put_kv0 kv nd = nd\<lparr> nd_shared := (nd_shared nd)(0 := (nd_shared nd 0)\<lparr> sh_kv := kv \<rparr>) \<rparr>"

definition kv0 :: "node \<Rightarrow> mem_kv" where
  "kv0 nd = sh_kv (nd_shared nd 0)"

definition handle_begin :: "('d, 'w, 'q, 'r, 'j, 's) request_env \<Rightarrow> node \<Rightarrow> txn_resp \<times> node" where
  "handle_begin Q nd =
     (if \<not> svc_is_serving (rq_metrics Q) nd 0 then (TNotLeader, nd)
      else if nd_engines nd 0 = None then (TErr ''no range-0 engine'', nd)
      else (let (r, kv, gtm) = begin_global_durable (ev_commit (rq_env Q 0)) (kv0 nd) (nd_gtm nd)
            in (case r of
                  Inr g \<Rightarrow> Began g
                | Inl ENotLeader \<Rightarrow> TNotLeader
                | Inl e \<Rightarrow> TErr (rq_debug Q e),
                (put_kv0 kv nd)\<lparr> nd_gtm := gtm \<rparr>)))"

definition handle_commit :: "('d, 'w, 'q, 'r, 'j, 's) request_env \<Rightarrow> xid \<Rightarrow> bool \<Rightarrow> node \<Rightarrow> txn_resp \<times> node" where
  "handle_commit Q g commit nd =
     (if nd_engines nd 0 = None then (TErr ''no range-0 engine'', nd)
      else (let status = (if commit then Committed else Aborted);
                (r, kv) = commit_global_decision (ev_commit (rq_env Q 0)) (kv0 nd) (nd_gtm nd) g status;
                nd = put_kv0 kv nd
            in case r of
                 Inr eff \<Rightarrow>
                   (case eff of
                      Committed \<Rightarrow> TCommitted
                    | Aborted \<Rightarrow> TAborted
                    | other \<Rightarrow> TErr (''non-terminal effective decision '' @ rq_debug_status Q other),
                    nd\<lparr> nd_gtm := finish_global (nd_gtm nd) g \<rparr>)
               | Inl ENotLeader \<Rightarrow> (TNotLeader, nd)
               | Inl e \<Rightarrow> (TErr (rq_debug Q e), nd)))"

definition handle_txn ::
  "('d, 'w, 'q, 'r, 'j, 's) request_env \<Rightarrow> 's txn_rpc \<Rightarrow> node \<Rightarrow> (txn_resp \<times> node) option" where
  "handle_txn Q rpc nd =
     (case rpc of
        BeginGlobal \<Rightarrow> Some (handle_begin Q nd)
      | CommitGlobal g commit \<Rightarrow> Some (handle_commit Q g commit nd)
      | GlobalBarrier \<Rightarrow>
          Some (case rq_linear0 Q of
                  None \<Rightarrow> TErr ''no range-0 group''
                | Some (Inr index) \<Rightarrow> Barrier (case index of Some i \<Rightarrow> i | None \<Rightarrow> 0)
                | Some (Inl _) \<Rightarrow> TNotLeader, nd)
      | _ \<Rightarrow> svc_handle Q rpc nd)"

section \<open>Interleavings\<close>

text \<open>
  The cluster as far as global transactions see it: range 0's store after every committed entry, the
  nodes, and three logs that no code reads: the outcomes range 0 answered, the outcomes a coordinator
  passed on, and the held sessions that were released with the outcome used.
\<close>

record cluster =
  cl_kv0 :: mem_kv
  cl_nodes :: "node_id \<Rightarrow> node"
  cl_answers :: "(xid \<times> bool) list"
  cl_told :: "(xid \<times> bool) list"
  cl_freed :: "(node_id \<times> xid \<times> range_id \<times> bool) list"

definition outcome_of :: "bool \<Rightarrow> xid_status" where
  "outcome_of c = (if c then Committed else Aborted)"

definition resp_of :: "bool \<Rightarrow> txn_resp" where
  "resp_of c = (if c then TCommitted else TAborted)"

text \<open>The leader of range 0 answers from a replica that has applied every committed entry.\<close>

definition view :: "cluster \<Rightarrow> node_id \<Rightarrow> node" where
  "view cl n = put_kv0 (cl_kv0 cl) (cl_nodes cl n)"

definition put_node :: "node_id \<Rightarrow> node \<Rightarrow> cluster \<Rightarrow> cluster" where
  "put_node n nd cl = cl\<lparr> cl_nodes := (cl_nodes cl)(n := nd) \<rparr>"

definition keeps_decisions :: "mem_kv \<Rightarrow> mem_kv \<Rightarrow> bool" where
  "keeps_decisions kv kv' \<longleftrightarrow> good_store kv' \<and> (\<forall>g d. clog_get kv g = Inr d \<and> is_outcome d \<longrightarrow> clog_get kv' g = Inr d)"

definition freed_entry :: "cluster \<Rightarrow> node_id \<Rightarrow> xid \<Rightarrow> range_id \<Rightarrow> bool \<Rightarrow> (node_id \<times> xid \<times> range_id \<times> bool) list" where
  "freed_entry cl n g r c = (if nd_held (cl_nodes cl n) (g, r) = None then [] else [(n, g, r, c)])"

text \<open>The outcome of an attempt at a CommitGlobal: an outcome in it was answered by range 0 before.\<close>

definition heard :: "cluster \<Rightarrow> xid \<Rightarrow> attempt \<Rightarrow> bool" where
  "heard cl g a \<longleftrightarrow> (\<forall>c. a = Answer (resp_of c) \<longrightarrow> (g, c) \<in> set (cl_answers cl))"

definition crash :: "node \<Rightarrow> node" where
  "crash nd = nd\<lparr> nd_held := Map.empty, nd_shared := (\<lambda>r. (nd_shared nd r)\<lparr> sh_lk := lockmgr_new \<rparr>) \<rparr>"

text \<open>The requests of one deployment: one set of executors and one parser; range 0 writes through Raft.\<close>

definition request_of ::
  "'j ext \<Rightarrow> ('d, 'w, 'q, 'r) exec_fns \<Rightarrow> ('s \<Rightarrow> parse_error + ('d, 'w, 'q) statement list) \<Rightarrow> ('d, 'w, 'q, 'r, 'j, 's) request_env \<Rightarrow> bool" where
  "request_of E X P Q \<longleftrightarrow> rq_exec Q = X \<and> rq_parse Q = P \<and> (\<forall>r. ev_ext (rq_env Q r) = E) \<and> replicated_committer (ev_commit (rq_env Q 0)) good_store"

inductive request_step for E :: "'j ext" and X :: "('d, 'w, 'q, 'r) exec_fns" and P :: "'s \<Rightarrow> parse_error + ('d, 'w, 'q) statement list" where
  decide: "\<lbrakk>request_of E X P Q; handle_txn Q (CommitGlobal g c) (view cl n) = Some (resp, nd)\<rbrakk> \<Longrightarrow>
     request_step E X P cl ((put_node n nd cl)\<lparr> cl_kv0 := kv0 nd,
       cl_answers := (case resp of TCommitted \<Rightarrow> [(g, True)] | TAborted \<Rightarrow> [(g, False)] | _ \<Rightarrow> []) @ cl_answers cl \<rparr>)"
| begun: "\<lbrakk>request_of E X P Q; handle_txn Q BeginGlobal (view cl n) = Some (resp, nd)\<rbrakk> \<Longrightarrow>
     request_step E X P cl ((put_node n nd cl)\<lparr> cl_kv0 := kv0 nd \<rparr>)"
| write0: "\<lbrakk>list_all op_ok ops; \<forall>x. Delete (clog_key x) \<notin> set ops\<rbrakk> \<Longrightarrow>
     request_step E X P cl (cl\<lparr> cl_kv0 := snd (raft_commit w ops (cl_kv0 cl)) \<rparr>)"
| stage: "\<lbrakk>request_of E X P Q; handle_txn Q (Stage g r sql) (view cl n) = Some (resp, nd); keeps_decisions (cl_kv0 cl) (kv0 nd)\<rbrakk> \<Longrightarrow>
     request_step E X P cl ((put_node n nd cl)\<lparr> cl_kv0 := kv0 nd \<rparr>)"
| close: "\<lbrakk>heard cl g a; heard cl g b; net_commit_global (fst (client_call (Pair a) (Pair b) ())) = Inr c\<rbrakk> \<Longrightarrow>
     request_step E X P cl (cl\<lparr> cl_told := (g, c) # cl_told cl \<rparr>)"
| release: "\<lbrakk>(g, c) \<in> set (cl_told cl); request_of E X P Q; handle_txn Q (Release g r c) (cl_nodes cl n) = Some (resp, nd)\<rbrakk> \<Longrightarrow>
     request_step E X P cl ((put_node n nd cl)\<lparr> cl_freed := freed_entry cl n g r c @ cl_freed cl \<rparr>)"
| resolve: "\<lbrakk>heard cl g a; heard cl g b; fst (client_call (Pair a) (Pair b) ()) = answer\<rbrakk> \<Longrightarrow>
     request_step E X P cl ((put_node n (resolve_in_doubt answer g r (cl_nodes cl n)) cl)
       \<lparr> cl_freed := (case answer of Some TCommitted \<Rightarrow> freed_entry cl n g r True | Some TAborted \<Rightarrow> freed_entry cl n g r False | _ \<Rightarrow> []) @ cl_freed cl \<rparr>)"

inductive cluster_step for E X P where
  request: "request_step E X P cl cl' \<Longrightarrow> cluster_step E X P cl cl'"
| crashed: "cluster_step E X P cl (put_node n (crash (cl_nodes cl n)) cl)"

definition agreed :: "cluster \<Rightarrow> bool" where
  "agreed cl \<longleftrightarrow> good_store (cl_kv0 cl)
     \<and> (\<forall>(g, c) \<in> set (cl_answers cl). clog_get (cl_kv0 cl) g = Inr (outcome_of c))
     \<and> set (cl_told cl) \<subseteq> set (cl_answers cl)
     \<and> (\<forall>(n, g, r, c) \<in> set (cl_freed cl). (g, c) \<in> set (cl_answers cl))"

definition fresh :: "cluster \<Rightarrow> bool" where
  "fresh cl \<longleftrightarrow> good_store (cl_kv0 cl) \<and> cl_answers cl = [] \<and> cl_told cl = [] \<and> cl_freed cl = []"

lemma view_simps [simp]: "kv0 (view cl n) = cl_kv0 cl" "nd_held (view cl n) = nd_held (cl_nodes cl n)"
  by (simp_all add: view_def kv0_def put_kv0_def)

lemma put_kv0_simps [simp]: "kv0 (put_kv0 kv nd) = kv" "kv0 (nd\<lparr> nd_gtm := gt \<rparr>) = kv0 nd" "nd_gtm (put_kv0 kv nd) = nd_gtm nd"
    "nd_held (put_kv0 kv nd) = nd_held nd"
  by (simp_all add: kv0_def put_kv0_def)

lemma put_node_simps [simp]:
  "cl_kv0 (put_node n nd cl) = cl_kv0 cl" "cl_answers (put_node n nd cl) = cl_answers cl" "cl_told (put_node n nd cl) = cl_told cl"
  "cl_freed (put_node n nd cl) = cl_freed cl" "cl_nodes (put_node n nd cl) = (cl_nodes cl)(n := nd)"
  by (simp_all add: put_node_def)

lemma outcome_of_simps [simp]: "is_outcome (outcome_of c)" "outcome_of c = outcome_of c' \<longleftrightarrow> c = c'"
  by (auto simp: is_outcome_def outcome_of_def)

lemma client_call_heard:
  assumes "heard cl g a" and "heard cl g b" and "fst (client_call (Pair a) (Pair b) ()) = Some (resp_of c)"
  shows "(g, c) \<in> set (cl_answers cl)"
  using assms by (cases a; cases b; cases c) (auto simp: client_call_def heard_def resp_of_def split: if_splits)

lemma net_commit_resp: "net_commit_global r = Inr c \<Longrightarrow> r = Some (resp_of c)"
  by (auto simp: net_commit_global_def resp_of_def split: option.splits txn_resp.splits)

lemma batch_keeps_decisions:
  assumes "replicated_committer commit good_store" and "good_store kv" and "list_all op_ok ops" and "\<forall>x. Delete (clog_key x) \<notin> set ops"
  shows "keeps_decisions kv (snd (commit ops kv))"
proof -
  have "clog_get (snd (commit ops kv)) g = Inr d" if "clog_get kv g = Inr d" "is_outcome d" for g d
  proof -
    have "is_decided (kv_get kv (clog_key g))" using that unfolding decided_outcome by blast
    then have "kv_get (snd (commit ops kv)) (clog_key g) = kv_get kv (clog_key g)"
      using replicated_committer.decided_kept [OF assms(1), OF assms(2,3), of "clog_key g"] assms(4) by simp
    then show ?thesis using that(1) by (simp add: clog_get_def)
  qed
  moreover have "good_store (snd (commit ops kv))"
    using committer.ok_commit [OF replicated_committer.axioms(1), OF assms(1), OF assms(2,3)] .
  ultimately show ?thesis by (simp add: keeps_decisions_def)
qed

lemma begin_keeps_decisions:
  assumes "replicated_committer (ev_commit (rq_env Q 0)) good_store" and "good_store (kv0 nd)" and "handle_begin Q nd = (resp, nd')"
  shows "keeps_decisions (kv0 nd) (kv0 nd') \<and> nd_held nd' = nd_held nd"
proof -
  have ops: "list_all op_ok [next_global_xid_op gt]" "\<forall>x. Delete (clog_key x) \<notin> set [next_global_xid_op gt]" for gt
    by (simp_all add: next_global_xid_op_def counter_ok_def)
  have refl: "keeps_decisions (kv0 nd) (kv0 nd)" using assms(2) by (simp add: keeps_decisions_def)
  show ?thesis
    using assms(3) refl batch_keeps_decisions [OF assms(1,2) ops]
    by (auto simp: handle_begin_def begin_global_durable_def split_beta Let_def split: if_splits)
qed

lemma commit_keeps_decisions:
  assumes "replicated_committer (ev_commit (rq_env Q 0)) good_store" and "good_store (kv0 nd)" and "handle_commit Q g c nd = (resp, nd')"
  shows "keeps_decisions (kv0 nd) (kv0 nd')" and "nd_held nd' = nd_held nd"
    and "resp = resp_of d \<Longrightarrow> clog_get (kv0 nd') g = Inr (outcome_of d)"
proof -
  let ?st = "if c then Committed else Aborted"
  obtain e kv where k: "commit_global_decision (ev_commit (rq_env Q 0)) (kv0 nd) (nd_gtm nd) g ?st = (e, kv)" by force
  note loc = replicated_committer.decision_kept [OF assms(1), OF assms(2), of _ _ "nd_gtm nd" g ?st, unfolded k]
    replicated_committer.decision_ok [OF assms(1), OF assms(2), of "nd_gtm nd" g ?st, unfolded k]
  have kd: "keeps_decisions (kv0 nd) kv" "keeps_decisions (kv0 nd) (kv0 nd)"
    using loc assms(2) by (simp_all add: keeps_decisions_def)
  show "keeps_decisions (kv0 nd) (kv0 nd')" "nd_held nd' = nd_held nd"
    using assms(3) kd k by (auto simp: handle_commit_def Let_def split: if_splits sum.splits exec_error.splits)
  have st: "is_outcome ?st" by (simp add: is_outcome_def)
  show "clog_get (kv0 nd') g = Inr (outcome_of d)" if "resp = resp_of d"
  proof -
    from assms(3) that k have e: "e = Inr (outcome_of d)" and kv: "kv0 nd' = kv"
      by (auto simp: handle_commit_def Let_def resp_of_def outcome_of_def split: if_splits sum.splits exec_error.splits xid_status.splits)
    from replicated_committer.decision_effective(1) [OF assms(1), OF assms(2) st, of "nd_gtm nd" g "outcome_of d", unfolded k] e
    show ?thesis by (simp add: kv)
  qed
qed

lemma close_held_simps [simp]:
  "nd_held (close_held g r c nd) = (nd_held nd)((g, r) := None)" "nd_engines (close_held g r c nd) = nd_engines nd"
  by (auto simp: close_held_def fun_upd_idem_iff split: option.splits prod.splits)

lemma resolve_held: "nd_held (resolve_in_doubt answer g r nd) k \<noteq> nd_held nd k \<Longrightarrow> k = (g, r) \<and> (\<exists>c. answer = Some (resp_of c))"
  by (auto simp: resolve_in_doubt_def resp_of_def split: option.splits txn_resp.splits if_splits)

lemma stage_held: "svc_stage Q g r sql nd = Some (resp, nd') \<Longrightarrow> nd_held nd k \<noteq> None \<Longrightarrow> nd_held nd' k \<noteq> None"
  by (auto simp: svc_stage_def session_handle_def put_held_def Let_def split: if_splits option.splits sum.splits list.splits prod.splits)

lemma keeps_agreed:
  assumes "agreed cl" and "keeps_decisions (cl_kv0 cl) kv" and "cl_kv0 cl' = kv" and "cl_told cl' = cl_told cl" and "cl_freed cl' = cl_freed cl"
    and "set (cl_answers cl') = set (cl_answers cl) \<union> A" and "\<And>g c. (g, c) \<in> A \<Longrightarrow> clog_get kv g = Inr (outcome_of c)"
  shows "agreed cl'"
  using assms unfolding agreed_def keeps_decisions_def by fastforce

lemma resolved_entry:
  assumes "x \<in> set (case answer of Some TCommitted \<Rightarrow> freed_entry cl n g r True | Some TAborted \<Rightarrow> freed_entry cl n g r False | _ \<Rightarrow> [])"
  obtains c where "answer = Some (resp_of c)" and "x = (n, g, r, c)"
proof (cases answer)
  case (Some resp)
  show thesis
    using assms that [of True] that [of False] by (cases resp) (simp_all add: Some freed_entry_def resp_of_def split: if_splits)
qed (use assms in simp)

lemma request_step_agreed: "\<lbrakk>request_step E X P cl cl'; agreed cl\<rbrakk> \<Longrightarrow> agreed cl'"
proof (induction rule: request_step.induct)
  case (decide Q g c cl n resp nd)
  have cm: "replicated_committer (ev_commit (rq_env Q 0)) good_store" using decide(1) by (simp add: request_of_def)
  have good: "good_store (kv0 (view cl n))" using decide(3) by (simp add: agreed_def)
  have h: "handle_commit Q g c (view cl n) = (resp, nd)" using decide(2) by (simp add: handle_txn_def)
  note f = commit_keeps_decisions [OF cm good h]
  have "clog_get (kv0 nd) g' = Inr (outcome_of d)"
    if "(g', d) \<in> set (case resp of TCommitted \<Rightarrow> [(g, True)] | TAborted \<Rightarrow> [(g, False)] | _ \<Rightarrow> [])" for g' d
  proof -
    have "g' = g \<and> resp = resp_of d" using that by (auto simp: resp_of_def split: txn_resp.splits)
    then show ?thesis using f(3) by blast
  qed
  then show ?case using f(1) by (intro keeps_agreed [OF decide(3)]) auto
next
  case (begun Q cl n resp nd)
  have cm: "replicated_committer (ev_commit (rq_env Q 0)) good_store" using begun(1) by (simp add: request_of_def)
  have good: "good_store (kv0 (view cl n))" using begun(3) by (simp add: agreed_def)
  have "handle_begin Q (view cl n) = (resp, nd)" using begun(2) by (simp add: handle_txn_def)
  from begin_keeps_decisions [OF cm good this] show ?case by (intro keeps_agreed [OF begun(3), where A = "{}"]) auto
next
  case (write0 ops cl w)
  have "good_store (cl_kv0 cl)" using write0(3) by (simp add: agreed_def)
  from batch_keeps_decisions [OF raftc.replicated_committer_axioms this write0(1,2)]
  show ?case by (intro keeps_agreed [OF write0(3), where A = "{}"]) auto
next
  case (stage Q g r sql cl n resp nd)
  then show ?case by (intro keeps_agreed [OF stage(4), where A = "{}"]) auto
next
  case (close cl g a b c)
  have "(g, c) \<in> set (cl_answers cl)" by (rule client_call_heard [OF close(1,2) net_commit_resp [OF close(3)]])
  with close(4) show ?case by (auto simp: agreed_def)
next
  case (release g c cl Q r n resp nd)
  then show ?case by (auto simp: agreed_def freed_entry_def)
next
  case (resolve cl g a b answer n r)
  have "(g, c) \<in> set (cl_answers cl)" if "answer = Some (resp_of c)" for c
    using client_call_heard [OF resolve(1,2)] resolve(3) that by blast
  then have "\<forall>(n', g', r', c') \<in> set (case answer of Some TCommitted \<Rightarrow> freed_entry cl n g r True | Some TAborted \<Rightarrow> freed_entry cl n g r False | _ \<Rightarrow> []).
      (g', c') \<in> set (cl_answers cl)"
    by (intro ballI) (erule resolved_entry, simp)
  with resolve(4) show ?case by (simp add: agreed_def ball_Un)
qed

lemma agreed_put: "agreed (put_node n nd cl) = agreed cl"
  by (simp add: agreed_def)

lemma cluster_run_agreed: "\<lbrakk>(cluster_step E X P)\<^sup>*\<^sup>* cl cl'; agreed cl\<rbrakk> \<Longrightarrow> agreed cl'"
proof (induction rule: rtranclp_induct)
  case (step cl1 cl2)
  from step(2) step(3) [OF step(4)] show ?case
    by (cases rule: cluster_step.cases) (auto intro: request_step_agreed simp: agreed_put)
qed

lemma fresh_agreed: "fresh cl \<Longrightarrow> agreed cl"
  by (simp add: fresh_def agreed_def)

text \<open>A held session disappears only through a release or a resolution, with an outcome on record.\<close>

lemma released_after_decision:
  assumes "request_step E X P cl cl'" and "agreed cl" and "nd_held (cl_nodes cl n) (g, r) = Some e" and "nd_held (cl_nodes cl' n) (g, r) = None"
  shows "\<exists>c. (g, c) \<in> set (cl_answers cl) \<and> (n, g, r, c) \<in> set (cl_freed cl')
     \<and> nd_shared (cl_nodes cl' n) r = snd (finish_current_txn (he_session e) (nd_shared (cl_nodes cl n) r))"
  using assms
proof (induction rule: request_step.induct)
  case (decide Q g' c cl n' resp nd)
  have cm: "replicated_committer (ev_commit (rq_env Q 0)) good_store" using decide(1) by (simp add: request_of_def)
  have good: "good_store (kv0 (view cl n'))" using decide(3) by (simp add: agreed_def)
  have h: "handle_commit Q g' c (view cl n') = (resp, nd)" using decide(2) by (simp add: handle_txn_def)
  from commit_keeps_decisions(2) [OF cm good h] decide(4,5) show ?case by (auto split: if_splits)
next
  case (begun Q cl n' resp nd)
  have cm: "replicated_committer (ev_commit (rq_env Q 0)) good_store" using begun(1) by (simp add: request_of_def)
  have good: "good_store (kv0 (view cl n'))" using begun(3) by (simp add: agreed_def)
  have "handle_begin Q (view cl n') = (resp, nd)" using begun(2) by (simp add: handle_txn_def)
  from begin_keeps_decisions [OF cm good this] begun(4,5) show ?case by (auto split: if_splits)
next
  case (stage Q g' r' sql cl n' resp nd)
  have "svc_stage Q g' r' sql (view cl n') = Some (resp, nd)" using stage(2) by (simp add: handle_txn_def svc_handle_def)
  from stage_held [OF this, of "(g, r)"] stage(5,6) show ?case by (auto split: if_splits)
next
  case (release g' c cl Q r' n' resp nd)
  have nd: "nd = close_held g' r' c (cl_nodes cl n')" using release(3) by (simp add: handle_txn_def svc_handle_def svc_release_def)
  from release(5,6) have eq: "n' = n" "g' = g" "r' = r" by (auto simp: nd split: if_splits)
  have "(g, c) \<in> set (cl_answers cl)" using release(1,4) eq by (auto simp: agreed_def)
  moreover have "nd_shared nd r = snd (finish_current_txn (he_session e) (nd_shared (cl_nodes cl n) r))"
    using release(5) by (auto simp: nd eq close_held_def commit_release_def abort_release_def split: prod.splits if_splits)
  ultimately show ?case using release(5) by (auto simp: eq freed_entry_def)
next
  case (resolve cl g' a b answer n' r')
  from resolve(5,6) have "n' = n" "nd_held (resolve_in_doubt answer g' r' (cl_nodes cl n')) (g, r) \<noteq> nd_held (cl_nodes cl n') (g, r)"
    by (auto split: if_splits)
  with resolve_held obtain c where eq: "n' = n" "g' = g" "r' = r" "answer = Some (resp_of c)" by blast
  have "(g, c) \<in> set (cl_answers cl)" using client_call_heard [OF resolve(1,2)] resolve(3) eq by blast
  moreover have "nd_shared (resolve_in_doubt answer g r (cl_nodes cl n)) r = snd (finish_current_txn (he_session e) (nd_shared (cl_nodes cl n) r))"
    using resolve(5) by (cases c) (auto simp: eq resolve_in_doubt_def resp_of_def close_held_def commit_release_def abort_release_def split: prod.splits)
  ultimately show ?case using resolve(5) by (cases c) (auto simp: eq freed_entry_def resp_of_def)
qed auto

text \<open>C1.
  Everybody agrees on the outcome of a global transaction. Take any interleaving of requests to any
  nodes, from a state with no history: begins, statements staged on participants, coordinators
  proposing an outcome and participants racing them with an abort, each write landing or failing,
  replies lost and requests retried, releases delayed and repeated, nodes crashing. Every outcome
  range 0 has answered is the one its commit log holds now, every outcome a coordinator passed on and
  every outcome used to release a participant is one range 0 answered, and so no two of them differ.
\<close>

theorem decisions_agree:
  assumes "fresh cl0" and "(cluster_step E X P)\<^sup>*\<^sup>* cl0 cl"
  shows "(\<forall>(g, c) \<in> set (cl_answers cl). clog_get (cl_kv0 cl) g = Inr (outcome_of c))
    \<and> set (cl_told cl) \<subseteq> set (cl_answers cl)
    \<and> (\<forall>(n, g, r, c) \<in> set (cl_freed cl). (g, c) \<in> set (cl_answers cl))
    \<and> (\<forall>g c c'. (g, c) \<in> set (cl_answers cl) \<and> (g, c') \<in> set (cl_answers cl) \<longrightarrow> c = c')"
proof -
  have a: "agreed cl" by (rule cluster_run_agreed [OF assms(2) fresh_agreed [OF assms(1)]])
  have "c = c'" if "(g, c) \<in> set (cl_answers cl)" "(g, c') \<in> set (cl_answers cl)" for g c c'
  proof -
    from a that have "clog_get (cl_kv0 cl) g = Inr (outcome_of c)" "clog_get (cl_kv0 cl) g = Inr (outcome_of c')"
      by (auto simp: agreed_def)
    then show ?thesis by simp
  qed
  with a show ?thesis by (simp add: agreed_def) blast
qed

text \<open>C2.
  A participant keeps its locks until the outcome is on record. In any state an interleaving reaches,
  if a request makes a held session of a global transaction disappear, then range 0 had recorded an
  outcome for the transaction before, the session is released with exactly that outcome, and the
  range's registry and lock table change as the release of that session changes them. Staging,
  deciding and beginning never drop a session; only a crash of the node does otherwise.
\<close>

theorem locks_held_until_decided:
  assumes "fresh cl0" and "(cluster_step E X P)\<^sup>*\<^sup>* cl0 cl" and "request_step E X P cl cl'"
    and "nd_held (cl_nodes cl n) (g, r) = Some e" and "nd_held (cl_nodes cl' n) (g, r) = None"
  shows "\<exists>c. clog_get (cl_kv0 cl) g = Inr (outcome_of c) \<and> (n, g, r, c) \<in> set (cl_freed cl')
    \<and> nd_shared (cl_nodes cl' n) r = snd (finish_current_txn (he_session e) (nd_shared (cl_nodes cl n) r))"
proof -
  have a: "agreed cl" by (rule cluster_run_agreed [OF assms(2) fresh_agreed [OF assms(1)]])
  from released_after_decision [OF assms(3) a assms(4,5)] obtain c where
    c: "(g, c) \<in> set (cl_answers cl)" "(n, g, r, c) \<in> set (cl_freed cl')"
      "nd_shared (cl_nodes cl' n) r = snd (finish_current_txn (he_session e) (nd_shared (cl_nodes cl n) r))" by blast
  from a c(1) have "clog_get (cl_kv0 cl) g = Inr (outcome_of c)" by (auto simp: agreed_def)
  with c show ?thesis by blast
qed

section \<open>Settle before serve\<close>

record engine =
  en_kv :: mem_kv
  en_pa :: proc_array
  en_sq :: sequence_manager
  en_lk :: lock_inner
  en_gtm :: "gtm option"

definition reseed_counters :: "engine \<Rightarrow> exec_error + engine" where
  "reseed_counters en =
     rbind (pa_reseed_from_applied (en_kv en) (en_pa en)) (\<lambda>pa.
       Inr (en\<lparr> en_pa := pa, en_sq := seq_reseed_from_applied (en_sq en) \<rparr>))"

text \<open>The answers of the abort races; any answer at all counts as a resolution.\<close>

definition abort_race :: "(xid \<Rightarrow> txn_resp option) \<Rightarrow> xid list \<Rightarrow> xid set" where
  "abort_race race gs = {g \<in> set gs. race g \<noteq> None}"

fun free_resolved :: "(u64 \<times> u64) list \<Rightarrow> xid set \<Rightarrow> lock_inner \<Rightarrow> lock_inner" where
  "free_resolved [] resolved lk = lk"
| "free_resolved ((li, g) # pairs) resolved lk =
     free_resolved pairs resolved (if g \<in> resolved then release_in_doubt_lock lk li else lk)"

text \<open>
  One settle pass. The local replica of range 0 is read three times and may have advanced in between;
  \<open>linear\<close> says whether the linearizable read and the wait for it succeeded.
\<close>

definition settle ::
  "bool \<Rightarrow> committer_fn \<Rightarrow> mem_kv \<Rightarrow> mem_kv \<Rightarrow> mem_kv \<Rightarrow> (xid \<Rightarrow> txn_resp option) \<Rightarrow> engine \<Rightarrow> (bool \<times> engine) option" where
  "settle linear commit cat1 cat2 cat3 race en =
     (if \<not> linear then Some (False, en)
      else case reseed_gtm (en_kv en) (en_gtm en) of
        Inl _ \<Rightarrow> Some (False, en)
      | Inr gtm \<Rightarrow>
     (let en = en\<lparr> en_gtm := gtm \<rparr> in
      case reseed_counters en of
        Inl _ \<Rightarrow> Some (False, en)
      | Inr en \<Rightarrow>
     (case reacquire_in_doubt_locks (en_kv en) cat1 (en_lk en) of
        None \<Rightarrow> None
      | Some (Inl _) \<Rightarrow> Some (False, en)
      | Some (Inr (locked, lk)) \<Rightarrow>
     (let en = en\<lparr> en_lk := lk \<rparr>; scan_lo = clog_scan_lo (en_kv en) in
      case in_doubt_globals_from (en_kv en) cat2 scan_lo of
        None \<Rightarrow> None
      | Some (Inl _) \<Rightarrow> Some (False, en)
      | Some (Inr (gs, _)) \<Rightarrow>
     (let en = en\<lparr> en_lk := free_resolved locked (abort_race race gs) (en_lk en) \<rparr> in
      case in_doubt_globals_from (en_kv en) cat3 scan_lo of
        None \<Rightarrow> None
      | Some (Inl _) \<Rightarrow> Some (False, en)
      | Some (Inr (still_in_doubt, new_lo)) \<Rightarrow>
          if still_in_doubt \<noteq> [] then Some (False, en)
          else Some (True, en\<lparr> en_kv := snd (advance_clog_scan_lo commit (en_kv en) new_lo) \<rparr>))))))"

definition resolve_in_doubt_on_leadership ::
  "(range_id \<Rightarrow> metrics) \<Rightarrow> range_id \<Rightarrow> (engine \<Rightarrow> (bool \<times> engine) option) \<Rightarrow> recovery_gate \<Rightarrow> engine \<Rightarrow> (recovery_gate \<times> engine) option" where
  "resolve_in_doubt_on_leadership mets r settle_pass gate en =
     (if mt_leader (mets r) = Some (rg_id gate) \<and> \<not> is_serving mets gate r
      then (case settle_pass en of
              None \<Rightarrow> None
            | Some (settled, en) \<Rightarrow> Some (if settled then mark_served r (mt_term (mets r)) gate else gate, en))
      else Some (gate, en))"

text \<open>Every outcome the local replica shows is range 0's.\<close>

definition replica_of :: "mem_kv \<Rightarrow> mem_kv \<Rightarrow> bool" where
  "replica_of cat kv \<longleftrightarrow> (\<forall>g d. clog_get cat g = Inr d \<and> is_outcome d \<longrightarrow> clog_get kv g = Inr d)"

definition engine_ok :: "engine \<Rightarrow> bool" where
  "engine_ok en \<longleftrightarrow> kv_ok (en_kv en) \<and> clog_readable (en_kv en) \<and> versions_ok (en_kv en) \<and> clog_scan_lo (en_kv en) \<le> GLOBAL_XID_BASE"

lemma terminal_outcome: "terminal_in cat g = Inr True \<longleftrightarrow> (\<exists>d. is_outcome d \<and> clog_get cat g = Inr d)"
  by (cases "clog_get cat g") (auto simp: terminal_in_def is_outcome_def)

lemma not_in_doubt_decided:
  assumes "clog_readable cat" and "clog_get kv li = Inr (Prepared g)" and "\<not> in_doubt kv cat li g"
  shows "\<exists>d. is_outcome d \<and> clog_get cat g = Inr d"
proof -
  from assms(1) obtain st where "clog_get cat g = Inr st" by (auto simp: clog_readable_def)
  then show ?thesis using assms(2,3) by (auto simp: in_doubt_def terminal_in_def is_outcome_def)
qed

lemma settle_started:
  assumes "settle linear commit cat1 cat2 cat3 race en = Some (True, en')"
  shows "linear" and "\<exists>gt. reseed_gtm (en_kv en) (en_gtm en) = Inr gt" and "\<exists>pa. pa_reseed_from_applied (en_kv en) (en_pa en) = Inr pa"
proof -
  show l: "linear" using assms by (cases linear) (simp_all add: settle_def)
  show g: "\<exists>gt. reseed_gtm (en_kv en) (en_gtm en) = Inr gt"
    using assms l by (cases "reseed_gtm (en_kv en) (en_gtm en)") (simp_all add: settle_def)
  then obtain gt where "reseed_gtm (en_kv en) (en_gtm en) = Inr gt" by blast
  then show "\<exists>pa. pa_reseed_from_applied (en_kv en) (en_pa en) = Inr pa"
    using assms l by (cases "pa_reseed_from_applied (en_kv en) (en_pa en)") (simp_all add: settle_def reseed_counters_def)
qed

lemma free_resolved_holders:
  "holders_of (free_resolved ps R lk) row = holders_of lk row - {li. \<exists>g. (li, g) \<in> set ps \<and> g \<in> R}"
  by (induction ps R lk rule: free_resolved.induct) (auto simp: release_in_doubt_lock_def drop_holder_holders)

text \<open>A marker the engine inherits: from the watermark on, undecided in the replica.\<close>

definition inherited :: "engine \<Rightarrow> mem_kv \<Rightarrow> u64 \<Rightarrow> xid \<Rightarrow> bool" where
  "inherited en cat li g \<longleftrightarrow> clog_scan_lo (en_kv en) \<le> li \<and> li < GLOBAL_XID_BASE \<and> in_doubt (en_kv en) cat li g"

lemma inherited_scan:
  assumes "engine_ok en" and "clog_readable cat"
  obtains gs lo where "in_doubt_globals_from (en_kv en) cat (clog_scan_lo (en_kv en)) = Some (Inr (gs, lo))"
    and "set gs = {g. \<exists>li. inherited en cat li g}"
proof (rule scan_in_doubt)
  show "kv_ok (en_kv en)" "clog_readable (en_kv en)" "clog_readable cat" "clog_scan_lo (en_kv en) \<le> GLOBAL_XID_BASE"
    using assms by (simp_all add: engine_ok_def)
qed (rule that, simp_all add: inherited_def)

text \<open>What a pass on a readable engine does.\<close>

lemma settle_pass:
  assumes "engine_ok en" and "clog_readable cat1" and "clog_readable cat2" and "clog_readable cat3"
    and "reseed_gtm (en_kv en) (en_gtm en) = Inr gt" and "pa_reseed_from_applied (en_kv en) (en_pa en) = Inr pa"
  shows "\<exists>en'. settle True commit cat1 cat2 cat3 race en = Some (\<forall>li g. \<not> inherited en cat3 li g, en')
    \<and> (\<forall>row. holders_of (en_lk en') row = (holders_of (en_lk en) row \<union> {li. (\<exists>g. inherited en cat1 li g) \<and> wrote (en_kv en) li row})
          - {li. \<exists>g. inherited en cat1 li g \<and> race g \<noteq> None \<and> (\<exists>l. inherited en cat2 l g)})"
proof -
  let ?kv = "en_kv en"
  have ok: "kv_ok ?kv" "clog_readable ?kv" "versions_ok ?kv" "clog_scan_lo ?kv \<le> GLOBAL_XID_BASE" using assms(1) by (simp_all add: engine_ok_def)
  obtain ps lk' where r: "reacquire_in_doubt_locks ?kv cat1 (en_lk en) = Some (Inr (ps, lk'))" "bt_ok ps"
    and ps: "\<And>li g. map_of ps li = Some g \<longleftrightarrow> inherited en cat1 li g"
    and h: "\<And>row. holders_of lk' row = holders_of (en_lk en) row \<union> {li. map_of ps li \<noteq> None \<and> wrote ?kv li row}"
    using reacquire_locks [OF ok(1,2) assms(2) ok(4,3)] unfolding inherited_def by blast
  have ps': "(li, g) \<in> set ps \<longleftrightarrow> inherited en cat1 li g" for li g
    using r(2) ps [of li g] bt_ok_distinct [OF r(2)] by simp
  obtain gs lo2 where s2: "in_doubt_globals_from ?kv cat2 (clog_scan_lo ?kv) = Some (Inr (gs, lo2))"
    and gs: "set gs = {g. \<exists>li. inherited en cat2 li g}" by (rule inherited_scan [OF assms(1,3)])
  obtain gs3 lo3 where s3: "in_doubt_globals_from ?kv cat3 (clog_scan_lo ?kv) = Some (Inr (gs3, lo3))"
    and gs3: "set gs3 = {g. \<exists>li. inherited en cat3 li g}" by (rule inherited_scan [OF assms(1,4)])
  have e: "gs3 = [] \<longleftrightarrow> (\<forall>li g. \<not> inherited en cat3 li g)" unfolding set_empty [symmetric] gs3 by auto
  have "holders_of (free_resolved ps (abort_race race gs) lk') row
      = (holders_of (en_lk en) row \<union> {li. (\<exists>g. inherited en cat1 li g) \<and> wrote ?kv li row})
          - {li. \<exists>g. inherited en cat1 li g \<and> race g \<noteq> None \<and> (\<exists>l. inherited en cat2 l g)}" for row
    unfolding free_resolved_holders h abort_race_def gs by (auto simp: ps' ps [symmetric])
  then show ?thesis
    unfolding e [symmetric]
    by (auto simp: settle_def Let_def assms(5,6) reseed_counters_def r(1) s2 s3)
qed


lemma settle_opens:
  assumes "engine_ok en" and "clog_readable cat1" and "clog_readable cat2" and "clog_readable cat3"
    and "reseed_gtm (en_kv en) (en_gtm en) = Inr gt" and "pa_reseed_from_applied (en_kv en) (en_pa en) = Inr pa"
    and gate: "rg_ranges gate r = Some served" "served \<noteq> mt_term (mets r)" "mt_leader (mets r) = Some (rg_id gate)" "mt_is_leader (mets r)"
    and none: "\<forall>li g. \<not> inherited en cat3 li g"
  shows "\<exists>gate' en'. resolve_in_doubt_on_leadership mets r (settle True commit cat1 cat2 cat3 race) gate en = Some (gate', en')
    \<and> is_serving mets gate' r
    \<and> (\<forall>row li g. inherited en cat1 li g \<and> (\<exists>l. inherited en cat2 l g) \<and> race g \<noteq> None \<longrightarrow> li \<notin> holders_of (en_lk en') row)"
proof -
  from settle_pass [OF assms(1-6), of commit race] none obtain en' where
    s: "settle True commit cat1 cat2 cat3 race en = Some (True, en')"
    and h: "\<forall>row. holders_of (en_lk en') row = (holders_of (en_lk en) row \<union> {li. (\<exists>g. inherited en cat1 li g) \<and> wrote (en_kv en) li row})
          - {li. \<exists>g. inherited en cat1 li g \<and> race g \<noteq> None \<and> (\<exists>l. inherited en cat2 l g)}" by auto
  have "\<not> is_serving mets gate r" using gate by (simp add: is_serving_def)
  then have "resolve_in_doubt_on_leadership mets r (settle True commit cat1 cat2 cat3 race) gate en
      = Some (mark_served r (mt_term (mets r)) gate, en')"
    using gate s by (simp add: resolve_in_doubt_on_leadership_def)
  moreover have "is_serving mets (mark_served r (mt_term (mets r)) gate) r" using gate by (simp add: is_serving_def mark_served_def)
  moreover have "\<forall>row li g. inherited en cat1 li g \<and> (\<exists>l. inherited en cat2 l g) \<and> race g \<noteq> None \<longrightarrow> li \<notin> holders_of (en_lk en') row"
    using h by auto
  ultimately show ?thesis by blast
qed


text \<open>C14.
  The settle pass frees a lock whose transaction is undecided. If range 0 answers the abort race for
  an inherited transaction with anything at all, be it that the node is not the leader or an error,
  and the transaction still has no outcome at the second scan, the pass fails and keeps the gate
  closed, but the rows the transaction wrote are no longer locked by it.
\<close>

theorem settle_frees_undecided_lock:
  assumes "engine_ok en" and "clog_readable cat1" and "clog_readable cat2" and "clog_readable cat3"
    and "reseed_gtm (en_kv en) (en_gtm en) = Inr gt" and "pa_reseed_from_applied (en_kv en) (en_pa en) = Inr pa"
    and "inherited en cat1 li g" and "inherited en cat2 li g" and "inherited en cat3 li g" and "race g = Some resp"
  shows "\<exists>en'. settle True commit cat1 cat2 cat3 race en = Some (False, en') \<and> (\<forall>row. li \<notin> holders_of (en_lk en') row)"
proof -
  have "(\<forall>li g. \<not> inherited en cat3 li g) = False" using assms(9) by blast
  with settle_pass [OF assms(1-6), of commit race] obtain en' where
    "settle True commit cat1 cat2 cat3 race en = Some (False, en')"
    and "\<forall>row. holders_of (en_lk en') row = (holders_of (en_lk en) row \<union> {li. (\<exists>g. inherited en cat1 li g) \<and> wrote (en_kv en) li row})
          - {li. \<exists>g. inherited en cat1 li g \<and> race g \<noteq> None \<and> (\<exists>l. inherited en cat2 l g)}" by auto
  with assms(7,8,10) show ?thesis by auto
qed

section \<open>Retries\<close>

text \<open>An attempt whose request is served but whose reply is lost, and one that is answered.\<close>

definition served_lost :: "(node \<Rightarrow> (txn_resp \<times> node) option) \<Rightarrow> node \<Rightarrow> attempt \<times> node" where
  "served_lost serve nd = (case serve nd of Some (_, nd) \<Rightarrow> (Lost, nd) | None \<Rightarrow> (Lost, nd))"

definition served :: "(node \<Rightarrow> (txn_resp \<times> node) option) \<Rightarrow> node \<Rightarrow> attempt \<times> node" where
  "served serve nd = (case serve nd of Some (resp, nd) \<Rightarrow> (Answer resp, nd) | None \<Rightarrow> (Lost, nd))"

text \<open>C15.
  A retried statement runs twice. Let a participant that leads and serves a range receive the first
  statement of a global transaction, and let its reply be lost, so that the client sends the request
  again to the same node. The second request does not find the first: it runs the statement on the
  held session once more, and the client's call returns the answer of the second run with the
  effects of both in the range.
\<close>

theorem stage_retry_runs_twice:
  assumes "nd_engines nd r = Some (has_gtm, has_barrier)"
    and "svc_is_serving (rq_metrics Q1) nd r" and "svc_is_serving (rq_metrics Q2) nd r"
    and "nd_held nd (g, r) = None" and "staged_local_for (sh_kv (nd_shared nd r)) g = Some (Inr None)"
    and "rq_parse Q1 sql = Inr [stmt]" and "rq_parse Q2 sql = Inr [stmt]"
    and "stage_session Q1 g r stmt (sess_new has_gtm has_barrier) (nd_shared nd r) = (resp1, s1, sh1)"
    and "stage_session Q2 g r stmt s1 sh1 = (resp2, s2, sh2)"
  shows "\<exists>nd' e. client_call (served_lost (handle_txn Q1 (Stage g r sql))) (served (handle_txn Q2 (Stage g r sql))) nd = (Some resp2, nd')
    \<and> nd_held nd' (g, r) = Some e \<and> he_session e = s2 \<and> nd_shared nd' r = sh2"
proof -
  let ?e = "\<lparr> he_session = s1, he_joined_at = rq_now Q1 \<rparr>"
  let ?nd = "nd\<lparr> nd_held := (nd_held nd)((g, r) \<mapsto> ?e), nd_shared := (nd_shared nd)(r := sh1) \<rparr>"
  have 1: "svc_stage Q1 g r sql nd = Some (resp1, ?nd)"
    using assms(1,2,4,5,6,8) by (simp add: svc_stage_def session_handle_def Let_def put_held_def)
  have "svc_is_serving (rq_metrics Q2) ?nd r" using assms(3) by (simp add: svc_is_serving_def)
  then have 2: "svc_stage Q2 g r sql ?nd = Some (resp2, put_held g r s2 sh2 ?nd)"
    using assms(1,7,9) by (simp add: svc_stage_def session_handle_def Let_def)
  show ?thesis
    using 1 2 by (simp add: client_call_def served_lost_def served_def handle_txn_def svc_handle_def put_held_def)
qed

section \<open>Samples\<close>

text \<open>A node that leads and serves ranges 0 and 1, and a client whose every text is one update.
  The executor locks one row more each time.\<close>

definition lock_exec :: "(unit, unit, unit, unit) exec_fns" where
  "lock_exec = sample_exec\<lparr> x_write := (\<lambda>cat gs snap x rr w ctx sh.
     (Inr (Command ''UPDATE 1'', []), sh\<lparr> sh_lk := reacquire_exclusive (sh_lk sh) (1, if x \<in> holders_of (sh_lk sh) (1, 1) then 2 else 1) x \<rparr>)) \<rparr>"

definition one_update :: "unit \<Rightarrow> parse_error + (unit, unit, unit) statement list" where
  "one_update sql = Inr [SWrite ()]"

definition sample_request :: "(unit, unit, unit, unit, int, unit) request_env" where
  "sample_request =
     \<lparr> rq_exec = lock_exec, rq_env = (\<lambda>_. (sample_env 0)\<lparr> ev_commit := raft_commit WriteOk \<rparr>),
       rq_metrics = (\<lambda>_. \<lparr> mt_leader = Some 1, mt_is_leader = True, mt_term = 3 \<rparr>), rq_now = 0, rq_parse = one_update,
       rq_debug = (\<lambda>_. ''error''), rq_debug_status = (\<lambda>_. ''status''), rq_linear0 = Some (Inr None) \<rparr>"

definition sample_gate :: recovery_gate where
  "sample_gate = mark_served 1 3 (register_range 1 (gate_new 1))"

definition sample_node :: node where
  "sample_node =
     \<lparr> nd_engines = [0 \<mapsto> (True, False), 1 \<mapsto> (False, True)], nd_shared = (\<lambda>r. if r = 1 then snd sample_block else sample_shared),
       nd_held = [(GLOBAL_XID_BASE, 1) \<mapsto> \<lparr> he_session = fst sample_block, he_joined_at = 0 \<rparr>], nd_gate = Some sample_gate,
       nd_gtm = \<lparr> g_next_global = GLOBAL_XID_BASE + 1, g_running = {GLOBAL_XID_BASE} \<rparr> \<rparr>"

definition sample_cluster :: cluster where
  "sample_cluster = \<lparr> cl_kv0 = kv_new, cl_nodes = (\<lambda>_. sample_node), cl_answers = [], cl_told = [], cl_freed = [] \<rparr>"

lemma sample_request_of: "request_of plain_ext lock_exec one_update sample_request"
  using raftc.replicated_committer_axioms [of WriteOk] by (simp add: request_of_def sample_request_def sample_env_def)

lemma raft_ok_commit:
  assumes "good_store (kv0 nd)" and "clog_get (kv0 nd) g = Inr InProgress" and "nd_engines nd 0 \<noteq> None"
  shows "\<exists>nd'. handle_commit sample_request g c nd = (resp_of c, nd') \<and> nd_held nd' = nd_held nd"
proof -
  let ?st = "if c then Committed else Aborted"
  have nd: "\<not> is_decided (kv_get (kv0 nd) (clog_key g))"
    unfolding decided_outcome using assms(2) by (simp add: is_outcome_def)
  have "clog_get (snd (raft_commit WriteOk [clog_put_op g ?st, next_global_xid_op (nd_gtm nd)] (kv0 nd))) g = Inr ?st"
    by (rule raftc.status_recorded [OF assms(1) _ _ nd]) (simp_all add: next_global_op_key raft_commit_def)
  then show ?thesis
    using assms(3) by (cases c) (simp_all add: handle_commit_def commit_global_decision_def sample_request_def raft_commit_def Let_def resp_of_def)
qed

text \<open>Range 0 commits the transaction, the coordinator hears of it.\<close>

lemma sample_told:
  obtains cl where "(cluster_step plain_ext lock_exec one_update)\<^sup>*\<^sup>* sample_cluster cl"
    and "cl_told cl = [(GLOBAL_XID_BASE, True)]" and "nd_held (cl_nodes cl 1) = nd_held sample_node"
proof -
  have g: "good_store (kv0 (view sample_cluster 1))" "clog_get (kv0 (view sample_cluster 1)) GLOBAL_XID_BASE = Inr InProgress"
    by (simp_all add: sample_cluster_def sample_store)
  have "nd_engines (view sample_cluster 1) 0 \<noteq> None"
    by (simp add: view_def put_kv0_def sample_cluster_def sample_node_def)
  from raft_ok_commit [OF g this, of True] obtain nd where h: "handle_commit sample_request GLOBAL_XID_BASE True (view sample_cluster 1) = (TCommitted, nd)"
    and held: "nd_held nd = nd_held sample_node" by (auto simp: resp_of_def sample_cluster_def)
  let ?cl = "(put_node 1 nd sample_cluster)\<lparr> cl_kv0 := kv0 nd, cl_answers := [(GLOBAL_XID_BASE, True)] @ cl_answers sample_cluster \<rparr>"
  have "handle_txn sample_request (CommitGlobal GLOBAL_XID_BASE True) (view sample_cluster 1) = Some (TCommitted, nd)"
    by (simp add: handle_txn_def h)
  from request_step.decide [OF sample_request_of this]
  have 1: "cluster_step plain_ext lock_exec one_update sample_cluster ?cl" by (simp add: cluster_step.request)
  let ?cl2 = "?cl\<lparr> cl_told := (GLOBAL_XID_BASE, True) # cl_told ?cl \<rparr>"
  have hd: "heard ?cl GLOBAL_XID_BASE Lost" "heard ?cl GLOBAL_XID_BASE (Answer TCommitted)" by (auto simp: heard_def resp_of_def split: if_splits)
  have "net_commit_global (fst (client_call (Pair Lost) (Pair (Answer TCommitted)) ())) = Inr True"
    by (simp add: client_call_def net_commit_global_def)
  from request_step.close [OF hd this] have "cluster_step plain_ext lock_exec one_update ?cl ?cl2" by (rule cluster_step.request)
  with 1 have "(cluster_step plain_ext lock_exec one_update)\<^sup>*\<^sup>* sample_cluster ?cl2" by (rule converse_rtranclp_into_rtranclp [OF _ r_into_rtranclp])
  then show thesis by (rule that) (simp_all add: sample_cluster_def held)
qed

lemma sample_fresh: "fresh sample_cluster"
  by (simp add: fresh_def sample_cluster_def sample_store)

theorem decisions_agree_witness:
  "\<exists>cl. (cluster_step plain_ext lock_exec one_update)\<^sup>*\<^sup>* sample_cluster cl \<and> cl_told cl = [(GLOBAL_XID_BASE, True)]
     \<and> clog_get (cl_kv0 cl) GLOBAL_XID_BASE = Inr Committed"
proof -
  obtain cl where run: "(cluster_step plain_ext lock_exec one_update)\<^sup>*\<^sup>* sample_cluster cl" and t: "cl_told cl = [(GLOBAL_XID_BASE, True)]"
    by (rule sample_told)
  from decisions_agree [OF sample_fresh run] t have "clog_get (cl_kv0 cl) GLOBAL_XID_BASE = Inr (outcome_of True)" by auto
  with run t show ?thesis by (auto simp: outcome_of_def)
qed

theorem locks_held_until_decided_witness:
  "\<exists>cl cl'. (cluster_step plain_ext lock_exec one_update)\<^sup>*\<^sup>* sample_cluster cl \<and> request_step plain_ext lock_exec one_update cl cl'
     \<and> nd_held (cl_nodes cl' 1) (GLOBAL_XID_BASE, 1) = None \<and> (\<exists>c. (1, GLOBAL_XID_BASE, 1, c) \<in> set (cl_freed cl'))"
proof -
  obtain cl where run: "(cluster_step plain_ext lock_exec one_update)\<^sup>*\<^sup>* sample_cluster cl" and t: "cl_told cl = [(GLOBAL_XID_BASE, True)]"
    and h: "nd_held (cl_nodes cl 1) = nd_held sample_node" by (rule sample_told)
  have told: "(GLOBAL_XID_BASE, True) \<in> set (cl_told cl)" using t by simp
  have "handle_txn sample_request (Release GLOBAL_XID_BASE 1 True) (cl_nodes cl 1) = Some (Released, close_held GLOBAL_XID_BASE 1 True (cl_nodes cl 1))"
    by (simp add: handle_txn_def svc_handle_def svc_release_def)
  from request_step.release [OF told sample_request_of this] obtain cl' where
    st: "request_step plain_ext lock_exec one_update cl cl'" and n: "nd_held (cl_nodes cl' 1) (GLOBAL_XID_BASE, 1) = None" by fastforce
  have "\<exists>e. nd_held (cl_nodes cl 1) (GLOBAL_XID_BASE, 1) = Some e" by (simp add: h sample_node_def)
  then obtain e where "nd_held (cl_nodes cl 1) (GLOBAL_XID_BASE, 1) = Some e" by blast
  from locks_held_until_decided [OF sample_fresh run st this n] show ?thesis using run st n by blast
qed

text \<open>A new leader that inherits one marker, undecided in its replica and aborted a little later.\<close>

definition sample_engine :: engine where
  "sample_engine = \<lparr> en_kv = sample_range, en_pa = \<lparr> pa_next_xid = 1, pa_running = {}, pa_mode = Replicated \<rparr>,
     en_sq = sm_new Replicated, en_lk = lockmgr_new, en_gtm = None \<rparr>"

definition sample_decided :: mem_kv where
  "sample_decided = write_batch sample_global [clog_put_op (GLOBAL_XID_BASE + 2) Aborted]"

lemma sample_decided_get: "clog_get sample_decided g = (if g = GLOBAL_XID_BASE + 2 then Inr Aborted else clog_get sample_global g)"
  by (simp add: sample_decided_def clog_get_puts del: write_batch_simps)

lemma sample_engine_facts:
  "engine_ok sample_engine" "clog_readable sample_decided" "clog_readable sample_global"
  "reseed_gtm (en_kv sample_engine) (en_gtm sample_engine) = Inr None"
  "\<exists>pa. pa_reseed_from_applied (en_kv sample_engine) (en_pa sample_engine) = Inr pa"
  "inherited sample_engine sample_global li g \<longleftrightarrow> li = 6 \<and> g = GLOBAL_XID_BASE + 2" "\<forall>li g. \<not> inherited sample_engine sample_decided li g"
proof -
  have r: "clog_readable sample_range" using sample_clogs(2) by (simp add: clog_readable_def sample_range_facts(2))
  show "engine_ok sample_engine" using r sample_range_facts by (simp add: engine_ok_def sample_engine_def)
  show "clog_readable sample_global" by (rule sample_clogs)
  then show "clog_readable sample_decided" by (simp add: clog_readable_def sample_decided_get)
  show "reseed_gtm (en_kv sample_engine) (en_gtm sample_engine) = Inr None" by (simp add: reseed_gtm_def sample_engine_def)
  have "next_xid_key \<noteq> clog_key y" "next_xid_key \<noteq> version_key_xid t r y" for y t r
    using length_clog_key [of y] length_version_key [of t r y] by (auto simp: system_key_bytes dest: arg_cong [of _ _ length])
  then show "\<exists>pa. pa_reseed_from_applied (en_kv sample_engine) (en_pa sample_engine) = Inr pa"
    by (simp add: pa_reseed_from_applied_def sample_engine_def sample_range_get)
  have b: "(6 :: u64) < GLOBAL_XID_BASE" by (simp add: GLOBAL_XID_BASE_def word_less_nat_alt)
  show "inherited sample_engine sample_global li g \<longleftrightarrow> li = 6 \<and> g = GLOBAL_XID_BASE + 2"
    using b by (auto simp: inherited_def sample_engine_def sample_range_facts(3) sample_range_in_doubt)
  have "\<not> in_doubt sample_range sample_decided li g" for li g
    using sample_range_in_doubt [of li g] by (auto simp: in_doubt_def terminal_in_def sample_decided_get split: if_splits)
  then show "\<forall>li g. \<not> inherited sample_engine sample_decided li g" by (simp add: inherited_def sample_engine_def)
qed

definition closed_gate :: recovery_gate where
  "closed_gate = register_range 1 (gate_new 1)"

lemma closed_gate_facts: "rg_ranges closed_gate 1 = Some 0" "rg_id closed_gate = 1"
  by (simp_all add: closed_gate_def register_range_def gate_new_def UNSETTLED_def)

lemma sample_metrics: "mt_leader (rq_metrics sample_request 1) = Some 1" "mt_is_leader (rq_metrics sample_request 1)" "mt_term (rq_metrics sample_request 1) = 3"
  by (simp_all add: sample_request_def)

abbreviation sample_settle :: "engine \<Rightarrow> (bool \<times> engine) option" where
  "sample_settle \<equiv> settle True local_commit sample_global sample_global sample_decided (\<lambda>_. Some TAborted)"

lemma sample_settles:
  obtains gate' en' where "resolve_in_doubt_on_leadership (rq_metrics sample_request) 1 sample_settle closed_gate sample_engine = Some (gate', en')"
    and "is_serving (rq_metrics sample_request) gate' 1"
proof -
  obtain pa where pa: "pa_reseed_from_applied (en_kv sample_engine) (en_pa sample_engine) = Inr pa" using sample_engine_facts(5) by blast
  have ne: "(0 :: u64) \<noteq> mt_term (rq_metrics sample_request 1)" by (simp add: sample_metrics)
  have l: "mt_leader (rq_metrics sample_request 1) = Some (rg_id closed_gate)" by (simp add: sample_metrics closed_gate_facts)
  from settle_opens [where mets = "rq_metrics sample_request" and r = 1, OF sample_engine_facts(1,3,3,2,4) pa closed_gate_facts(1) ne l sample_metrics(2) sample_engine_facts(7)]
  show thesis using that by blast
qed



theorem settle_frees_undecided_lock_witness:
  "\<exists>en'. settle True local_commit sample_global sample_global sample_global (\<lambda>_. Some TNotLeader) sample_engine = Some (False, en')
     \<and> in_doubt sample_range sample_global 6 (GLOBAL_XID_BASE + 2) \<and> 6 \<notin> holders_of (en_lk en') (1, 7)"
proof -
  obtain pa where pa: "pa_reseed_from_applied (en_kv sample_engine) (en_pa sample_engine) = Inr pa" using sample_engine_facts(5) by blast
  have i: "inherited sample_engine sample_global 6 (GLOBAL_XID_BASE + 2)" by (simp add: sample_engine_facts(6))
  from settle_frees_undecided_lock [OF sample_engine_facts(1,3,3,3,4) pa i i i, of "\<lambda>_. Some TNotLeader" TNotLeader local_commit]
  show ?thesis by (auto simp: sample_range_in_doubt)
qed

text \<open>The first statement of a transaction on a node with an empty range 1.\<close>

definition idle_node :: node where
  "idle_node = sample_node\<lparr> nd_engines := [1 \<mapsto> (False, False)], nd_held := Map.empty, nd_shared := (\<lambda>_. sample_shared) \<rparr>"

abbreviation local_request :: "(unit, unit, unit, unit, int, unit) request_env" where
  "local_request \<equiv> sample_request\<lparr> rq_env := (\<lambda>_. sample_env 0) \<rparr>"

lemma sample_stage:
  "case stage_session local_request GLOBAL_XID_BASE 1 (SWrite ()) (sess_new False False) sample_shared of
     (_, s1, sh1) \<Rightarrow> (case stage_session local_request GLOBAL_XID_BASE 1 (SWrite ()) s1 sh1 of
       (resp2, _, sh2) \<Rightarrow> resp2 = Staged \<and> holders_of (sh_lk sh2) (1, 1) = {1} \<and> holders_of (sh_lk sh2) (1, 2) = {1})"
  by (simp add: stage_session_def sample_request_def lock_exec_def sample_simps ensure_began_def join_global_def eval_context_def
      effective_global_xid_def written_rows_def local_commit_def Let_def reacquire_exclusive_def lockmgr_new_def holders_of_def)

theorem stage_retry_runs_twice_witness:
  "\<exists>nd'. client_call (served_lost (handle_txn local_request (Stage GLOBAL_XID_BASE 1 ()))) (served (handle_txn local_request (Stage GLOBAL_XID_BASE 1 ()))) idle_node = (Some Staged, nd')
     \<and> holders_of (sh_lk (nd_shared nd' 1)) (1, 1) = {1} \<and> holders_of (sh_lk (nd_shared nd' 1)) (1, 2) = {1}"
proof -
  obtain resp1 s1 sh1 where 1: "stage_session local_request GLOBAL_XID_BASE 1 (SWrite ()) (sess_new False False) (nd_shared idle_node 1) = (resp1, s1, sh1)"
    by (metis surj_pair)
  obtain resp2 s2 sh2 where 2: "stage_session local_request GLOBAL_XID_BASE 1 (SWrite ()) s1 sh1 = (resp2, s2, sh2)" by (metis surj_pair)
  have f: "resp2 = Staged" "holders_of (sh_lk sh2) (1, 1) = {1}" "holders_of (sh_lk sh2) (1, 2) = {1}"
    using sample_stage 1 2 by (simp_all add: idle_node_def)
  have e: "nd_engines idle_node 1 = Some (False, False)" "nd_held idle_node (GLOBAL_XID_BASE, 1) = None" by (simp_all add: idle_node_def)
  have sv: "svc_is_serving (rq_metrics local_request) idle_node 1"
    by (simp add: svc_is_serving_def idle_node_def sample_node_def sample_gate_def is_serving_def mark_served_def register_range_def gate_new_def sample_request_def)
  have "kv_ok kv_new" "clog_readable kv_new" "clog_scan_lo kv_new \<le> GLOBAL_XID_BASE"
    using sample_store by (simp_all add: good_store_def clog_readable_def clog_scan_lo_def)
  from staged_lookup [OF this, of GLOBAL_XID_BASE]
  have st: "staged_local_for (sh_kv (nd_shared idle_node 1)) GLOBAL_XID_BASE = Some (Inr None)"
    by (auto simp: idle_node_def sample_shared_def)
  have p: "rq_parse local_request () = Inr [SWrite ()]" by (simp add: sample_request_def one_update_def)
  from stage_retry_runs_twice [OF e(1) sv sv e(2) st p p 1 2] f show ?thesis by fastforce
qed

end
