(* ===== verification/F64.thy ===== *)
theory F64
  imports RustStd
begin

text \<open>
  The \<open>f64\<close> operations of Rust's standard library that the value layer uses, on bit patterns. Every
  finite value is an integer multiple of \<open>2 ^ - 1074\<close>; arithmetic computes the exact result in those
  units and rounds it once, to nearest with ties to even, as IEEE 754 prescribes. A NaN result is the
  quiet NaN (the language leaves its payload open).

  The lemmas: rounding is exact on what is representable, integers of up to 53 bits convert without
  loss, and the order on values is a total one.
\<close>

section \<open>Reading a bit pattern\<close>

definition f64_neg :: "f64 \<Rightarrow> bool" where
  "f64_neg f \<longleftrightarrow> 2 ^ 63 \<le> unat f"

definition f64_mag :: "f64 \<Rightarrow> nat" where
  "f64_mag f = unat f mod 2 ^ 63"

definition INF_MAG :: nat where
  "INF_MAG = 0x7FF0000000000000"

definition f64_is_finite :: "f64 \<Rightarrow> bool" where
  "f64_is_finite f \<longleftrightarrow> f64_mag f < INF_MAG"

definition f64_is_infinite :: "f64 \<Rightarrow> bool" where
  "f64_is_infinite f \<longleftrightarrow> f64_mag f = INF_MAG"

text \<open>The value 1 in units of \<open>2 ^ - 1074\<close>.\<close>

definition ONE_UNITS :: nat where
  "ONE_UNITS = 2 ^ 1074"

text \<open>The value of a magnitude in units of \<open>2 ^ - 1074\<close>.\<close>

definition mag_units :: "nat \<Rightarrow> nat" where
  "mag_units m =
     (let e = m div 2 ^ 52; frac = m mod 2 ^ 52
      in if e = 0 then frac else (2 ^ 52 + frac) * 2 ^ (e - 1))"

definition f64_units :: "f64 \<Rightarrow> int" where
  "f64_units f = (if f64_neg f then - int (mag_units (f64_mag f)) else int (mag_units (f64_mag f)))"

definition f64_make :: "bool \<Rightarrow> nat \<Rightarrow> f64" where
  "f64_make neg m = word_of_nat ((if neg then 2 ^ 63 else 0) + m)"

definition f64_nan :: f64 where
  "f64_nan = 0x7FF8000000000000"

definition f64_inf :: "bool \<Rightarrow> f64" where
  "f64_inf neg = f64_make neg INF_MAG"

section \<open>Rounding\<close>

fun bit_len :: "nat \<Rightarrow> nat" where
  "bit_len n = (if n = 0 then 0 else Suc (bit_len (n div 2)))"

declare bit_len.simps [simp del]

text \<open>\<open>n / d\<close> to the nearest integer, ties to even.\<close>

definition div_even :: "nat \<Rightarrow> nat \<Rightarrow> nat" where
  "div_even n d =
     (let q = n div d; r = n mod d
      in if 2 * r < d then q else if d < 2 * r then q + 1 else q + q mod 2)"

text \<open>
  The value \<open>n / d\<close>, in units, to the nearest magnitude: the quotient keeps 53 significant bits. A
  carry out of the fraction moves to the next exponent by itself, and a magnitude that reaches the
  infinite one is infinite.
\<close>

definition round_mag :: "nat \<Rightarrow> nat \<Rightarrow> nat" where
  "round_mag n d =
     (let s = bit_len (n div d) - 53
      in min INF_MAG (s * 2 ^ 52 + div_even n (d * 2 ^ s)))"

section \<open>Arithmetic and conversions\<close>

definition f64_add :: "f64 \<Rightarrow> f64 \<Rightarrow> f64" where
  "f64_add a b =
     (if f64_is_nan a \<or> f64_is_nan b then f64_nan
      else if f64_is_infinite a then (if f64_is_infinite b \<and> f64_neg a \<noteq> f64_neg b then f64_nan else a)
      else if f64_is_infinite b then b
      else (let u = f64_units a + f64_units b
            in if u = 0 then f64_make (f64_neg a \<and> f64_neg b) 0
               else f64_make (u < 0) (round_mag (nat \<bar>u\<bar>) 1)))"

definition f64_negate :: "f64 \<Rightarrow> f64" where
  "f64_negate a = f64_make (\<not> f64_neg a) (f64_mag a)"

definition f64_sub :: "f64 \<Rightarrow> f64 \<Rightarrow> f64" where
  "f64_sub a b = f64_add a (f64_negate b)"

definition f64_mul :: "f64 \<Rightarrow> f64 \<Rightarrow> f64" where
  "f64_mul a b =
     (let neg = (f64_neg a \<noteq> f64_neg b)
      in if f64_is_nan a \<or> f64_is_nan b then f64_nan
         else if f64_is_infinite a \<or> f64_is_infinite b
         then (if f64_is_zero a \<or> f64_is_zero b then f64_nan else f64_inf neg)
         else f64_make neg (round_mag (nat \<bar>f64_units a * f64_units b\<bar>) ONE_UNITS))"

definition f64_div :: "f64 \<Rightarrow> f64 \<Rightarrow> f64" where
  "f64_div a b =
     (let neg = (f64_neg a \<noteq> f64_neg b)
      in if f64_is_nan a \<or> f64_is_nan b then f64_nan
         else if f64_is_infinite a then (if f64_is_infinite b then f64_nan else f64_inf neg)
         else if f64_is_infinite b then f64_make neg 0
         else if f64_is_zero b then (if f64_is_zero a then f64_nan else f64_inf neg)
         else f64_make neg (round_mag (nat \<bar>f64_units a\<bar> * ONE_UNITS) (nat \<bar>f64_units b\<bar>)))"

text \<open>\<open>n as f64\<close> and \<open>f64::from(n)\<close>.\<close>

definition f64_of_int :: "int \<Rightarrow> f64" where
  "f64_of_int n = f64_make (n < 0) (round_mag (nat \<bar>n\<bar> * ONE_UNITS) 1)"

text \<open>\<open>round_ties_even\<close>: the integer nearest to a finite value, the sign kept.\<close>

definition f64_round_ties_even :: "f64 \<Rightarrow> f64" where
  "f64_round_ties_even f =
     (if f64_is_finite f
      then f64_make (f64_neg f) (round_mag (div_even (mag_units (f64_mag f)) ONE_UNITS * ONE_UNITS) 1)
      else f)"

text \<open>\<open>f as i32\<close> and \<open>f as i64\<close>: toward zero, saturating, and 0 for NaN.\<close>

definition f64_trunc :: "f64 \<Rightarrow> int" where
  "f64_trunc f = (let m = int (mag_units (f64_mag f) div ONE_UNITS) in if f64_neg f then - m else m)"

definition f64_as_int :: "nat \<Rightarrow> f64 \<Rightarrow> int" where
  "f64_as_int w f =
     (if f64_is_nan f then 0
      else if f64_is_infinite f then (if f64_neg f then - (2 ^ (w - 1)) else 2 ^ (w - 1) - 1)
      else max (- (2 ^ (w - 1))) (min (2 ^ (w - 1) - 1) (f64_trunc f)))"

text \<open>\<open>trunc\<close>, \<open>fract\<close>, \<open>round\<close> (ties away from zero) and \<open>abs\<close>.\<close>

definition f64_truncf :: "f64 \<Rightarrow> f64" where
  "f64_truncf f =
     (if f64_is_finite f
      then f64_make (f64_neg f) (round_mag (mag_units (f64_mag f) div ONE_UNITS * ONE_UNITS) 1) else f)"

definition f64_fract :: "f64 \<Rightarrow> f64" where
  "f64_fract f = f64_sub f (f64_truncf f)"

definition f64_round_away :: "f64 \<Rightarrow> f64" where
  "f64_round_away f =
     (if f64_is_finite f
      then f64_make (f64_neg f) (round_mag ((2 * mag_units (f64_mag f) + ONE_UNITS) div (2 * ONE_UNITS) * ONE_UNITS) 1)
      else f)"

definition f64_abs :: "f64 \<Rightarrow> f64" where
  "f64_abs f = f64_make False (f64_mag f)"

text \<open>The order of the values that are not NaN: \<open>partial_cmp\<close> and \<open><=\<close>.\<close>

definition f64_rank :: "f64 \<Rightarrow> int" where
  "f64_rank f = (if f64_neg f then - int (f64_mag f) else int (f64_mag f))"

definition f64_le :: "f64 \<Rightarrow> f64 \<Rightarrow> bool" where
  "f64_le a b \<longleftrightarrow> \<not> f64_is_nan a \<and> \<not> f64_is_nan b \<and> f64_rank a \<le> f64_rank b"

section \<open>Parsing\<close>

text \<open>
  \<open>str::parse::<f64>\<close>: an optional sign, then \<open>inf\<close>, \<open>infinity\<close> or \<open>nan\<close> in any case, or digits
  with at most one point, at least one digit, and an optional exponent.
\<close>

definition lower_bytes :: "bytes \<Rightarrow> bytes" where
  "lower_bytes = map (\<lambda>b. if 0x41 \<le> b \<and> b \<le> 0x5A then b + 0x20 else b)"

fun strip_sign :: "bytes \<Rightarrow> bool \<times> bytes" where
  "strip_sign (b # r) = (if b = 0x2D then (True, r) else if b = 0x2B then (False, r) else (False, b # r))"
| "strip_sign [] = (False, [])"

definition parse_exponent :: "bytes \<Rightarrow> int option" where
  "parse_exponent s =
     (case s of
        [] \<Rightarrow> Some 0
      | b # r \<Rightarrow>
          if b \<noteq> 0x65 then None
          else (let (neg, ds) = strip_sign r
                in if ds = [] \<or> \<not> list_all is_digit ds then None
                   else Some ((if neg then -1 else 1) * int (digits_val ds))))"

definition decimal_mag :: "nat \<Rightarrow> int \<Rightarrow> nat" where
  "decimal_mag m e =
     (if e \<ge> 0 then round_mag (m * 10 ^ nat e * ONE_UNITS) 1 else round_mag (m * ONE_UNITS) (10 ^ nat (- e)))"

definition f64_parse :: "bytes \<Rightarrow> f64 option" where
  "f64_parse s =
     (let (neg, body) = strip_sign (lower_bytes s)
      in if body = ascii ''inf'' \<or> body = ascii ''infinity'' then Some (f64_inf neg)
         else if body = ascii ''nan'' then Some f64_nan
         else (let ip = takeWhile is_digit body;
                   r1 = dropWhile is_digit body;
                   (fp, r2) = (case r1 of
                                 b # r \<Rightarrow> if b = 0x2E then (takeWhile is_digit r, dropWhile is_digit r) else ([], r1)
                               | [] \<Rightarrow> ([], r1))
               in if ip @ fp = [] then None
                  else map_option (\<lambda>e. f64_make neg (decimal_mag (digits_val (ip @ fp)) (e - int (length fp))))
                         (parse_exponent r2)))"

section \<open>Lemmas\<close>

lemma bit_len_bounds: "0 < n \<Longrightarrow> 2 ^ (bit_len n - 1) \<le> n \<and> n < 2 ^ bit_len n"
proof (induction n rule: bit_len.induct)
  case (1 n)
  show ?case
  proof (cases "n div 2 = 0")
    case True
    with 1 have "n = 1" by auto
    then show ?thesis by (simp add: bit_len.simps)
  next
    case False
    then have IH: "2 ^ (bit_len (n div 2) - 1) \<le> n div 2" "n div 2 < 2 ^ bit_len (n div 2)"
      using 1 by auto
    have L: "bit_len n = Suc (bit_len (n div 2))" using "1.prems" by (subst bit_len.simps) simp
    have "0 < bit_len (n div 2)" using False by (subst bit_len.simps) simp
    then obtain k where k: "bit_len (n div 2) = Suc k" by (cases "bit_len (n div 2)") auto
    from IH L k show ?thesis by auto
  qed
qed

lemma bit_len_le: "n < 2 ^ k \<Longrightarrow> bit_len n \<le> k"
proof (rule ccontr)
  assume n: "n < 2 ^ k" and "\<not> bit_len n \<le> k"
  then have k: "k \<le> bit_len n - 1" and "0 < n" by (auto intro: Nat.gr0I simp: bit_len.simps)
  have "(2 :: nat) ^ k \<le> 2 ^ (bit_len n - 1)" using k by (simp add: power_increasing)
  moreover have "2 ^ (bit_len n - 1) \<le> n" using bit_len_bounds [OF \<open>0 < n\<close>] by blast
  ultimately show False using n by linarith
qed

lemma div_even_exact [simp]: "0 < d \<Longrightarrow> div_even (q * d) d = q"
  by (simp add: div_even_def Let_def)

lemma mag_units_small:
  assumes "m < 2 ^ 53"
  shows "mag_units m = m"
proof -
  define e f where "e = m div 2 ^ 52" and "f = m mod 2 ^ 52"
  have m: "m = e * 2 ^ 52 + f" unfolding e_def f_def by (rule div_mult_mod_eq [symmetric])
  with assms have "e = 0 \<or> e = 1" by auto
  then show ?thesis using m unfolding mag_units_def Let_def e_def [symmetric] f_def [symmetric] by auto
qed

text \<open>A value with at most 53 significant bits is not changed by rounding.\<close>

lemma round_shape:
  assumes "M < 2 ^ 53"
  obtains s Q where "s \<le> k" and "Q < 2 ^ 53" and "mag_units (s * 2 ^ 52 + Q) = M * 2 ^ k"
    and "round_mag (M * 2 ^ k) 1 = min INF_MAG (s * 2 ^ 52 + Q)"
proof (cases "M = 0")
  case True
  then show ?thesis
    by (intro that [of 0 0]) (simp_all add: round_mag_def mag_units_def div_even_def bit_len.simps Let_def)
next
  case False
  define N where "N = M * 2 ^ k"
  define s where "s = bit_len N - 53"
  define Q where "Q = M * 2 ^ (k - s)"
  have N: "0 < N" using False by (simp add: N_def)
  have "N < 2 ^ (53 + k)" using assms by (simp add: N_def power_add)
  then have sk: "s \<le> k" using bit_len_le [of N "53 + k"] by (simp add: s_def)
  then have NQ: "N = Q * 2 ^ s" by (simp add: N_def Q_def power_add [symmetric])
  have "div_even N (2 ^ s) = Q" unfolding NQ by simp
  then have r: "round_mag N 1 = min INF_MAG (s * 2 ^ 52 + Q)" by (simp add: round_mag_def s_def [symmetric] Let_def)
  have "Q < 2 ^ 53 \<and> mag_units (s * 2 ^ 52 + Q) = N"
  proof (cases "s = 0")
    case True
    then have "bit_len N \<le> 53" by (simp add: s_def)
    then have lt: "N < 2 ^ 53" using bit_len_bounds [OF N] power_increasing [of "bit_len N" 53 "2 :: nat"] by simp
    with True NQ mag_units_small [OF lt] show ?thesis by simp
  next
    case False
    then have L: "bit_len N = s + 53" by (simp add: s_def)
    have "2 ^ (s + 52) \<le> N" "N < 2 ^ (s + 53)" using bit_len_bounds [OF N] L by (auto simp: add.commute)
    then have "2 ^ 52 * 2 ^ s \<le> Q * 2 ^ s" "Q * 2 ^ s < 2 ^ 53 * 2 ^ s"
      using NQ by (simp_all add: power_add mult.commute)
    then have q: "2 ^ 52 \<le> Q" "Q < 2 ^ 53" by auto
    define f where "f = Q - 2 ^ 52"
    have f: "Q = 2 ^ 52 + f" "f < 2 ^ 52" using q by (simp_all add: f_def)
    have "s * 2 ^ 52 + Q = (s + 1) * 2 ^ 52 + f" using f by simp
    then have "(s * 2 ^ 52 + Q) div 2 ^ 52 = s + 1" "(s * 2 ^ 52 + Q) mod 2 ^ 52 = f" using f by simp_all
    then show ?thesis using q by (simp add: mag_units_def Let_def f NQ)
  qed
  with sk r show ?thesis by (intro that [of s Q]) (simp_all add: N_def)
qed

lemma ONE_UNITS_pos [simp]: "0 < ONE_UNITS" "ONE_UNITS \<noteq> 0"
  by (simp_all only: ONE_UNITS_def zero_less_power) simp

lemma unat_make: "m < 2 ^ 63 \<Longrightarrow> unat (f64_make neg m) = (if neg then 2 ^ 63 else 0) + m"
  unfolding f64_make_def by (rule unat_of_nat_small) simp

lemma make_mag [simp]: "m < 2 ^ 63 \<Longrightarrow> f64_mag (f64_make neg m) = m"
  and make_neg [simp]: "m < 2 ^ 63 \<Longrightarrow> f64_neg (f64_make neg m) = neg"
  by (simp_all add: f64_mag_def f64_neg_def unat_make)

lemma nan_iff: "f64_is_nan f \<longleftrightarrow> INF_MAG < f64_mag f"
  by (simp add: f64_is_nan_def INF_MAG_def f64_mag_def)

lemma finite_not_nan: "f64_is_finite f \<Longrightarrow> \<not> f64_is_nan f \<and> \<not> f64_is_infinite f"
  by (simp add: nan_iff f64_is_finite_def f64_is_infinite_def)

text \<open>Integers of up to 53 bits convert without loss.\<close>

lemma f64_of_int_exact:
  assumes "\<bar>n\<bar> < 2 ^ 53"
  shows "f64_is_finite (f64_of_int n)" and "mag_units (f64_mag (f64_of_int n)) = nat \<bar>n\<bar> * ONE_UNITS"
    and "f64_neg (f64_of_int n) = (n < 0)"
proof -
  have "nat \<bar>n\<bar> < 2 ^ 53" using assms by (simp add: nat_less_iff)
  then obtain s Q where s: "s \<le> 1074" "Q < 2 ^ 53" and u: "mag_units (s * 2 ^ 52 + Q) = nat \<bar>n\<bar> * ONE_UNITS"
    and r: "round_mag (nat \<bar>n\<bar> * ONE_UNITS) 1 = min INF_MAG (s * 2 ^ 52 + Q)"
    unfolding ONE_UNITS_def by (rule round_shape [where k = 1074])
  have "s * 2 ^ 52 \<le> 1074 * 2 ^ 52" using s(1) by simp
  then have lt: "s * 2 ^ 52 + Q < INF_MAG" using s(2) by (simp add: INF_MAG_def)
  then have r': "round_mag (nat \<bar>n\<bar> * ONE_UNITS) 1 = s * 2 ^ 52 + Q" using r by simp
  have lt': "s * 2 ^ 52 + Q < 2 ^ 63" using lt by (simp add: INF_MAG_def)
  show "f64_is_finite (f64_of_int n)" "mag_units (f64_mag (f64_of_int n)) = nat \<bar>n\<bar> * ONE_UNITS"
    "f64_neg (f64_of_int n) = (n < 0)"
    using lt u unfolding f64_of_int_def r' f64_is_finite_def make_mag [OF lt'] make_neg [OF lt'] by simp_all
qed

lemma f64_trunc_of_int: "\<bar>n\<bar> < 2 ^ 53 \<Longrightarrow> f64_trunc (f64_of_int n) = n"
  by (simp add: f64_trunc_def f64_of_int_exact Let_def)

lemma f64_round_of_int: "\<bar>n\<bar> < 2 ^ 53 \<Longrightarrow> f64_round_ties_even (f64_of_int n) = f64_of_int n"
  by (simp add: f64_round_ties_even_def f64_of_int_exact) (simp add: f64_of_int_def)

section \<open>Order and rounding of values\<close>

lemma mag_units_split: "f < 2 ^ 52 \<Longrightarrow> mag_units (e * 2 ^ 52 + f) = (if e = 0 then f else (2 ^ 52 + f) * 2 ^ (e - 1))"
  by (simp add: mag_units_def Let_def)

lemma mag_split: obtains e f where "m = e * 2 ^ 52 + f" and "f < (2 ^ 52 :: nat)"
  by (rule that [of "m div 2 ^ 52" "m mod 2 ^ 52"]) simp_all

lemma mag_units_Suc: "mag_units m < mag_units (Suc m)"
proof -
  obtain e f where m: "m = e * 2 ^ 52 + f" "f < 2 ^ 52" by (rule mag_split)
  show ?thesis
  proof (cases "Suc f < 2 ^ 52")
    case True
    then have "mag_units (e * 2 ^ 52 + Suc f) = (if e = 0 then Suc f else (2 ^ 52 + Suc f) * 2 ^ (e - 1))"
      by (rule mag_units_split)
    with m mag_units_split [OF m(2), of e] show ?thesis by simp
  next
    case False
    with m(2) have f: "f = 2 ^ 52 - 1" by simp
    have S: "Suc m = Suc e * 2 ^ 52 + 0" using m(1) f by simp
    have "mag_units (Suc m) = 2 ^ 52 * 2 ^ e" unfolding S by (subst mag_units_split) simp_all
    moreover have "mag_units m = (if e = 0 then 2 ^ 52 - 1 else (2 ^ 53 - 1) * 2 ^ (e - 1))"
      unfolding m(1) by (subst mag_units_split [OF m(2)]) (simp add: f)
    moreover have "(2 ^ 53 - 1) * 2 ^ (e - 1) < (2 ^ 52 * 2 ^ e :: nat)" if "e \<noteq> 0"
      using that by (cases e) simp_all
    ultimately show ?thesis by (simp split: if_splits)
  qed
qed

lemma mag_units_less [simp]: "mag_units m < mag_units n \<longleftrightarrow> m < n"
proof -
  have "m < n \<Longrightarrow> mag_units m < mag_units n" for m n
    by (rule lift_Suc_mono_less [of mag_units, OF mag_units_Suc])
  from this [of m n] this [of n m] show ?thesis by (cases m n rule: linorder_cases) auto
qed

lemma mag_units_le [simp]: "mag_units m \<le> mag_units n \<longleftrightarrow> m \<le> n"
  by (simp add: linorder_not_less [symmetric])

lemma mag_units_inj [simp]: "mag_units m = mag_units n \<longleftrightarrow> m = n"
  by (metis mag_units_less less_irrefl linorder_neqE_nat)

lemma mag_units_0 [simp]: "mag_units 0 = 0"
  by (simp add: mag_units_def)

text \<open>The order of floats is the order of their values.\<close>

lemma f64_rank_le: "f64_rank a \<le> f64_rank b \<longleftrightarrow> f64_units a \<le> f64_units b"
proof -
  have pos: "0 < mag_units m \<longleftrightarrow> 0 < m" for m using mag_units_less [of 0 m] by simp
  have "- int (mag_units m) \<le> int (mag_units n)" "- int m \<le> int n" for m n by linarith+
  moreover have "int (mag_units m) \<le> - int (mag_units n) \<longleftrightarrow> int m \<le> - int n" for m n
    using pos [of m] pos [of n] by (cases "m = 0"; cases "n = 0") auto
  ultimately show ?thesis by (auto simp: f64_rank_def f64_units_def)
qed

lemma f64_le_units: "f64_is_finite a \<Longrightarrow> f64_is_finite b \<Longrightarrow> f64_le a b \<longleftrightarrow> f64_units a \<le> f64_units b"
  by (simp add: f64_le_def finite_not_nan f64_rank_le)

lemma round_mag_units:
  assumes "m < INF_MAG"
  shows "round_mag (mag_units m) 1 = m"
proof -
  obtain e f where m: "m = e * 2 ^ 52 + f" "f < 2 ^ 52" by (rule mag_split)
  obtain M k where M: "M < 2 ^ 53" "mag_units m = M * 2 ^ k"
    using m mag_units_split [OF m(2), of e] by (cases "e = 0") (auto intro: that [of f 0] that [of "2 ^ 52 + f" "e - 1"])
  obtain s Q where "mag_units (s * 2 ^ 52 + Q) = M * 2 ^ k" "round_mag (M * 2 ^ k) 1 = min INF_MAG (s * 2 ^ 52 + Q)"
    by (rule round_shape [OF M(1), of k])
  with M(2) assms show ?thesis by (metis mag_units_inj min.strict_order_iff min.commute)
qed

text \<open>The integer nearest to a finite value; ties go to the even one.\<close>

definition nearest_int :: "f64 \<Rightarrow> int" where
  "nearest_int f =
     (let r = int (div_even (mag_units (f64_mag f)) ONE_UNITS) in if f64_neg f then - r else r)"

lemma div_even_le: "0 < d \<Longrightarrow> div_even n d \<le> n div d + 1"
  by (auto simp: div_even_def Let_def)

lemma round_ties_even_exact:
  assumes "f64_is_finite f"
  shows "f64_is_finite (f64_round_ties_even f)" and "f64_neg (f64_round_ties_even f) = f64_neg f"
    and "mag_units (f64_mag (f64_round_ties_even f)) = div_even (mag_units (f64_mag f)) ONE_UNITS * ONE_UNITS"
proof -
  let ?m = "f64_mag f" and ?r = "div_even (mag_units (f64_mag f)) ONE_UNITS"
  have fin: "?m < INF_MAG" using assms by (simp add: f64_is_finite_def)
  obtain e g where m: "?m = e * 2 ^ 52 + g" "g < 2 ^ 52" by (rule mag_split)
  have "\<exists>M. M < INF_MAG \<and> round_mag (?r * ONE_UNITS) 1 = M \<and> mag_units M = ?r * ONE_UNITS"
  proof (cases "1075 \<le> e")
    case True
    then have "mag_units ?m = (2 ^ 52 + g) * 2 ^ (e - 1)" using m mag_units_split [OF m(2), of e] by auto
    also have "(2 :: nat) ^ (e - 1) = 2 ^ (e - 1075) * ONE_UNITS"
      unfolding ONE_UNITS_def power_add [symmetric] using True by (intro arg_cong [where f = "power 2"]) simp
    finally have "?r * ONE_UNITS = mag_units ?m" by (simp add: mult.assoc [symmetric])
    with fin round_mag_units [OF fin] show ?thesis by auto
  next
    case False
    have "mag_units ?m < mag_units (1075 * 2 ^ 52)" using False m by simp
    also have "mag_units (1075 * 2 ^ 52) = 2 ^ 52 * ONE_UNITS"
      using mag_units_split [of 0 1075] by (simp add: ONE_UNITS_def)
    finally have "mag_units ?m div ONE_UNITS < 2 ^ 52" by (simp add: less_mult_imp_div_less)
    with div_even_le [of ONE_UNITS "mag_units ?m"] have r: "?r < 2 ^ 53" by simp
    obtain s Q where s: "s \<le> 1074" "Q < 2 ^ 53" "mag_units (s * 2 ^ 52 + Q) = ?r * ONE_UNITS"
      and "round_mag (?r * ONE_UNITS) 1 = min INF_MAG (s * 2 ^ 52 + Q)"
      using round_shape [OF r, of 1074] unfolding ONE_UNITS_def [symmetric] by blast
    moreover have "s * 2 ^ 52 + Q < INF_MAG" using s(1,2) by (simp add: INF_MAG_def)
    ultimately show ?thesis by auto
  qed
  then obtain M where M: "M < INF_MAG" "round_mag (?r * ONE_UNITS) 1 = M" "mag_units M = ?r * ONE_UNITS" by blast
  have "M < 2 ^ 63" using M(1) by (simp add: INF_MAG_def)
  then show "f64_is_finite (f64_round_ties_even f)" "f64_neg (f64_round_ties_even f) = f64_neg f"
    "mag_units (f64_mag (f64_round_ties_even f)) = ?r * ONE_UNITS"
    using assms M by (simp_all add: f64_round_ties_even_def f64_is_finite_def)
qed

lemma units_round_ties_even:
  "f64_is_finite f \<Longrightarrow> f64_units (f64_round_ties_even f) = nearest_int f * int ONE_UNITS"
  by (simp add: f64_units_def round_ties_even_exact nearest_int_def Let_def)

lemma trunc_round_ties_even: "f64_is_finite f \<Longrightarrow> f64_trunc (f64_round_ties_even f) = nearest_int f"
  by (simp add: f64_trunc_def round_ties_even_exact nearest_int_def Let_def)

lemma units_of_int: "\<bar>n\<bar> < 2 ^ 53 \<Longrightarrow> f64_units (f64_of_int n) = n * int ONE_UNITS"
  by (simp add: f64_units_def f64_of_int_exact)

text \<open>The limits of the 64-bit integers as floats: the upper one is not representable and rounds up.\<close>

lemma bit_len_eq: "2 ^ k \<le> n \<Longrightarrow> n < 2 ^ Suc k \<Longrightarrow> bit_len n = Suc k"
proof (rule antisym)
  assume n: "2 ^ k \<le> n" "n < 2 ^ Suc k"
  then show "bit_len n \<le> Suc k" by (intro bit_len_le)
  have "0 < n" using n(1) by (rule less_le_trans [rotated]) simp
  then have "(2 :: nat) ^ k < 2 ^ bit_len n" using bit_len_bounds [of n] n(1) by (metis le_less_trans)
  then show "Suc k \<le> bit_len n" by simp
qed

lemma div_even_scale: "0 < c \<Longrightarrow> div_even (n * c) (d * c) = div_even n d"
  by (simp add: div_even_def Let_def mult_mod_left mult.assoc [symmetric])

lemma round_i64_max: "round_mag ((2 ^ 63 - 1) * ONE_UNITS) 1 = 1084 * 2 ^ 52 + 2 ^ 53"
proof -
  let ?n = "(2 ^ 63 - 1) * ONE_UNITS"
  have "2 ^ 1136 = 2 ^ 62 * ONE_UNITS" "2 ^ Suc 1136 = 2 ^ 63 * ONE_UNITS"
    unfolding ONE_UNITS_def power_add [symmetric] by (intro arg_cong [where f = "power 2"]; simp)+
  then have len: "bit_len ?n = Suc 1136" by (intro bit_len_eq) simp_all
  have "2 ^ 1084 = 2 ^ 10 * ONE_UNITS"
    unfolding ONE_UNITS_def power_add [symmetric] by (intro arg_cong [where f = "power 2"]) simp
  then have "div_even ?n (2 ^ 1084) = div_even (2 ^ 63 - 1) (2 ^ 10)" by (simp only: div_even_scale ONE_UNITS_pos)
  also have "\<dots> = 2 ^ 53" by (simp add: div_even_def)
  finally have "round_mag ?n 1 = min INF_MAG (1084 * 2 ^ 52 + 2 ^ 53)"
    using len by (simp add: round_mag_def Let_def del: power_numeral)
  also have "\<dots> = 1084 * 2 ^ 52 + 2 ^ 53" by (simp add: INF_MAG_def)
  finally show ?thesis .
qed

lemma units_2_63: "mag_units (1086 * 2 ^ 52) = 2 ^ 63 * ONE_UNITS"
proof -
  have "mag_units (1086 * 2 ^ 52 + 0) = 2 ^ 52 * 2 ^ 1085" by (subst mag_units_split) simp_all
  also have "\<dots> = 2 ^ 63 * ONE_UNITS"
    unfolding ONE_UNITS_def power_add [symmetric] by (intro arg_cong [where f = "power 2"]) simp
  finally show ?thesis by simp
qed

lemma round_2_63: "round_mag (2 ^ 63 * ONE_UNITS) 1 = 1086 * 2 ^ 52"
  using round_mag_units [of "1086 * 2 ^ 52"] unfolding units_2_63 by (simp add: INF_MAG_def)

lemma units_i64_limits:
  "f64_is_finite (f64_of_int (- (2 ^ 63)))" "f64_units (f64_of_int (- (2 ^ 63))) = - (2 ^ 63) * int ONE_UNITS"
  "f64_is_finite (f64_of_int (2 ^ 63 - 1))" "f64_units (f64_of_int (2 ^ 63 - 1)) = 2 ^ 63 * int ONE_UNITS"
proof -
  have lo: "f64_of_int (- (2 ^ 63)) = f64_make True (1086 * 2 ^ 52)"
    unfolding f64_of_int_def round_2_63 [symmetric] by simp
  have "nat \<bar>2 ^ 63 - 1\<bar> = (2 ^ 63 - 1 :: nat)" by simp
  then have hi: "f64_of_int (2 ^ 63 - 1) = f64_make False (1084 * 2 ^ 52 + 2 ^ 53)"
    unfolding f64_of_int_def by (simp only: round_i64_max) simp
  have m: "1086 * 2 ^ 52 < (2 ^ 63 :: nat)" "1084 * 2 ^ 52 + 2 ^ 53 = (1086 * 2 ^ 52 :: nat)" by simp_all
  show "f64_is_finite (f64_of_int (- (2 ^ 63)))" "f64_is_finite (f64_of_int (2 ^ 63 - 1))"
    unfolding lo hi m(2) f64_is_finite_def make_mag [OF m(1)] by (simp_all add: INF_MAG_def)
  show "f64_units (f64_of_int (- (2 ^ 63))) = - (2 ^ 63) * int ONE_UNITS"
    "f64_units (f64_of_int (2 ^ 63 - 1)) = 2 ^ 63 * int ONE_UNITS"
    unfolding lo hi m(2) f64_units_def make_mag [OF m(1)] make_neg [OF m(1)] units_2_63 by simp_all
qed

end
