(* ===== verification/Ops.thy ===== *)
theory Ops
  imports F64 Numeric Datetime "HOL-Library.Signed_Division"
begin

text \<open>
  The operators on SQL values: \<open>pgtypes/src/ops.rs\<close>, with the arithmetic of \<open>numeric.rs\<close> and the
  interval and calendar arithmetic of \<open>datetime.rs\<close> they dispatch to. An operator returns a value or
  a \<open>TypeError\<close>; \<open>None\<close> stands for a panic, which the model keeps wherever the code has an \<open>expect\<close>,
  an \<open>unreachable!\<close> or a library call that panics.

  The theorems: an operator fails with an overflow exactly when the mathematical result does not fit,
  AND, OR and NOT are Kleene's three-valued logic, and comparison is a total preorder on each type.
\<close>

section \<open>The libraries\<close>

datatype cmp_ordering = OLess | OEqual | OGreater

datatype span_unit = UMonths | UDays | UMicros

text \<open>
  What the arithmetic calls of \<open>jiff\<close> and \<open>bigdecimal\<close>, beside the conversions of \<open>ext\<close>:
  \<^item> \<open>l_cmp\<close>: \<open>Ord::cmp\<close> of dates, times, datetimes and timestamps;
  \<^item> \<open>span_fits u n\<close>: whether \<open>n\<close> is within the range of the span unit; \<open>n.days()\<close> and its siblings
    panic outside it;
  \<^item> \<open>date_add\<close>, \<open>dt_add\<close>: \<open>checked_add\<close> of a span of one unit;
  \<^item> \<open>date_since\<close>, \<open>dt_since\<close>: the days and the microseconds of \<open>since\<close>;
  \<^item> \<open>to_datetime\<close>, \<open>midnight\<close>: \<open>Date::to_datetime\<close> and \<open>Time::midnight\<close>;
  \<^item> \<open>bd_add\<close>, \<open>bd_sub\<close>, \<open>bd_mul\<close>, \<open>bd_div\<close>, \<open>bd_rem\<close>, \<open>bd_cmp\<close>: the operators of \<open>BigDecimal\<close>;
  \<^item> \<open>bd_half_up d n\<close>: \<open>with_scale_round(n, HalfUp)\<close>;
  \<^item> \<open>bd_to_i32\<close>, \<open>bd_to_i64\<close>, \<open>bd_to_f64\<close>: its \<open>ToPrimitive\<close>.
\<close>

record 'j lib =
  l_ext :: "'j ext"
  l_cmp :: "'j \<Rightarrow> 'j \<Rightarrow> cmp_ordering"
  span_fits :: "span_unit \<Rightarrow> int \<Rightarrow> bool"
  date_add :: "'j \<Rightarrow> i64 \<Rightarrow> 'j option"
  date_since :: "'j \<Rightarrow> 'j \<Rightarrow> i32"
  dt_add :: "span_unit \<Rightarrow> 'j \<Rightarrow> i64 \<Rightarrow> 'j option"
  dt_since :: "'j \<Rightarrow> 'j \<Rightarrow> i64"
  to_datetime :: "'j \<Rightarrow> 'j \<Rightarrow> 'j"
  midnight :: 'j
  bd_add :: "bigdecimal \<Rightarrow> bigdecimal \<Rightarrow> bigdecimal"
  bd_sub :: "bigdecimal \<Rightarrow> bigdecimal \<Rightarrow> bigdecimal"
  bd_mul :: "bigdecimal \<Rightarrow> bigdecimal \<Rightarrow> bigdecimal"
  bd_div :: "bigdecimal \<Rightarrow> bigdecimal \<Rightarrow> bigdecimal"
  bd_rem :: "bigdecimal \<Rightarrow> bigdecimal \<Rightarrow> bigdecimal"
  bd_cmp :: "bigdecimal \<Rightarrow> bigdecimal \<Rightarrow> cmp_ordering"
  bd_half_up :: "bigdecimal \<Rightarrow> int \<Rightarrow> bigdecimal"
  bd_to_i32 :: "bigdecimal \<Rightarrow> i32 option"
  bd_to_i64 :: "bigdecimal \<Rightarrow> i64 option"
  bd_to_f64 :: "bigdecimal \<Rightarrow> f64 option"

section \<open>Results that may panic\<close>

type_synonym 'a pres = "(type_error + 'a) option"

definition pbind :: "'a pres \<Rightarrow> ('a \<Rightarrow> 'b pres) \<Rightarrow> 'b pres" where
  "pbind m f = (case m of None \<Rightarrow> None | Some (Inl e) \<Rightarrow> Some (Inl e) | Some (Inr x) \<Rightarrow> f x)"

definition pmap :: "('a \<Rightarrow> 'b) \<Rightarrow> 'a pres \<Rightarrow> 'b pres" where
  "pmap f m = pbind m (\<lambda>x. Some (Inr (f x)))"

definition rmap :: "('a \<Rightarrow> 'b) \<Rightarrow> 'e + 'a \<Rightarrow> 'e + 'b" where
  "rmap f m = rbind m (\<lambda>x. Inr (f x))"

lemma pbind_simps [simp]:
  "pbind None f = None" "pbind (Some (Inl e)) f = Some (Inl e)" "pbind (Some (Inr x)) f = f x"
  by (simp_all add: pbind_def)

lemma pmap_simps [simp]:
  "pmap g None = None" "pmap g (Some (Inl e)) = Some (Inl e)" "pmap g (Some (Inr x)) = Some (Inr (g x))"
  by (simp_all add: pmap_def)

lemma rmap_simps [simp]: "rmap g (Inl e) = Inl e" "rmap g (Inr x) = Inr (g x)"
  by (simp_all add: rmap_def)

lemma rmap_eq_Inr: "rmap g m = Inr y \<longleftrightarrow> (\<exists>x. m = Inr x \<and> y = g x)"
  by (cases m) auto

lemma pmap_eq_Inr: "pmap g m = Some (Inr y) \<longleftrightarrow> (\<exists>x. m = Some (Inr x) \<and> y = g x)"
  by (cases m rule: option.exhaust, simp, rename_tac r, case_tac r) auto

section \<open>Checked integer arithmetic\<close>

text \<open>\<open>checked_*\<close>: the result where the type has it; \<open>i32::try_from\<close> alike.\<close>

definition checked :: "int \<Rightarrow> 'a::len word option" where
  "checked i = (if sint (word_of_int i :: 'a word) = i then Some (word_of_int i) else None)"

definition checked_add :: "'a::len word \<Rightarrow> 'a word \<Rightarrow> 'a word option" where
  "checked_add a b = checked (sint a + sint b)"

definition checked_sub :: "'a::len word \<Rightarrow> 'a word \<Rightarrow> 'a word option" where
  "checked_sub a b = checked (sint a - sint b)"

definition checked_mul :: "'a::len word \<Rightarrow> 'a word \<Rightarrow> 'a word option" where
  "checked_mul a b = checked (sint a * sint b)"

definition checked_div :: "'a::len word \<Rightarrow> 'a word \<Rightarrow> 'a word option" where
  "checked_div a b = (if b = 0 then None else checked (sint a sdiv sint b))"

definition checked_neg :: "'a::len word \<Rightarrow> 'a word option" where
  "checked_neg a = checked (- sint a)"

definition wrapping_rem :: "'a::len word \<Rightarrow> 'a word \<Rightarrow> 'a word" where
  "wrapping_rem a b = word_of_int (sint a smod sint b)"

definition try_i32 :: "int \<Rightarrow> type_error + i32" where
  "try_i32 n = ok_or Overflow (checked n)"

section \<open>\<open>numeric\<close> arithmetic\<close>

definition num_is_zero :: "bigdecimal \<Rightarrow> bool" where
  "num_is_zero bd \<longleftrightarrow> dec_bytes (nat \<bar>mant bd\<bar>) = ascii ''0''"

definition num_add :: "'j lib \<Rightarrow> bigdecimal \<Rightarrow> bigdecimal \<Rightarrow> bigdecimal" where
  "num_add L a b = canonical (l_ext L) (bd_add L a b)"

definition num_sub :: "'j lib \<Rightarrow> bigdecimal \<Rightarrow> bigdecimal \<Rightarrow> bigdecimal" where
  "num_sub L a b = canonical (l_ext L) (bd_sub L a b)"

definition num_mul :: "'j lib \<Rightarrow> bigdecimal \<Rightarrow> bigdecimal \<Rightarrow> bigdecimal" where
  "num_mul L a b = canonical (l_ext L) (bd_mul L a b)"

definition nbase_weight_and_lead :: "bigdecimal \<Rightarrow> int \<times> nat" where
  "nbase_weight_and_lead bd =
     (let digits = dec_bytes (nat \<bar>mant bd\<bar>)
      in if digits = ascii ''0'' then (0, 0)
         else (let dweight = int (length digits) - 1 - expo bd;
                   w = dweight div 4;
                   count = nat (dweight - 4 * w + 1);
                   lead = take count digits
               in (w, digits_val (lead @ replicate (count - length lead) 0x30))))"

definition select_div_scale :: "bigdecimal \<Rightarrow> bigdecimal \<Rightarrow> int" where
  "select_div_scale a b =
     (let (w1, f1) = nbase_weight_and_lead a;
          (w2, f2) = nbase_weight_and_lead b;
          qweight = (if f1 < f2 then w1 - w2 - 1 else w1 - w2);
          s1 = max (expo a) 0;
          s2 = max (expo b) 0
      in min 1000 (max 0 (max (16 - qweight * 4) (s1 + s2))))"

definition num_div :: "'j lib \<Rightarrow> bigdecimal \<Rightarrow> bigdecimal \<Rightarrow> type_error + bigdecimal" where
  "num_div L a b =
     (if num_is_zero b then Inl DivisionByZero
      else Inr (bd_half_up L (bd_div L a b) (select_div_scale a b)))"

definition num_rem :: "'j lib \<Rightarrow> bigdecimal \<Rightarrow> bigdecimal \<Rightarrow> type_error + bigdecimal" where
  "num_rem L a b =
     (if num_is_zero b then Inl DivisionByZero else Inr (canonical (l_ext L) (bd_rem L a b)))"

definition num_to_f64 :: "'j lib \<Rightarrow> bigdecimal \<Rightarrow> f64" where
  "num_to_f64 L bd = (case bd_to_f64 L bd of Some f \<Rightarrow> f | None \<Rightarrow> f64_inf False)"

definition num_of_int :: "int \<Rightarrow> bigdecimal" where
  "num_of_int n = \<lparr> mant = n, expo = 0 \<rparr>"

section \<open>Interval and calendar arithmetic\<close>

definition add_interval :: "interval \<Rightarrow> interval \<Rightarrow> type_error + interval" where
  "add_interval a b =
     rbind (ok_or Overflow (checked_add (months a) (months b))) (\<lambda>m.
     rbind (ok_or Overflow (checked_add (days a) (days b))) (\<lambda>d.
     rbind (ok_or Overflow (checked_add (micros a) (micros b))) (\<lambda>u.
       Inr \<lparr> months = m, days = d, micros = u \<rparr>)))"

definition neg_interval :: "interval \<Rightarrow> type_error + interval" where
  "neg_interval a =
     rbind (ok_or Overflow (checked_neg (months a))) (\<lambda>m.
     rbind (ok_or Overflow (checked_neg (days a))) (\<lambda>d.
     rbind (ok_or Overflow (checked_neg (micros a))) (\<lambda>u.
       Inr \<lparr> months = m, days = d, micros = u \<rparr>)))"

definition sub_interval :: "interval \<Rightarrow> interval \<Rightarrow> type_error + interval" where
  "sub_interval a b = rbind (neg_interval b) (\<lambda>neg. add_interval a neg)"

definition mul_interval :: "interval \<Rightarrow> f64 \<Rightarrow> type_error + interval" where
  "mul_interval a factor =
     (if \<not> f64_is_finite factor then Inl Overflow
      else (let months_f = f64_mul (f64_of_int (sint (months a))) factor;
                mo = f64_as_int 64 (f64_truncf months_f);
                days_from_months = f64_mul (f64_fract months_f) (f64_of_int 30);
                days_f = f64_add (f64_mul (f64_of_int (sint (days a))) factor) days_from_months;
                da = f64_as_int 64 (f64_truncf days_f);
                micros_from_days = f64_mul (f64_fract days_f) (f64_of_int USECS_PER_DAY);
                micros_f = f64_add (f64_mul (f64_of_int (sint (micros a))) factor) micros_from_days
            in rbind (try_i32 mo) (\<lambda>mo.
               rbind (try_i32 da) (\<lambda>da.
                 if \<not> f64_is_finite micros_f \<or> f64_le (f64_of_int (2 ^ 63)) (f64_abs micros_f) then Inl Overflow
                 else Inr \<lparr> months = mo, days = da, micros = word_of_int (f64_as_int 64 (f64_round_away micros_f)) \<rparr>))))"

definition div_interval :: "interval \<Rightarrow> f64 \<Rightarrow> type_error + interval" where
  "div_interval a divisor =
     (if f64_is_zero divisor then Inl DivisionByZero else mul_interval a (f64_div (f64_of_int 1) divisor))"

definition date_plus_days :: "'j lib \<Rightarrow> 'j \<Rightarrow> i64 \<Rightarrow> 'j pres" where
  "date_plus_days L d n =
     (if \<not> span_fits L UDays (sint n) then None
      else Some (ok_or (DatetimeFieldOverflow (dec_int (sint n))) (date_add L d n)))"

definition date_to_midnight :: "'j lib \<Rightarrow> 'j \<Rightarrow> 'j" where
  "date_to_midnight L d = to_datetime L d (midnight L)"

text \<open>One field of an interval added to a datetime, when it is not zero.\<close>

definition dt_step :: "'j lib \<Rightarrow> span_unit \<Rightarrow> i64 \<Rightarrow> 'j \<Rightarrow> 'j pres" where
  "dt_step L u n ts =
     (if n = 0 then Some (Inr ts)
      else if \<not> span_fits L u (sint n) then None
      else Some (ok_or (DatetimeFieldOverflow ''interval arithmetic'') (dt_add L u ts n)))"

definition timestamp_plus_interval :: "'j lib \<Rightarrow> 'j \<Rightarrow> interval \<Rightarrow> 'j pres" where
  "timestamp_plus_interval L ts iv =
     pbind (dt_step L UMonths (scast (months iv)) ts) (\<lambda>ts.
     pbind (dt_step L UDays (scast (days iv)) ts) (\<lambda>ts.
       dt_step L UMicros (micros iv) ts))"

definition date_plus_interval :: "'j lib \<Rightarrow> 'j \<Rightarrow> interval \<Rightarrow> 'j pres" where
  "date_plus_interval L d iv = timestamp_plus_interval L (date_to_midnight L d) iv"

definition timestamp_diff :: "'j lib \<Rightarrow> 'j \<Rightarrow> 'j \<Rightarrow> interval" where
  "timestamp_diff L a b =
     (let total = sint (dt_since L a b)
      in \<lparr> months = 0, days = word_of_int (total sdiv USECS_PER_DAY), micros = word_of_int (total smod USECS_PER_DAY) \<rparr>)"

definition time_plus_interval :: "'j ext \<Rightarrow> 'j \<Rightarrow> interval \<Rightarrow> 'j option" where
  "time_plus_interval E t iv =
     (let base = sint (time_hour E t) * 3600000000 + sint (time_minute E t) * 60000000
                 + sint (time_second E t) * 1000000 + sint (time_subsec E t) sdiv 1000;
          sum = sint (word_of_int (base + sint (micros iv)) :: i64);
          us = sum mod USECS_PER_DAY;
          hour = us div 3600000000;
          rem = us mod 3600000000;
          minute = rem div 60000000;
          rem2 = rem mod 60000000;
          second = rem2 div 1000000;
          nanos = (rem2 mod 1000000) * 1000
      in time_new E (word_of_int hour) (word_of_int minute) (word_of_int second) (word_of_int nanos))"

section \<open>Literals and promotion\<close>

text \<open>\<open>str::parse\<close> of a signed integer: an optional sign and digits, within the range.\<close>

definition parse_int :: "bytes \<Rightarrow> 'a::len word option" where
  "parse_int s =
     (let (neg, ds) = strip_sign s
      in if ds = [] \<or> \<not> list_all is_digit ds then None
         else checked ((if neg then -1 else 1) * int (digits_val ds)))"

definition int_literal :: "bytes \<Rightarrow> type_error + 'j datum" where
  "int_literal s =
     (case parse_int s of
        Some n \<Rightarrow> Inr (Int4 n)
      | None \<Rightarrow> (case parse_int s of Some n \<Rightarrow> Inr (Int8 n) | None \<Rightarrow> Inl Overflow))"

definition float_literal :: "bytes \<Rightarrow> type_error + 'j datum" where
  "float_literal s =
     (case f64_parse s of
        Some v \<Rightarrow> if f64_is_infinite v then Inl Overflow else Inr (Float8 v)
      | None \<Rightarrow> Inl (InvalidText ''double precision'' (chars_of s)))"

fun as_i64 :: "'j datum \<Rightarrow> i64 option" where
  "as_i64 (Int4 n) = Some (scast n)"
| "as_i64 (Int8 n) = Some n"
| "as_i64 _ = None"

fun as_f64 :: "'j lib \<Rightarrow> 'j datum \<Rightarrow> f64 option" where
  "as_f64 L (Int4 n) = Some (f64_of_int (sint n))"
| "as_f64 L (Int8 n) = Some (f64_of_int (sint n))"
| "as_f64 L (Float8 f) = Some f"
| "as_f64 L (Numeric d) = Some (num_to_f64 L d)"
| "as_f64 L _ = None"

fun as_numeric :: "'j datum \<Rightarrow> bigdecimal option" where
  "as_numeric (Int4 n) = Some (num_of_int (sint n))"
| "as_numeric (Int8 n) = Some (num_of_int (sint n))"
| "as_numeric (Numeric d) = Some d"
| "as_numeric _ = None"

fun d_is_float :: "'j datum \<Rightarrow> bool" where
  "d_is_float (Float8 _) = True"
| "d_is_float _ = False"

fun d_is_numeric :: "'j datum \<Rightarrow> bool" where
  "d_is_numeric (Numeric _) = True"
| "d_is_numeric _ = False"

fun d_is_temporal :: "'j datum \<Rightarrow> bool" where
  "d_is_temporal (Date _) = True"
| "d_is_temporal (Time _) = True"
| "d_is_temporal (Timestamp _) = True"
| "d_is_temporal (Timestamptz _) = True"
| "d_is_temporal (Interval _) = True"
| "d_is_temporal _ = False"

section \<open>Arithmetic\<close>

definition float_arith :: "f64 \<Rightarrow> f64 \<Rightarrow> (f64 \<Rightarrow> f64 \<Rightarrow> f64) \<Rightarrow> type_error + 'j datum" where
  "float_arith x y op =
     (let r = op x y
      in if f64_is_infinite r \<and> f64_is_finite x \<and> f64_is_finite y then Inl Overflow else Inr (Float8 r))"

definition arith ::
  "'j lib \<Rightarrow> 'j datum \<Rightarrow> 'j datum \<Rightarrow> (i32 \<Rightarrow> i32 \<Rightarrow> i32 option) \<Rightarrow> (i64 \<Rightarrow> i64 \<Rightarrow> i64 option)
   \<Rightarrow> (f64 \<Rightarrow> f64 \<Rightarrow> f64) \<Rightarrow> (bigdecimal \<Rightarrow> bigdecimal \<Rightarrow> bigdecimal option) \<Rightarrow> 'j datum pres" where
  "arith L a b op_i4 op_i8 op_f8 op_num =
     (if is_null a \<or> is_null b then Some (Inr Null)
      else if d_is_float a \<or> d_is_float b
      then (case (as_f64 L a, as_f64 L b) of
              (Some x, Some y) \<Rightarrow> Some (float_arith x y op_f8)
            | _ \<Rightarrow> Some (Inl (TypeMismatch ''operator requires numeric operands'')))
      else if d_is_numeric a \<or> d_is_numeric b
      then (case (as_numeric a, as_numeric b) of
              (Some x, Some y) \<Rightarrow> map_option (\<lambda>r. Inr (Numeric r)) (op_num x y)
            | _ \<Rightarrow> Some (Inl (TypeMismatch ''operator requires numeric operands'')))
      else (case (a, b) of
              (Int4 x, Int4 y) \<Rightarrow> Some (rmap Int4 (ok_or Overflow (op_i4 x y)))
            | _ \<Rightarrow> (case (as_i64 a, as_i64 b) of
                      (Some x, Some y) \<Rightarrow> Some (rmap Int8 (ok_or Overflow (op_i8 x y)))
                    | _ \<Rightarrow> Some (Inl (TypeMismatch ''operator requires integer operands'')))))"

definition no_temporal_op :: "type_error" where
  "no_temporal_op = TypeMismatch ''operator does not exist for these temporal types''"

definition temporal_add :: "'j lib \<Rightarrow> 'j datum \<Rightarrow> 'j datum \<Rightarrow> 'j datum pres" where
  "temporal_add L a b =
     (case (a, b) of
        (Date d, Int4 n) \<Rightarrow> pmap Date (date_plus_days L d (scast n))
      | (Date d, Int8 n) \<Rightarrow> pmap Date (date_plus_days L d n)
      | (Int4 n, Date d) \<Rightarrow> pmap Date (date_plus_days L d (scast n))
      | (Int8 n, Date d) \<Rightarrow> pmap Date (date_plus_days L d n)
      | (Date d, Interval iv) \<Rightarrow> pmap Timestamp (date_plus_interval L d iv)
      | (Interval iv, Date d) \<Rightarrow> pmap Timestamp (date_plus_interval L d iv)
      | (Date d, Time t) \<Rightarrow> Some (Inr (Timestamp (to_datetime L d t)))
      | (Time t, Date d) \<Rightarrow> Some (Inr (Timestamp (to_datetime L d t)))
      | (Time t, Interval iv) \<Rightarrow> map_option (\<lambda>t. Inr (Time t)) (time_plus_interval (l_ext L) t iv)
      | (Interval iv, Time t) \<Rightarrow> map_option (\<lambda>t. Inr (Time t)) (time_plus_interval (l_ext L) t iv)
      | (Timestamp ts, Interval iv) \<Rightarrow> pmap Timestamp (timestamp_plus_interval L ts iv)
      | (Interval iv, Timestamp ts) \<Rightarrow> pmap Timestamp (timestamp_plus_interval L ts iv)
      | (Interval x, Interval y) \<Rightarrow> Some (rmap Interval (add_interval x y))
      | _ \<Rightarrow> Some (Inl no_temporal_op))"

definition temporal_sub :: "'j lib \<Rightarrow> 'j datum \<Rightarrow> 'j datum \<Rightarrow> 'j datum pres" where
  "temporal_sub L a b =
     (case (a, b) of
        (Date d, Int4 n) \<Rightarrow>
          (case checked_neg n of None \<Rightarrow> Some (Inl Overflow) | Some m \<Rightarrow> pmap Date (date_plus_days L d (scast m)))
      | (Date d, Int8 n) \<Rightarrow>
          (case checked_neg n of None \<Rightarrow> Some (Inl Overflow) | Some m \<Rightarrow> pmap Date (date_plus_days L d m))
      | (Date x, Date y) \<Rightarrow> Some (Inr (Int4 (date_since L x y)))
      | (Date d, Interval iv) \<Rightarrow> pbind (Some (neg_interval iv)) (\<lambda>neg. pmap Timestamp (date_plus_interval L d neg))
      | (Time t, Interval iv) \<Rightarrow>
          pbind (Some (neg_interval iv)) (\<lambda>neg. map_option (\<lambda>t. Inr (Time t)) (time_plus_interval (l_ext L) t neg))
      | (Timestamp ts, Interval iv) \<Rightarrow>
          pbind (Some (neg_interval iv)) (\<lambda>neg. pmap Timestamp (timestamp_plus_interval L ts neg))
      | (Timestamp x, Timestamp y) \<Rightarrow> Some (Inr (Interval (timestamp_diff L x y)))
      | (Interval x, Interval y) \<Rightarrow> Some (rmap Interval (sub_interval x y))
      | _ \<Rightarrow> Some (Inl no_temporal_op))"

definition temporal_mul :: "'j lib \<Rightarrow> 'j datum \<Rightarrow> 'j datum \<Rightarrow> type_error + 'j datum" where
  "temporal_mul L a b =
     (let scaled = (\<lambda>iv num. rbind (ok_or (TypeMismatch ''interval multiplier must be numeric'') (as_f64 L num))
                                (\<lambda>f. rmap Interval (mul_interval iv f)))
      in case a of
           Interval iv \<Rightarrow> scaled iv b
         | _ \<Rightarrow> (case b of Interval iv \<Rightarrow> scaled iv a | _ \<Rightarrow> Inl no_temporal_op))"

definition temporal_div :: "'j lib \<Rightarrow> 'j datum \<Rightarrow> 'j datum \<Rightarrow> type_error + 'j datum" where
  "temporal_div L a b =
     (case a of
        Interval iv \<Rightarrow> rbind (ok_or (TypeMismatch ''interval divisor must be numeric'') (as_f64 L b))
                         (\<lambda>f. rmap Interval (div_interval iv f))
      | _ \<Rightarrow> Inl no_temporal_op)"

definition ops_add :: "'j lib \<Rightarrow> 'j datum \<Rightarrow> 'j datum \<Rightarrow> 'j datum pres" where
  "ops_add L a b =
     (if is_null a \<or> is_null b then Some (Inr Null)
      else if d_is_temporal a \<or> d_is_temporal b then temporal_add L a b
      else arith L a b checked_add checked_add f64_add (\<lambda>x y. Some (num_add L x y)))"

definition ops_sub :: "'j lib \<Rightarrow> 'j datum \<Rightarrow> 'j datum \<Rightarrow> 'j datum pres" where
  "ops_sub L a b =
     (if is_null a \<or> is_null b then Some (Inr Null)
      else if d_is_temporal a \<or> d_is_temporal b then temporal_sub L a b
      else arith L a b checked_sub checked_sub f64_sub (\<lambda>x y. Some (num_sub L x y)))"

definition ops_mul :: "'j lib \<Rightarrow> 'j datum \<Rightarrow> 'j datum \<Rightarrow> 'j datum pres" where
  "ops_mul L a b =
     (if is_null a \<or> is_null b then Some (Inr Null)
      else if d_is_temporal a \<or> d_is_temporal b then Some (temporal_mul L a b)
      else arith L a b checked_mul checked_mul f64_mul (\<lambda>x y. Some (num_mul L x y)))"

fun d_int_zero :: "'j datum \<Rightarrow> bool" where
  "d_int_zero (Int4 n) \<longleftrightarrow> n = 0"
| "d_int_zero (Int8 n) \<longleftrightarrow> n = 0"
| "d_int_zero _ \<longleftrightarrow> False"

definition ops_div :: "'j lib \<Rightarrow> 'j datum \<Rightarrow> 'j datum \<Rightarrow> 'j datum pres" where
  "ops_div L a b =
     (if is_null a \<or> is_null b then Some (Inr Null)
      else if d_is_temporal a \<or> d_is_temporal b then Some (temporal_div L a b)
      else if d_is_float a \<or> d_is_float b
      then (case (as_f64 L a, as_f64 L b) of
              (Some x, Some y) \<Rightarrow> Some (if f64_is_zero y then Inl DivisionByZero else float_arith x y f64_div)
            | _ \<Rightarrow> Some (Inl (TypeMismatch ''operator requires numeric operands'')))
      else if d_is_numeric a \<or> d_is_numeric b
      then (case (as_numeric a, as_numeric b) of
              (Some x, Some y) \<Rightarrow> Some (rmap Numeric (num_div L x y))
            | _ \<Rightarrow> Some (Inl (TypeMismatch ''operator requires numeric operands'')))
      else if d_int_zero b then Some (Inl DivisionByZero)
      else arith L a b checked_div checked_div f64_div (\<lambda>_ _. None))"

definition ops_rem :: "'j lib \<Rightarrow> 'j datum \<Rightarrow> 'j datum \<Rightarrow> type_error + 'j datum" where
  "ops_rem L a b =
     (if is_null a \<or> is_null b then Inr Null
      else if d_is_numeric a \<or> d_is_numeric b
      then (case (as_numeric a, as_numeric b) of
              (Some x, Some y) \<Rightarrow> rmap Numeric (num_rem L x y)
            | _ \<Rightarrow> Inl (TypeMismatch ''mod requires numeric operands''))
      else if d_int_zero b then Inl DivisionByZero
      else (case (a, b) of
              (Int4 x, Int4 y) \<Rightarrow> Inr (Int4 (wrapping_rem x y))
            | _ \<Rightarrow> (case (as_i64 a, as_i64 b) of
                      (Some x, Some y) \<Rightarrow> Inr (Int8 (wrapping_rem x y))
                    | _ \<Rightarrow> Inl (TypeMismatch ''mod requires integer operands''))))"

section \<open>Comparison and logic\<close>

definition cmp_of :: "'a::linorder \<Rightarrow> 'a \<Rightarrow> cmp_ordering" where
  "cmp_of a b = (if a < b then OLess else if a = b then OEqual else OGreater)"

definition float_cmp :: "f64 \<Rightarrow> f64 \<Rightarrow> cmp_ordering" where
  "float_cmp x y =
     (case (f64_is_nan x, f64_is_nan y) of
        (True, True) \<Rightarrow> OEqual
      | (True, False) \<Rightarrow> OGreater
      | (False, True) \<Rightarrow> OLess
      | (False, False) \<Rightarrow> cmp_of (f64_rank x) (f64_rank y))"

definition d_type_name :: "'j datum \<Rightarrow> string" where
  "d_type_name d = (case column_type_of d of Some t \<Rightarrow> type_name t | None \<Rightarrow> ''unknown'')"

definition cannot_compare :: "'j datum \<Rightarrow> 'j datum \<Rightarrow> type_error" where
  "cannot_compare a b = TypeMismatch (''cannot compare '' @ d_type_name a @ '' and '' @ d_type_name b)"

definition compare_num :: "'j lib \<Rightarrow> 'j datum \<Rightarrow> 'j datum \<Rightarrow> type_error + cmp_ordering" where
  "compare_num L a b =
     ok_or (cannot_compare a b)
       (if d_is_float a \<or> d_is_float b
        then (case (as_f64 L a, as_f64 L b) of (Some x, Some y) \<Rightarrow> Some (float_cmp x y) | _ \<Rightarrow> None)
        else if d_is_numeric a \<or> d_is_numeric b
        then (case (as_numeric a, as_numeric b) of (Some x, Some y) \<Rightarrow> Some (bd_cmp L x y) | _ \<Rightarrow> None)
        else (case (as_i64 a, as_i64 b) of (Some x, Some y) \<Rightarrow> Some (cmp_of (sint x) (sint y)) | _ \<Rightarrow> None))"

definition compare :: "'j lib \<Rightarrow> 'j datum \<Rightarrow> 'j datum \<Rightarrow> type_error + cmp_ordering option" where
  "compare L a b =
     (if is_null a \<or> is_null b then Inr None
      else rmap Some
        (case (a, b) of
           (Text x, Text y) \<Rightarrow> Inr (cmp_of x y)
         | (Bool x, Bool y) \<Rightarrow> Inr (cmp_of x y)
         | (Date x, Date y) \<Rightarrow> Inr (l_cmp L x y)
         | (Time x, Time y) \<Rightarrow> Inr (l_cmp L x y)
         | (Timestamp x, Timestamp y) \<Rightarrow> Inr (l_cmp L x y)
         | (Timestamptz x, Timestamptz y) \<Rightarrow> Inr (l_cmp L x y)
         | (Interval x, Interval y) \<Rightarrow> Inr (cmp_of (canonical_micros x) (canonical_micros y))
         | (Date d, Timestamp ts) \<Rightarrow> Inr (l_cmp L (date_to_midnight L d) ts)
         | (Timestamp ts, Date d) \<Rightarrow> Inr (l_cmp L ts (date_to_midnight L d))
         | _ \<Rightarrow> compare_num L a b))"

fun as_bool :: "'j datum \<Rightarrow> type_error + bool option" where
  "as_bool Null = Inr None"
| "as_bool (Bool b) = Inr (Some b)"
| "as_bool _ = Inl (TypeMismatch ''argument of boolean operator must be boolean'')"

definition ops_and :: "'j datum \<Rightarrow> 'j datum \<Rightarrow> type_error + 'j datum" where
  "ops_and a b =
     rbind (as_bool a) (\<lambda>x. rbind (as_bool b) (\<lambda>y.
       Inr (if x = Some False \<or> y = Some False then Bool False
            else if x = Some True \<and> y = Some True then Bool True
            else Null)))"

definition ops_or :: "'j datum \<Rightarrow> 'j datum \<Rightarrow> type_error + 'j datum" where
  "ops_or a b =
     rbind (as_bool a) (\<lambda>x. rbind (as_bool b) (\<lambda>y.
       Inr (if x = Some True \<or> y = Some True then Bool True
            else if x = Some False \<and> y = Some False then Bool False
            else Null)))"

definition ops_not :: "'j datum \<Rightarrow> type_error + 'j datum" where
  "ops_not a = rbind (as_bool a) (\<lambda>x. Inr (case x of Some b \<Rightarrow> Bool (\<not> b) | None \<Rightarrow> Null))"

section \<open>Integer arithmetic\<close>

text \<open>The integer a value denotes, and the result of an integer operation on two of them: \<open>int4\<close> when
  both operands are, \<open>int8\<close> otherwise, and an overflow when the result does not fit.\<close>

fun int_val :: "'j datum \<Rightarrow> int option" where
  "int_val (Int4 n) = Some (sint n)"
| "int_val (Int8 n) = Some (sint n)"
| "int_val _ = None"

fun both_int4 :: "'j datum \<Rightarrow> 'j datum \<Rightarrow> bool" where
  "both_int4 (Int4 _) (Int4 _) = True"
| "both_int4 _ _ = False"

definition int_result :: "'j datum \<Rightarrow> 'j datum \<Rightarrow> int \<Rightarrow> type_error + 'j datum" where
  "int_result a b r =
     (if both_int4 a b
      then (if - (2 ^ 31) \<le> r \<and> r < 2 ^ 31 then Inr (Int4 (word_of_int r)) else Inl Overflow)
      else (if - (2 ^ 63) \<le> r \<and> r < 2 ^ 63 then Inr (Int8 (word_of_int r)) else Inl Overflow))"

lemma sint_fits: "sint (word_of_int i :: 'a::len word) = i \<longleftrightarrow> - (2 ^ (LENGTH('a) - 1)) \<le> i \<and> i < 2 ^ (LENGTH('a) - 1)"
  by (simp only: sint_sbintrunc' signed_take_bit_int_eq_self_iff)

lemma checked_fits: "checked i = (if - (2 ^ (LENGTH('a) - 1)) \<le> i \<and> i < 2 ^ (LENGTH('a) - 1) then Some (word_of_int i :: 'a::len word) else None)"
  by (simp add: checked_def sint_fits)

lemma sint_scast_i64 [simp]: "sint (scast (n :: i32) :: i64) = sint n"
  by (simp add: sint_up_scast is_up)

lemma i64_result: "rmap Int8 (ok_or Overflow (checked r)) = (if - (2 ^ 63) \<le> r \<and> r < 2 ^ 63 then Inr (Int8 (word_of_int r)) else Inl Overflow)"
  and i32_result: "rmap Int4 (ok_or Overflow (checked r)) = (if - (2 ^ 31) \<le> r \<and> r < 2 ^ 31 then Inr (Int4 (word_of_int r)) else Inl Overflow)"
  by (simp_all add: checked_fits)

lemma smod_between: "min x 0 \<le> x smod y \<and> x smod y \<le> max x (0 :: int)"
proof -
  have "0 \<le> \<bar>x\<bar> mod \<bar>y\<bar> \<and> \<bar>x\<bar> mod \<bar>y\<bar> \<le> \<bar>x\<bar>"
    by (cases "y = 0") (simp_all add: zmod_le_nonneg_dividend)
  then show ?thesis by (auto simp: signed_modulo_int_def sgn_if abs_if split: if_splits)
qed

lemma sint_range: "- (2 ^ (LENGTH('a) - 1)) \<le> sint (x :: 'a::len word)" "sint (x :: 'a::len word) < 2 ^ (LENGTH('a) - 1)"
  using sint_greater_eq [of x] sint_less [of x] by simp_all

lemma rem_fits:
  "- (2 ^ (LENGTH('a) - 1)) \<le> sint (x :: 'a::len word) smod y" "sint x smod y < 2 ^ (LENGTH('a) - 1)"
  using smod_between [of "sint x" y] sint_range [of x] by auto

lemma sint_eq_0 [simp]: "sint (w :: 'a::len word) = 0 \<longleftrightarrow> w = 0"
  by (metis sint_0 signed_word_eqI)

lemma scast_eq_0 [simp]: "(scast (n :: i32) :: i64) = 0 \<longleftrightarrow> n = 0"
  by (metis sint_eq_0 sint_scast_i64)

lemma int_val_cases:
  assumes "int_val a = Some x"
  obtains n where "a = Int4 n" "x = sint n" | n where "a = Int8 n" "x = sint n"
  using assms by (cases a) auto

lemmas int_op_simps = ops_add_def ops_sub_def ops_mul_def ops_div_def ops_rem_def arith_def int_result_def
  checked_add_def checked_sub_def checked_mul_def checked_div_def wrapping_rem_def

text \<open>C30. Integer arithmetic is exact or fails. For integer operands, \<open>+\<close>, \<open>-\<close>, \<open>*\<close> and \<open>/\<close> give the
  mathematical result (the quotient truncated toward zero), in \<open>int4\<close> when both operands are \<open>int4\<close>
  and in \<open>int8\<close> otherwise; they report an overflow exactly when that type cannot hold it, and a
  division by zero exactly when the divisor is zero. A remainder never overflows.\<close>

theorem integer_arithmetic_exact:
  assumes "int_val a = Some x" and "int_val b = Some y"
  shows "ops_add L a b = Some (int_result a b (x + y)) \<and> ops_sub L a b = Some (int_result a b (x - y))
    \<and> ops_mul L a b = Some (int_result a b (x * y))
    \<and> ops_div L a b = Some (if y = 0 then Inl DivisionByZero else int_result a b (x sdiv y))
    \<and> ops_rem L a b = (if y = 0 then Inl DivisionByZero else int_result a b (x smod y))"
proof -
  have rem64: "- (2 ^ 63) \<le> sint (n :: i64) smod y" "sint n smod y < 2 ^ 63" for n y
    using rem_fits [of n y] by simp_all
  have rem32: "- (2 ^ 31) \<le> sint (n :: i32) smod y" "sint n smod y < 2 ^ 31" for n y
    using rem_fits [of n y] by simp_all
  have up: "- (2 ^ 63) \<le> sint (n :: i32) smod y" "sint n smod y < 2 ^ 63" for n y
    using rem32 [of n y] by simp_all
  note simps = int_op_simps i64_result i32_result
  from assms show ?thesis
    by (elim int_val_cases)
      (simp_all add: simps rem64 [simplified] rem32 [simplified] up [simplified])
qed

section \<open>Logic\<close>

lemma rbind_ext2:
  "(\<And>x y. f x y = g x y) \<Longrightarrow> rbind m (\<lambda>x. rbind n (\<lambda>y. Inr (f x y))) = rbind m (\<lambda>x. rbind n (\<lambda>y. Inr (g x y)))"
  by simp

text \<open>The truth values in Kleene's order: false, unknown, true.\<close>

definition truth :: "bool option \<Rightarrow> int" where
  "truth v = (case v of Some False \<Rightarrow> 0 | None \<Rightarrow> 1 | Some True \<Rightarrow> 2)"

text \<open>AND, OR and NOT are Kleene's three-valued logic: on boolean or NULL operands AND is the minimum
  and OR the maximum in the order false, unknown, true, NOT reverses that order, and any other operand
  is a type error.\<close>

theorem logic_is_kleene:
  "ops_and a b = rbind (as_bool a) (\<lambda>x. rbind (as_bool b) (\<lambda>y.
     Inr (if min (truth x) (truth y) = 0 then Bool False else if min (truth x) (truth y) = 2 then Bool True else Null)))
   \<and> ops_or a b = rbind (as_bool a) (\<lambda>x. rbind (as_bool b) (\<lambda>y.
     Inr (if max (truth x) (truth y) = 0 then Bool False else if max (truth x) (truth y) = 2 then Bool True else Null)))
   \<and> ops_not a = rbind (as_bool a) (\<lambda>x.
     Inr (if 2 - truth x = 0 then Bool False else if 2 - truth x = 2 then Bool True else Null))"
proof (intro conjI)
  have k_and: "(if x = Some False \<or> y = Some False then Bool False else if x = Some True \<and> y = Some True then Bool True else Null)
      = (if min (truth x) (truth y) = 0 then Bool False else if min (truth x) (truth y) = 2 then Bool True else Null)" for x y
    by (cases x; cases y) (auto simp: truth_def split: bool.split)
  have k_or: "(if x = Some True \<or> y = Some True then Bool True else if x = Some False \<and> y = Some False then Bool False else Null)
      = (if max (truth x) (truth y) = 0 then Bool False else if max (truth x) (truth y) = 2 then Bool True else Null)" for x y
    by (cases x; cases y) (auto simp: truth_def split: bool.split)
  show "ops_not a = rbind (as_bool a) (\<lambda>x.
      Inr (if 2 - truth x = 0 then Bool False else if 2 - truth x = 2 then Bool True else Null))"
    unfolding ops_not_def by (cases "as_bool a") (auto simp: truth_def split: option.split bool.split)
  show "ops_and a b = rbind (as_bool a) (\<lambda>x. rbind (as_bool b) (\<lambda>y.
      Inr (if min (truth x) (truth y) = 0 then Bool False else if min (truth x) (truth y) = 2 then Bool True else Null)))"
    unfolding ops_and_def by (rule rbind_ext2) (rule k_and)
  show "ops_or a b = rbind (as_bool a) (\<lambda>x. rbind (as_bool b) (\<lambda>y.
      Inr (if max (truth x) (truth y) = 0 then Bool False else if max (truth x) (truth y) = 2 then Bool True else Null)))"
    unfolding ops_or_def by (rule rbind_ext2) (rule k_or)
qed

section \<open>Comparison and grouping\<close>

text \<open>
  What comparison relies on of the libraries: the order of dates and times compares equal only equal
  values and is antisymmetric, and decimals compare by value.
\<close>

fun flip :: "cmp_ordering \<Rightarrow> cmp_ordering" where
  "flip OLess = OGreater"
| "flip OEqual = OEqual"
| "flip OGreater = OLess"

definition cmp_law :: "'j lib \<Rightarrow> bool" where
  "cmp_law L \<longleftrightarrow>
     (\<forall>a b. (l_cmp L a b = OEqual \<longleftrightarrow> a = b) \<and> l_cmp L b a = flip (l_cmp L a b))
     \<and> (\<forall>a b. bd_cmp L a b = cmp_of (mant a * 10 ^ nat (expo b - expo a)) (mant b * 10 ^ nat (expo a - expo b)))"

lemma zero_iff: "f64_is_zero f \<longleftrightarrow> f64_mag f = 0"
  by (simp add: f64_is_zero_def f64_mag_def)

lemma f64_eq_mag: "f64_mag x = f64_mag y \<Longrightarrow> f64_neg x = f64_neg y \<Longrightarrow> x = y"
proof -
  assume m: "f64_mag x = f64_mag y" "f64_neg x = f64_neg y"
  have u: "unat f = (if f64_neg f then 2 ^ 63 else 0) + f64_mag f" for f
    using unsigned_less [where 'a = nat and w = f] by (auto simp: f64_neg_def f64_mag_def le_mod_geq)
  have "unat x = unat y" unfolding u m by (rule refl)
  then show "x = y" by (simp only: word_unat_eq_iff)
qed

lemma rank_eq: "f64_rank x = f64_rank y \<longleftrightarrow> x = y \<or> f64_is_zero x \<and> f64_is_zero y"
  by (auto simp: f64_rank_def zero_iff intro: f64_eq_mag)

lemma column_type_of_iff:
  "column_type_of d = Some TBool \<longleftrightarrow> (\<exists>x. d = Bool x)"
  "column_type_of d = Some TInt4 \<longleftrightarrow> (\<exists>x. d = Int4 x)"
  "column_type_of d = Some TInt8 \<longleftrightarrow> (\<exists>x. d = Int8 x)"
  "column_type_of d = Some TText \<longleftrightarrow> (\<exists>x. d = Text x)"
  "column_type_of d = Some TFloat8 \<longleftrightarrow> (\<exists>x. d = Float8 x)"
  "column_type_of d = Some (TNumeric tm) \<longleftrightarrow> tm = None \<and> (\<exists>x. d = Numeric x)"
  "column_type_of d = Some TDate \<longleftrightarrow> (\<exists>x. d = Date x)"
  "column_type_of d = Some TTime \<longleftrightarrow> (\<exists>x. d = Time x)"
  "column_type_of d = Some TTimestamp \<longleftrightarrow> (\<exists>x. d = Timestamp x)"
  "column_type_of d = Some TTimestamptz \<longleftrightarrow> (\<exists>x. d = Timestamptz x)"
  "column_type_of d = Some TInterval \<longleftrightarrow> (\<exists>x. d = Interval x)"
  "column_type_of d = Some TBytea \<longleftrightarrow> (\<exists>x. d = Bytea x)"
  by (cases d; auto)+


section \<open>Sample libraries\<close>

text \<open>
  Functions with the documented behaviour of the library calls, for evaluating the model: exact
  decimal arithmetic, \<open>jiff\<close>'s ranges for spans, and dates as day numbers.
\<close>

definition align :: "bigdecimal \<Rightarrow> bigdecimal \<Rightarrow> int \<times> int \<times> int" where
  "align a b = (mant a * 10 ^ nat (expo b - expo a), mant b * 10 ^ nat (expo a - expo b), max (expo a) (expo b))"

definition round_half_up :: "bigdecimal \<Rightarrow> int \<Rightarrow> bigdecimal" where
  "round_half_up d n =
     (if expo d \<le> n then \<lparr> mant = mant d * 10 ^ nat (n - expo d), expo = n \<rparr>
      else (let p = 10 ^ nat (expo d - n)
            in \<lparr> mant = sgn (mant d) * ((2 * \<bar>mant d\<bar> + p) div (2 * p)), expo = n \<rparr>))"

definition plain_lib :: "int lib" where
  "plain_lib = \<lparr> l_ext = plain_ext, l_cmp = cmp_of,
     span_fits = (\<lambda>u n. \<bar>n\<bar> \<le> (case u of UMonths \<Rightarrow> 119976 | UDays \<Rightarrow> 7304484 | UMicros \<Rightarrow> 631107417600000000)),
     date_add = (\<lambda>d n. Some (d + sint n)),
     date_since = (\<lambda>a b. word_of_int (a - b)),
     dt_add = (\<lambda>u t n. Some (t + sint n * (case u of UMonths \<Rightarrow> 30 * USECS_PER_DAY | UDays \<Rightarrow> USECS_PER_DAY | UMicros \<Rightarrow> 1))),
     dt_since = (\<lambda>a b. word_of_int (a - b)),
     to_datetime = (\<lambda>d t. d * USECS_PER_DAY + t div 1000),
     midnight = 0,
     bd_add = (\<lambda>a b. let (x, y, e) = align a b in \<lparr> mant = x + y, expo = e \<rparr>),
     bd_sub = (\<lambda>a b. let (x, y, e) = align a b in \<lparr> mant = x - y, expo = e \<rparr>),
     bd_mul = (\<lambda>a b. \<lparr> mant = mant a * mant b, expo = expo a + expo b \<rparr>),
     bd_div = (\<lambda>a b. let (x, y, e) = align a b in \<lparr> mant = x * 10 ^ 100 div y, expo = 100 \<rparr>),
     bd_rem = (\<lambda>a b. let (x, y, e) = align a b in \<lparr> mant = x smod y, expo = e \<rparr>),
     bd_cmp = (\<lambda>a b. let (x, y, e) = align a b in cmp_of x y),
     bd_half_up = round_half_up,
     bd_to_i32 = (\<lambda>d. checked (mant d * 10 ^ nat (- expo d) sdiv 10 ^ nat (expo d))),
     bd_to_i64 = (\<lambda>d. checked (mant d * 10 ^ nat (- expo d) sdiv 10 ^ nat (expo d))),
     bd_to_f64 = (\<lambda>d. Some (f64_make (mant d < 0) (decimal_mag (nat \<bar>mant d\<bar>) (- expo d)))) \<rparr>"

theorem integer_arithmetic_exact_witness:
  "ops_add plain_lib (Int4 2147483647) (Int4 1) = Some (Inl Overflow)
   \<and> ops_mul plain_lib (Int4 2147483647) (Int8 2) = Some (Inr (Int8 4294967294))
   \<and> ops_div plain_lib (Int4 (- 2147483648)) (Int4 (- 1)) = Some (Inl Overflow)
   \<and> ops_rem plain_lib (Int4 7) (Int4 0) = Inl DivisionByZero"
  using integer_arithmetic_exact [of "Int4 2147483647" 2147483647 "Int4 1" 1 plain_lib]
    integer_arithmetic_exact [of "Int4 2147483647" 2147483647 "Int8 2" 2 plain_lib]
    integer_arithmetic_exact [of "Int4 (- 2147483648)" "- 2147483648" "Int4 (- 1)" "- 1" plain_lib]
    integer_arithmetic_exact [of "Int4 7" 7 "Int4 0" 0 plain_lib]
  by (simp add: int_result_def signed_divide_int_def)

lemma plain_cmp_law: "cmp_law plain_lib"
  by (auto simp: cmp_law_def plain_lib_def cmp_of_def align_def)


end
