(* ===== verification/Cast.thy ===== *)
theory Cast
  imports Ops
begin

text \<open>
  Text encodings of values and explicit casts: \<open>pgtypes/src/encoding.rs\<close>, \<open>pgtypes/src/cast.rs\<close> and
  the conversions of \<open>numeric.rs\<close> they use. The texts of dates and times and their parsers, and the
  shortest decimal text of a float, are the record \<open>texts\<close>.

  The theorems: a cast that succeeds gives NULL or a value of the target type, a cast fails as
  undefined exactly on the pairs the plan-time check rejects (with two exceptions, both about
  \<open>bytea\<close>), and an \<open>int4\<close> survives the trip through any wider numeric type.
\<close>

text \<open>
  \<^item> \<open>t_f64\<close>: \<open>Display\<close> of a finite \<open>f64\<close>; \<open>t_date\<close>, ..., \<open>t_interval\<close>: the \<open>*_to_text\<close> functions;
  \<^item> \<open>p_date\<close>, ..., \<open>p_interval\<close>: the \<open>parse_*\<close> functions, those of time zones with the session's zone;
  \<^item> \<open>dt_to_zoned\<close>: \<open>DateTime::to_zoned\<close>, then its timestamp; \<open>tz_datetime\<close>: \<open>TimeZone::to_datetime\<close>;
  \<^item> \<open>dt_date\<close>, \<open>dt_time\<close>: the parts of a datetime; \<open>j_display\<close>: \<open>Display\<close> of a date or datetime.
\<close>

record 'j texts =
  t_f64 :: "f64 \<Rightarrow> bytes"
  t_date :: "'j \<Rightarrow> bytes"
  t_time :: "'j \<Rightarrow> bytes"
  t_timestamp :: "'j \<Rightarrow> bytes"
  t_timestamptz :: "'j \<Rightarrow> string \<Rightarrow> bytes"
  t_interval :: "interval \<Rightarrow> bytes"
  p_date :: "bytes \<Rightarrow> type_error + 'j"
  p_time :: "bytes \<Rightarrow> type_error + 'j"
  p_timestamp :: "bytes \<Rightarrow> type_error + 'j"
  p_timestamptz :: "bytes \<Rightarrow> string \<Rightarrow> type_error + 'j"
  p_interval :: "bytes \<Rightarrow> type_error + interval"
  dt_to_zoned :: "'j \<Rightarrow> string \<Rightarrow> 'j option"
  tz_datetime :: "string \<Rightarrow> 'j \<Rightarrow> 'j"
  dt_date :: "'j \<Rightarrow> 'j"
  dt_time :: "'j \<Rightarrow> 'j"
  j_display :: "'j \<Rightarrow> string"

section \<open>Text encoding\<close>

definition hex_digit :: "byte \<Rightarrow> byte" where
  "hex_digit n = (if n < 10 then 0x30 + n else 0x57 + n)"

definition encode_float8_text :: "'j texts \<Rightarrow> f64 \<Rightarrow> bytes" where
  "encode_float8_text T f =
     (if f64_is_nan f then ascii ''NaN''
      else if f64_is_infinite f then (if \<not> f64_neg f then ascii ''Infinity'' else ascii ''-Infinity'')
      else t_f64 T f)"

fun encode_text :: "'j texts \<Rightarrow> string \<Rightarrow> 'j datum \<Rightarrow> bytes option" where
  "encode_text T tz Null = None"
| "encode_text T tz (Bool b) = Some (if b then ascii ''t'' else ascii ''f'')"
| "encode_text T tz (Int4 n) = Some (ascii (dec_int (sint n)))"
| "encode_text T tz (Int8 n) = Some (ascii (dec_int (sint n)))"
| "encode_text T tz (Text s) = Some s"
| "encode_text T tz (Float8 f) = Some (encode_float8_text T f)"
| "encode_text T tz (Numeric d) = Some (to_text d)"
| "encode_text T tz (Date d) = Some (t_date T d)"
| "encode_text T tz (Time t) = Some (t_time T t)"
| "encode_text T tz (Timestamp ts) = Some (t_timestamp T ts)"
| "encode_text T tz (Timestamptz ts) = Some (t_timestamptz T ts tz)"
| "encode_text T tz (Interval i) = Some (t_interval T i)"
| "encode_text T tz (Bytea b) =
     Some ([0x5C, 0x78] @ concat (map (\<lambda>c. [hex_digit (drop_bit 4 c), hex_digit (c mod 16)]) b))"

definition text_of :: "'j texts \<Rightarrow> string \<Rightarrow> 'j datum \<Rightarrow> bytes option" where
  "text_of T tz d = (case encode_text T tz d of Some t \<Rightarrow> if utf8_ok t then Some t else None | None \<Rightarrow> None)"

definition ops_concat :: "'j texts \<Rightarrow> string \<Rightarrow> 'j datum \<Rightarrow> 'j datum \<Rightarrow> 'j datum pres" where
  "ops_concat T tz a b =
     (if is_null a \<or> is_null b then Some (Inr Null)
      else (case (text_of T tz a, text_of T tz b) of
              (Some s, Some t) \<Rightarrow> Some (Inr (Text (s @ t)))
            | _ \<Rightarrow> None))"

section \<open>Conversions\<close>

definition num_to_i32 :: "'j lib \<Rightarrow> bigdecimal \<Rightarrow> type_error + i32" where
  "num_to_i32 L bd = ok_or Overflow (bd_to_i32 L (bd_half_up L bd 0))"

definition num_to_i64 :: "'j lib \<Rightarrow> bigdecimal \<Rightarrow> type_error + i64" where
  "num_to_i64 L bd = ok_or Overflow (bd_to_i64 L (bd_half_up L bd 0))"

definition num_from_f64 :: "'j lib \<Rightarrow> 'j texts \<Rightarrow> f64 \<Rightarrow> type_error + bigdecimal" where
  "num_from_f64 L T f =
     (if \<not> f64_is_finite f then Inl Overflow else ok_or Overflow (parse (l_ext L) (t_f64 T f)))"

definition apply_typmod :: "'j lib \<Rightarrow> bigdecimal \<Rightarrow> typmod \<Rightarrow> type_error + bigdecimal" where
  "apply_typmod L bd tm =
     (let r = bd_half_up L bd (int (unat (scale tm)));
          int_digits = int (length (dec_bytes (nat \<bar>mant r\<bar>))) - expo r
      in if \<not> num_is_zero r \<and> int_digits > int (unat (precision tm)) - int (unat (scale tm))
         then Inl Overflow
         else Inr (canonical (l_ext L) r))"

definition cast_to_numeric :: "'j lib \<Rightarrow> bigdecimal \<Rightarrow> typmod option \<Rightarrow> type_error + 'j datum" where
  "cast_to_numeric L d tm =
     (case tm of
        Some tm \<Rightarrow> rmap Numeric (apply_typmod L d tm)
      | None \<Rightarrow> Inr (Numeric (canonical (l_ext L) d)))"

definition i4_from_i64 :: "i64 \<Rightarrow> type_error + 'j datum" where
  "i4_from_i64 n = rmap Int4 (try_i32 (sint n))"

definition i4_from_f64 :: "f64 \<Rightarrow> type_error + 'j datum" where
  "i4_from_f64 f =
     (let r = f64_round_ties_even f
      in if f64_is_finite r \<and> f64_le (f64_of_int (- (2 ^ 31))) r \<and> f64_le r (f64_of_int (2 ^ 31 - 1))
         then Inr (Int4 (word_of_int (f64_as_int 32 r)))
         else Inl Overflow)"

definition i8_from_f64 :: "f64 \<Rightarrow> type_error + 'j datum" where
  "i8_from_f64 f =
     (let r = f64_round_ties_even f
      in if f64_is_finite r \<and> f64_le (f64_of_int (- (2 ^ 63))) r \<and> f64_le r (f64_of_int (2 ^ 63 - 1))
         then Inr (Int8 (word_of_int (f64_as_int 64 r)))
         else Inl Overflow)"

definition text_to_bool :: "bytes \<Rightarrow> type_error + 'j datum" where
  "text_to_bool s =
     (let t = lower_bytes (trim s);
          starts = (\<lambda>w. t \<noteq> [] \<and> prefix t (ascii w))
      in if starts ''true'' then Inr (Bool True)
         else if starts ''false'' then Inr (Bool False)
         else if starts ''yes'' then Inr (Bool True)
         else if starts ''no'' then Inr (Bool False)
         else if starts ''on'' then Inr (Bool True)
         else if starts ''off'' then Inr (Bool False)
         else if t = ascii ''1'' then Inr (Bool True)
         else if t = ascii ''0'' then Inr (Bool False)
         else Inl (InvalidText ''boolean'' (chars_of s)))"

definition require_int_syntax :: "bytes \<Rightarrow> string \<Rightarrow> type_error + unit" where
  "require_int_syntax s ty =
     (let digits = snd (strip_sign (trim s))
      in if digits \<noteq> [] \<and> list_all is_digit digits then Inr () else Inl (InvalidText ty (chars_of s)))"

definition text_to_i32 :: "bytes \<Rightarrow> type_error + 'j datum" where
  "text_to_i32 s =
     rbind (require_int_syntax s ''integer'') (\<lambda>_. rmap Int4 (ok_or Overflow (parse_int (trim s))))"

definition text_to_i64 :: "bytes \<Rightarrow> type_error + 'j datum" where
  "text_to_i64 s =
     rbind (require_int_syntax s ''bigint'') (\<lambda>_. rmap Int8 (ok_or Overflow (parse_int (trim s))))"

definition is_infinity_spelling :: "bytes \<Rightarrow> bool" where
  "is_infinity_spelling t \<longleftrightarrow>
     (let body = lower_bytes (snd (strip_sign t)) in body = ascii ''inf'' \<or> body = ascii ''infinity'')"

definition text_to_f64 :: "bytes \<Rightarrow> type_error + 'j datum" where
  "text_to_f64 s =
     (let t = trim s
      in case f64_parse t of
           Some v \<Rightarrow> if f64_is_infinite v \<and> \<not> is_infinity_spelling t then Inl Overflow else Inr (Float8 v)
         | None \<Rightarrow> Inl (InvalidText ''double precision'' (chars_of s)))"

definition cannot_cast :: "'j datum \<Rightarrow> column_type \<Rightarrow> type_error" where
  "cannot_cast v to = CannotCast (d_type_name v) (type_name to)"

section \<open>Casts\<close>

fun num_family :: "column_type \<Rightarrow> bool" where
  "num_family TInt4 = True"
| "num_family TInt8 = True"
| "num_family TFloat8 = True"
| "num_family t = is_numeric t"

definition cast_allowed :: "column_type \<Rightarrow> column_type \<Rightarrow> bool" where
  "cast_allowed from to \<longleftrightarrow>
     from = to
     \<or> is_numeric from \<and> is_numeric to
     \<or> num_family from \<and> num_family to
     \<or> (from, to) \<in> {(TBool, TInt4), (TInt4, TBool)}
     \<or> to = TText \<or> from = TText
     \<or> (from, to) \<in> {(TDate, TTimestamp), (TDate, TTimestamptz), (TTimestamp, TDate), (TTimestamp, TTime),
          (TTimestamp, TTimestamptz), (TTimestamptz, TDate), (TTimestamptz, TTime), (TTimestamptz, TTimestamp)}"

text \<open>The casts by the type of the value, \<open>to\<close> the target and \<open>tz\<close> the session's zone.\<close>

definition cast_int :: "'j lib \<Rightarrow> 'j datum \<Rightarrow> int \<Rightarrow> column_type \<Rightarrow> type_error + 'j datum" where
  "cast_int L v n to =
     (case to of
        TInt8 \<Rightarrow> Inr (Int8 (word_of_int n))
      | TFloat8 \<Rightarrow> Inr (Float8 (f64_of_int n))
      | TNumeric tm \<Rightarrow> cast_to_numeric L (num_of_int n) tm
      | _ \<Rightarrow> Inl (cannot_cast v to))"

definition cast_text :: "'j lib \<Rightarrow> 'j texts \<Rightarrow> string \<Rightarrow> bytes \<Rightarrow> column_type \<Rightarrow> type_error + 'j datum" where
  "cast_text L T tz s to =
     (case to of
        TText \<Rightarrow> Inr (Text s)
      | TBool \<Rightarrow> text_to_bool s
      | TInt4 \<Rightarrow> text_to_i32 s
      | TInt8 \<Rightarrow> text_to_i64 s
      | TFloat8 \<Rightarrow> text_to_f64 s
      | TNumeric tm \<Rightarrow> rbind (ok_or (InvalidText ''numeric'' (chars_of s)) (parse (l_ext L) s)) (\<lambda>d. cast_to_numeric L d tm)
      | TDate \<Rightarrow> rmap Date (p_date T s)
      | TTime \<Rightarrow> rmap Time (p_time T s)
      | TTimestamp \<Rightarrow> rmap Timestamp (p_timestamp T s)
      | TTimestamptz \<Rightarrow> rmap Timestamptz (p_timestamptz T s tz)
      | TInterval \<Rightarrow> rmap Interval (p_interval T s)
      | TBytea \<Rightarrow> Inl (cannot_cast (Text s :: 'j datum) to))"

definition cast_temporal :: "'j lib \<Rightarrow> 'j texts \<Rightarrow> string \<Rightarrow> 'j datum \<Rightarrow> column_type \<Rightarrow> type_error + 'j datum" where
  "cast_temporal L T tz v to =
     (case (v, to) of
        (Date d, TDate) \<Rightarrow> Inr v
      | (Time t, TTime) \<Rightarrow> Inr v
      | (Timestamp dt, TTimestamp) \<Rightarrow> Inr v
      | (Timestamptz ts, TTimestamptz) \<Rightarrow> Inr v
      | (Interval i, TInterval) \<Rightarrow> Inr v
      | (Date d, TTimestamp) \<Rightarrow> Inr (Timestamp (date_to_midnight L d))
      | (Date d, TTimestamptz) \<Rightarrow>
          rmap Timestamptz (ok_or (DatetimeFieldOverflow (j_display T d)) (dt_to_zoned T (date_to_midnight L d) tz))
      | (Timestamp dt, TDate) \<Rightarrow> Inr (Date (dt_date T dt))
      | (Timestamp dt, TTime) \<Rightarrow> Inr (Time (dt_time T dt))
      | (Timestamp dt, TTimestamptz) \<Rightarrow>
          rmap Timestamptz (ok_or (DatetimeFieldOverflow (j_display T dt)) (dt_to_zoned T dt tz))
      | (Timestamptz ts, TTimestamp) \<Rightarrow> Inr (Timestamp (tz_datetime T tz ts))
      | (Timestamptz ts, TDate) \<Rightarrow> Inr (Date (dt_date T (tz_datetime T tz ts)))
      | (Timestamptz ts, TTime) \<Rightarrow> Inr (Time (dt_time T (tz_datetime T tz ts)))
      | _ \<Rightarrow> Inl (cannot_cast v to))"

definition cast :: "'j lib \<Rightarrow> 'j texts \<Rightarrow> string \<Rightarrow> 'j datum \<Rightarrow> column_type \<Rightarrow> 'j datum pres" where
  "cast L T tz value to =
     (if is_null value then Some (Inr Null)
      else case value of
        Text s \<Rightarrow> Some (cast_text L T tz s to)
      | Bool b \<Rightarrow>
          Some (case to of
                  TBool \<Rightarrow> Inr value
                | TInt4 \<Rightarrow> Inr (Int4 (if b then 1 else 0))
                | TText \<Rightarrow> Inr (Text (if b then ascii ''true'' else ascii ''false''))
                | _ \<Rightarrow> Inl (cannot_cast value to))
      | _ \<Rightarrow>
          if to = TText then map_option (\<lambda>t. Inr (Text t)) (text_of T tz value)
          else Some
            (case value of
               Int4 n \<Rightarrow> (case to of TInt4 \<Rightarrow> Inr value | TBool \<Rightarrow> Inr (Bool (n \<noteq> 0)) | _ \<Rightarrow> cast_int L value (sint n) to)
             | Int8 n \<Rightarrow> (case to of TInt4 \<Rightarrow> i4_from_i64 n | _ \<Rightarrow> cast_int L value (sint n) to)
             | Float8 f \<Rightarrow>
                 (case to of
                    TFloat8 \<Rightarrow> Inr value
                  | TInt4 \<Rightarrow> i4_from_f64 f
                  | TInt8 \<Rightarrow> i8_from_f64 f
                  | TNumeric tm \<Rightarrow> rbind (num_from_f64 L T f) (\<lambda>d. cast_to_numeric L d tm)
                  | _ \<Rightarrow> Inl (cannot_cast value to))
             | Numeric d \<Rightarrow>
                 (case to of
                    TNumeric tm \<Rightarrow> cast_to_numeric L d tm
                  | TInt4 \<Rightarrow> rmap Int4 (num_to_i32 L d)
                  | TInt8 \<Rightarrow> rmap Int8 (num_to_i64 L d)
                  | TFloat8 \<Rightarrow> Inr (Float8 (num_to_f64 L d))
                  | _ \<Rightarrow> Inl (cannot_cast value to))
             | _ \<Rightarrow> cast_temporal L T tz value to))"

section \<open>Types of results\<close>

text \<open>A value of a column type: NULL, or a value whose own type is that one up to the type modifier.\<close>

definition same_type :: "column_type \<Rightarrow> column_type \<Rightarrow> bool" where
  "same_type s t \<longleftrightarrow> s = t \<or> is_numeric s \<and> is_numeric t"

definition has_type :: "'j datum \<Rightarrow> column_type \<Rightarrow> bool" where
  "has_type d t \<longleftrightarrow> (case column_type_of d of None \<Rightarrow> True | Some s \<Rightarrow> same_type s t)"

lemma same_type_refl [simp]: "same_type t t"
  and same_type_sym: "same_type s t \<Longrightarrow> same_type t s"
  and same_type_trans: "same_type s t \<Longrightarrow> same_type t u \<Longrightarrow> same_type s u"
  by (auto simp: same_type_def)

lemma has_type_trans: "has_type d s \<Longrightarrow> same_type s t \<Longrightarrow> has_type d t"
  by (auto simp: has_type_def same_type_trans split: option.splits)

lemma has_type_simps [simp]:
  "has_type Null t"
  "has_type (Bool b) TBool" "has_type (Int4 i) TInt4" "has_type (Int8 l) TInt8" "has_type (Text s) TText"
  "has_type (Float8 f) TFloat8" "has_type (Numeric n) (TNumeric tm)" "has_type (Date j) TDate" "has_type (Time j) TTime"
  "has_type (Timestamp j) TTimestamp" "has_type (Timestamptz j) TTimestamptz" "has_type (Interval iv) TInterval"
  "has_type (Bytea s) TBytea"
  by (simp_all add: has_type_def same_type_def)

text \<open>The same for a value that is not NULL.\<close>

definition typed :: "'j datum \<Rightarrow> column_type \<Rightarrow> bool" where
  "typed d t \<longleftrightarrow> \<not> is_null d \<and> has_type d t"

lemma typed_simps [simp]:
  "\<not> typed Null t"
  "typed (Bool b) TBool" "typed (Int4 i) TInt4" "typed (Int8 l) TInt8" "typed (Text s) TText"
  "typed (Float8 f) TFloat8" "typed (Numeric n) (TNumeric tm)" "typed (Date j) TDate" "typed (Time j) TTime"
  "typed (Timestamp j) TTimestamp" "typed (Timestamptz j) TTimestamptz" "typed (Interval iv) TInterval"
  "typed (Bytea s) TBytea"
  by (simp_all add: typed_def)

lemma cast_to_numeric_type: "cast_to_numeric L d tm = Inr v \<Longrightarrow> typed v (TNumeric tm)"
  by (auto simp: cast_to_numeric_def rmap_eq_Inr split: option.splits)

lemma float_int_type: "i4_from_f64 f = Inr v \<Longrightarrow> typed v TInt4" "i8_from_f64 f = Inr v \<Longrightarrow> typed v TInt8"
  by (auto simp: i4_from_f64_def i8_from_f64_def Let_def split: if_splits)

lemma cast_text_type: "cast_text L T tz s to = Inr v \<Longrightarrow> typed v to"
  by (cases to)
    (auto simp: cast_text_def text_to_bool_def text_to_i32_def text_to_i64_def text_to_f64_def Let_def rmap_eq_Inr
      dest: cast_to_numeric_type split: if_splits option.splits)

lemma cast_int_type: "cast_int L w n to = Inr v \<Longrightarrow> typed v to"
  by (cases to) (auto simp: cast_int_def dest: cast_to_numeric_type)

lemma cast_temporal_type: "cast_temporal L T tz w to = Inr v \<Longrightarrow> typed v to"
  by (cases w; cases to) (auto simp: cast_temporal_def rmap_eq_Inr)

lemma cast_typed: "cast L T tz w to = Some (Inr v) \<Longrightarrow> \<not> is_null w \<Longrightarrow> typed v to"
  by (cases w; cases to)
    (auto simp: cast_def rmap_eq_Inr i4_from_i64_def
      dest: cast_to_numeric_type cast_text_type cast_int_type cast_temporal_type float_int_type)

lemma cast_null: "is_null w \<Longrightarrow> cast L T tz w to = Some (Inr Null)"
  by (simp add: cast_def)

lemma cast_has_type: "cast L T tz w to = Some (Inr v) \<Longrightarrow> has_type v to"
  using cast_typed [of L T tz w to v] by (cases "is_null w") (auto simp: cast_null typed_def)

text \<open>A cast that succeeds gives NULL for NULL, and otherwise a value of the target type (up to the
  precision and scale of a \<open>numeric\<close>).\<close>

theorem cast_type:
  assumes "cast L T tz v to = Some (Inr d)"
  shows "has_type d to \<and> (is_null d \<longleftrightarrow> is_null v)"
  using assms cast_typed [of L T tz v to d] cast_has_type [of L T tz v to d]
  by (cases "is_null v") (auto simp: cast_null typed_def)

section \<open>The plan-time check\<close>

text \<open>The parsers of the library fail with errors about their input, never with "cannot cast".\<close>

fun is_cannot_cast :: "type_error \<Rightarrow> bool" where
  "is_cannot_cast (CannotCast _ _) = True"
| "is_cannot_cast _ = False"

definition parsers_law :: "'j texts \<Rightarrow> bool" where
  "parsers_law T \<longleftrightarrow>
     (\<forall>s e. p_date T s = Inl e \<or> p_time T s = Inl e \<or> p_timestamp T s = Inl e \<or> p_interval T s = Inl e
        \<or> (\<exists>tz. p_timestamptz T s tz = Inl e) \<longrightarrow> \<not> is_cannot_cast e)"

definition undefined_cast :: "'j datum pres \<Rightarrow> bool" where
  "undefined_cast r \<longleftrightarrow> (case r of Some (Inl e) \<Rightarrow> is_cannot_cast e | _ \<Rightarrow> False)"

lemma undefined_cast_simps [simp]:
  "\<not> undefined_cast None" "\<not> undefined_cast (Some (Inr d))" "undefined_cast (Some (Inl e)) = is_cannot_cast e"
  by (simp_all add: undefined_cast_def)

lemma undefined_rmap [simp]: "undefined_cast (Some (rmap g m)) = (\<exists>e. m = Inl e \<and> is_cannot_cast e)"
  by (cases m) auto

lemma undefined_map_option [simp]: "\<not> undefined_cast (map_option (\<lambda>t. Inr (g t)) m)"
  by (cases m) auto

lemma ok_or_Inl [simp]: "ok_or e m = Inl e' \<longleftrightarrow> m = None \<and> e' = e"
  by (cases m) auto

lemma cannot_cast_is [simp]: "is_cannot_cast (cannot_cast v to)"
  by (simp add: cannot_cast_def)

lemma undefined_numeric [simp]: "\<not> undefined_cast (Some (cast_to_numeric L d tm))"
  by (auto simp: cast_to_numeric_def apply_typmod_def Let_def split: option.splits if_splits)

lemma undefined_text:
  assumes "parsers_law T"
  shows "undefined_cast (Some (cast_text L T tz s to)) \<longleftrightarrow> to = TBytea"
proof (cases to)
  case (TNumeric tm)
  then show ?thesis by (cases "parse (l_ext L) s") (simp_all add: cast_text_def)
qed (use assms in \<open>auto simp: cast_text_def parsers_law_def text_to_bool_def text_to_i32_def text_to_i64_def
      text_to_f64_def require_int_syntax_def Let_def split: if_splits option.splits\<close>)

lemma undefined_int:
  "undefined_cast (Some (cast_int L v n to)) \<longleftrightarrow> \<not> (to = TInt8 \<or> to = TFloat8 \<or> is_numeric to)"
  by (cases to) (auto simp: cast_int_def)

lemma undefined_temporal:
  "d_is_temporal v \<Longrightarrow> to \<noteq> TText \<Longrightarrow> column_type_of v = Some from \<Longrightarrow>
   undefined_cast (Some (cast_temporal L T tz v to)) \<longleftrightarrow> \<not> cast_allowed from to"
  by (cases v; cases to) (auto simp: cast_temporal_def cast_allowed_def)

lemma undefined_float:
  "\<not> undefined_cast (Some (i4_from_f64 f))" "\<not> undefined_cast (Some (i8_from_f64 f))"
  "\<not> undefined_cast (Some (rbind (num_from_f64 L T f) (\<lambda>d. cast_to_numeric L d tm)))"
proof -
  show "\<not> undefined_cast (Some (rbind (num_from_f64 L T f) (\<lambda>d. cast_to_numeric L d tm)))"
    by (cases "num_from_f64 L T f") (auto simp: num_from_f64_def split: if_splits)
qed (auto simp: i4_from_f64_def i8_from_f64_def Let_def)

lemma undefined_try_i32: "\<not> undefined_cast (Some (i4_from_i64 n))"
  by (auto simp: i4_from_i64_def try_i32_def)

text \<open>C32. The plan-time check \<open>cast_allowed\<close> agrees with the casts: for a value that is not NULL, a cast
  is undefined exactly when the check rejects the pair of types, except that the check lets through
  \<open>text\<close> to \<open>bytea\<close> and \<open>bytea\<close> to \<open>bytea\<close>, which the casts do not define.\<close>

theorem cast_allowed_exact:
  assumes "parsers_law T" and "column_type_of v = Some from"
  shows "undefined_cast (cast L T tz v to) \<longleftrightarrow> \<not> cast_allowed from to \<or> to = TBytea \<and> from \<in> {TText, TBytea}"
proof (cases "d_is_temporal v")
  case True
  show ?thesis
  proof (cases "to = TText")
    case True
    with \<open>d_is_temporal v\<close> assms(2) show ?thesis by (cases v) (auto simp: cast_def cast_allowed_def)
  next
    case False
    have "cast L T tz v to = Some (cast_temporal L T tz v to)"
      using True False by (cases v) (auto simp: cast_def)
    with undefined_temporal [OF True False assms(2)] assms(2) True show ?thesis by (cases v) auto
  qed
next
  case False
  with assms show ?thesis
    by (cases v; cases to)
      (auto simp: cast_def undefined_text undefined_int undefined_float undefined_try_i32 cast_allowed_def
        cast_temporal_def num_to_i32_def num_to_i64_def)
qed

section \<open>Floats and integers\<close>

lemma between_units:
  "f64_is_finite f \<Longrightarrow> f64_is_finite g \<Longrightarrow> f64_units g = n * int ONE_UNITS \<Longrightarrow>
   (f64_le (f64_round_ties_even f) g \<longleftrightarrow> nearest_int f \<le> n) \<and> (f64_le g (f64_round_ties_even f) \<longleftrightarrow> n \<le> nearest_int f)"
  by (simp add: f64_le_units round_ties_even_exact units_round_ties_even)

lemma round_not_finite: "\<not> f64_is_finite f \<Longrightarrow> \<not> f64_is_finite (f64_round_ties_even f)"
  by (simp add: f64_round_ties_even_def)

lemma as_int_round:
  "f64_is_finite f \<Longrightarrow>
   f64_as_int w (f64_round_ties_even f) = max (- (2 ^ (w - 1))) (min (2 ^ (w - 1) - 1) (nearest_int f))"
  by (simp add: f64_as_int_def finite_not_nan round_ties_even_exact trunc_round_ties_even)

lemma i4_from_f64_eq:
  "i4_from_f64 f =
     (if f64_is_finite f \<and> - (2 ^ 31) \<le> nearest_int f \<and> nearest_int f < 2 ^ 31
      then Inr (Int4 (word_of_int (nearest_int f))) else Inl Overflow)"
proof (cases "f64_is_finite f")
  case True
  have lim: "f64_is_finite (f64_of_int n)" "f64_units (f64_of_int n) = n * int ONE_UNITS" if "\<bar>n\<bar> < 2 ^ 53" for n
    using that by (simp_all add: f64_of_int_exact units_of_int)
  have "f64_le (f64_of_int (- (2 ^ 31))) (f64_round_ties_even f) \<longleftrightarrow> - (2 ^ 31) \<le> nearest_int f"
    "f64_le (f64_round_ties_even f) (f64_of_int (2 ^ 31 - 1)) \<longleftrightarrow> nearest_int f \<le> 2 ^ 31 - 1"
    using between_units [OF True lim] by simp_all
  with True show ?thesis
    by (simp add: i4_from_f64_def Let_def round_ties_even_exact as_int_round)
next
  case False
  then show ?thesis by (simp add: i4_from_f64_def Let_def round_not_finite)
qed

lemma i8_from_f64_eq:
  "i8_from_f64 f =
     (if f64_is_finite f \<and> - (2 ^ 63) \<le> nearest_int f \<and> nearest_int f \<le> 2 ^ 63
      then Inr (Int8 (word_of_int (min (nearest_int f) (2 ^ 63 - 1)))) else Inl Overflow)"
proof (cases "f64_is_finite f")
  case True
  have "f64_le (f64_of_int (- (2 ^ 63))) (f64_round_ties_even f) \<longleftrightarrow> - (2 ^ 63) \<le> nearest_int f"
    "f64_le (f64_round_ties_even f) (f64_of_int (2 ^ 63 - 1)) \<longleftrightarrow> nearest_int f \<le> 2 ^ 63"
    using between_units [OF True units_i64_limits(1,2)] between_units [OF True units_i64_limits(3,4)] by blast+
  with True show ?thesis
    by (simp add: i8_from_f64_def Let_def round_ties_even_exact as_int_round min.commute)
next
  case False
  then show ?thesis by (simp add: i8_from_f64_def Let_def round_not_finite)
qed

text \<open>C33. Casting a \<open>float8\<close> to an integer type. To \<open>int4\<close>: the nearest integer, ties to even, and an
  overflow exactly when that is out of range or the value is not finite. To \<open>int8\<close> the same, with one
  exception: a value that rounds to \<open>2 ^ 63\<close>, one above the range, passes the check and becomes
  \<open>2 ^ 63 - 1\<close>.\<close>

theorem float_to_int_exact:
  "cast L T tz (Float8 f) TInt4 =
     Some (if f64_is_finite f \<and> - (2 ^ 31) \<le> nearest_int f \<and> nearest_int f < 2 ^ 31
           then Inr (Int4 (word_of_int (nearest_int f))) else Inl Overflow)
   \<and> cast L T tz (Float8 f) TInt8 =
     Some (if f64_is_finite f \<and> nearest_int f = 2 ^ 63 then Inr (Int8 (2 ^ 63 - 1))
           else if f64_is_finite f \<and> - (2 ^ 63) \<le> nearest_int f \<and> nearest_int f < 2 ^ 63
           then Inr (Int8 (word_of_int (nearest_int f))) else Inl Overflow)"
proof
  show "cast L T tz (Float8 f) TInt4 =
     Some (if f64_is_finite f \<and> - (2 ^ 31) \<le> nearest_int f \<and> nearest_int f < 2 ^ 31
           then Inr (Int4 (word_of_int (nearest_int f))) else Inl Overflow)"
    by (simp add: cast_def i4_from_f64_eq)
  show "cast L T tz (Float8 f) TInt8 =
     Some (if f64_is_finite f \<and> nearest_int f = 2 ^ 63 then Inr (Int8 (2 ^ 63 - 1))
           else if f64_is_finite f \<and> - (2 ^ 63) \<le> nearest_int f \<and> nearest_int f < 2 ^ 63
           then Inr (Int8 (word_of_int (nearest_int f))) else Inl Overflow)"
    by (simp add: cast_def i8_from_f64_eq min_def)
qed

lemma nearest_int_of_int: "\<bar>n\<bar> < 2 ^ 53 \<Longrightarrow> nearest_int (f64_of_int n) = n"
  using trunc_round_ties_even [of "f64_of_int n"] by (simp add: f64_round_of_int f64_trunc_of_int f64_of_int_exact)

text \<open>The text of an integer, and reading it back.\<close>

definition int_text :: "int \<Rightarrow> bytes" where
  "int_text i = (if i < 0 then [0x2D] else []) @ dec_bytes (nat \<bar>i\<bar>)"

lemma ascii_dec_int: "ascii (dec_int i) = int_text i"
  by (simp add: dec_int_def int_text_def dec_bytes_def ascii_simps)

lemma digit_not_sign: "is_digit b \<Longrightarrow> b \<noteq> 0x2D \<and> b \<noteq> 0x2B"
  by (auto simp: is_digit_def)

lemma strip_sign_int_text: "strip_sign (int_text i) = (i < 0, dec_bytes (nat \<bar>i\<bar>))"
proof -
  have "list_all is_digit (dec_bytes n)" "dec_bytes n \<noteq> []" for n using dec_bytes_props by auto
  then obtain b r where "dec_bytes (nat \<bar>i\<bar>) = b # r" "is_digit b"
    by (metis list.pred_inject(2) neq_Nil_conv)
  then show ?thesis using digit_not_sign by (auto simp: int_text_def)
qed

lemma trim_int_text: "trim (int_text i) = int_text i"
proof (rule trim_solid)
  have d: "list_all is_digit (dec_bytes n)" "dec_bytes n \<noteq> []" for n using dec_bytes_props by auto
  have "is_digit (hd (dec_bytes n))" "is_digit (last (dec_bytes n))" for n
    using d [of n] by (auto simp: list_all_iff)
  moreover have "solid 0x2D" by (simp add: solid_def whitespace_def)
  ultimately show "solid (hd (int_text i))" "solid (last (int_text i))"
    using d [of "nat \<bar>i\<bar>"] digit_solid by (auto simp: int_text_def)
  show "int_text i \<noteq> []" using d by (simp add: int_text_def)
qed

lemma utf8_int_text: "utf8_ok (int_text i)"
proof (rule utf8_all_ascii)
  have "list_all is_digit (dec_bytes n)" for n using dec_bytes_props by auto
  moreover have "b < 0x80" if "is_digit b" for b using that by (simp add: is_digit_unat word_less_nat_alt)
  ultimately show "list_all (\<lambda>b. b < 0x80) (int_text i)"
    unfolding list_all_iff by (auto simp: int_text_def)
qed

lemma text_to_i32_int_text: "text_to_i32 (int_text i) = rmap Int4 (ok_or Overflow (checked i))"
proof -
  have d: "list_all is_digit (dec_bytes n)" "dec_bytes n \<noteq> []" for n using dec_bytes_props by auto
  have "(if i < 0 then -1 else 1) * int (nat \<bar>i\<bar>) = i" by simp
  with d show ?thesis
    by (simp add: text_to_i32_def require_int_syntax_def trim_int_text strip_sign_int_text parse_int_def Let_def)
qed

lemma checked_sint [simp]: "checked (sint (n :: 'a::len word)) = Some n"
  by (simp add: checked_def)

text \<open>An \<open>int4\<close> survives the trip through every wider type: casting it to \<open>int8\<close>, \<open>float8\<close>, \<open>numeric\<close> or
  \<open>text\<close> and back gives the same value. For \<open>numeric\<close> this relies on an integral decimal rounding and
  converting to itself.\<close>

theorem int4_roundtrip:
  assumes "\<forall>m. bd_half_up L (num_of_int m) 0 = num_of_int m" and "\<forall>m. bd_to_i32 L (num_of_int m) = checked m"
    and "t \<in> {TInt8, TFloat8, TNumeric None, TText}"
  shows "\<exists>w. cast L T tz (Int4 n) t = Some (Inr w) \<and> cast L T tz w TInt4 = Some (Inr (Int4 n))"
proof -
  have r: "- (2 ^ 31) \<le> sint n" "sint n < 2 ^ 31" using sint_range [of n] by simp_all
  then have small: "\<bar>sint n\<bar> < 2 ^ 53" by simp
  from assms(3) consider "t = TInt8" | "t = TFloat8" | "t = TNumeric None" | "t = TText" by blast
  then show ?thesis
  proof cases
    case 1
    have "sint (word_of_int (sint n) :: i64) = sint n" using r by (simp add: sint_fits)
    with 1 show ?thesis by (simp add: cast_def cast_int_def i4_from_i64_def try_i32_def)
  next
    case 2
    with r small show ?thesis
      by (simp add: cast_def cast_int_def i4_from_f64_eq nearest_int_of_int f64_of_int_exact)
  next
    case 3
    with assms(1,2) show ?thesis
      by (simp add: cast_def cast_int_def cast_to_numeric_def canonical_def num_of_int_def num_to_i32_def)
  next
    case 4
    then show ?thesis
      by (simp add: cast_def text_of_def ascii_dec_int utf8_int_text cast_text_def text_to_i32_int_text)
  qed
qed

section \<open>Sample texts\<close>

text \<open>Texts and parsers for evaluating the model: a date or time is the decimal text of its number.\<close>

definition plain_parse :: "bytes \<Rightarrow> type_error + int" where
  "plain_parse s = ok_or (InvalidDatetimeFormat ''date'' (chars_of s)) (map_option sint (parse_int s :: i64 option))"

definition plain_texts :: "int texts" where
  "plain_texts = \<lparr> t_f64 = (\<lambda>f. int_text (f64_trunc f)), t_date = int_text, t_time = int_text, t_timestamp = int_text,
     t_timestamptz = (\<lambda>t _. int_text t), t_interval = (\<lambda>i. int_text (sint (micros i))),
     p_date = plain_parse, p_time = plain_parse, p_timestamp = plain_parse, p_timestamptz = (\<lambda>s _. plain_parse s),
     p_interval = (\<lambda>s. rmap (\<lambda>n. \<lparr> months = 0, days = 0, micros = word_of_int n \<rparr>) (plain_parse s)),
     dt_to_zoned = (\<lambda>t _. Some t), tz_datetime = (\<lambda>_ t. t), dt_date = (\<lambda>t. t div USECS_PER_DAY),
     dt_time = (\<lambda>t. t mod USECS_PER_DAY * 1000), j_display = dec_int \<rparr>"

theorem cast_type_witness:
  "cast plain_lib plain_texts ''UTC'' (Bool True) TInt4 = Some (Inr (Int4 1)) \<and> has_type (Int4 1 :: int datum) TInt4"
proof -
  have "cast plain_lib plain_texts ''UTC'' (Bool True) TInt4 = Some (Inr (Int4 1))" by (simp add: cast_def)
  with cast_type [OF this] show ?thesis by simp
qed

lemma plain_parse_error: "plain_parse s = Inl e \<Longrightarrow> \<not> is_cannot_cast e"
  by (auto simp: plain_parse_def)

lemma plain_parsers_law: "parsers_law plain_texts"
proof -
  have "rmap g (plain_parse s) = Inl e \<Longrightarrow> \<not> is_cannot_cast e" for g :: "int \<Rightarrow> interval" and s e
    using plain_parse_error [of s e] by (cases "plain_parse s") auto
  then show ?thesis by (auto simp: parsers_law_def plain_texts_def dest: plain_parse_error)
qed

theorem cast_allowed_exact_witness:
  "parsers_law plain_texts
   \<and> undefined_cast (cast plain_lib plain_texts ''UTC'' (Interval \<lparr> months = 0, days = 1, micros = 0 \<rparr>) TDate)
   \<and> cast_allowed TBytea TBytea \<and> undefined_cast (cast plain_lib plain_texts ''UTC'' (Bytea [1]) TBytea)"
  using cast_allowed_exact [OF plain_parsers_law, of "Interval \<lparr> months = 0, days = 1, micros = 0 \<rparr>" TInterval plain_lib "''UTC''" TDate]
    cast_allowed_exact [OF plain_parsers_law, of "Bytea [1]" TBytea plain_lib "''UTC''" TBytea] plain_parsers_law
  by (simp add: cast_allowed_def)

theorem int4_roundtrip_witness:
  "(\<forall>m. bd_half_up plain_lib (num_of_int m) 0 = num_of_int m) \<and> (\<forall>m. bd_to_i32 plain_lib (num_of_int m) = checked m)
   \<and> (\<exists>w. cast plain_lib plain_texts ''UTC'' (Int4 (- 7)) TFloat8 = Some (Inr w)
        \<and> cast plain_lib plain_texts ''UTC'' w TInt4 = Some (Inr (Int4 (- 7))))"
proof -
  have h: "\<forall>m. bd_half_up plain_lib (num_of_int m) 0 = num_of_int m" "\<forall>m. bd_to_i32 plain_lib (num_of_int m) = checked m"
    by (simp_all add: plain_lib_def round_half_up_def num_of_int_def signed_divide_int_def mult_sgn_abs)
  with int4_roundtrip [OF h, of TFloat8 plain_texts "''UTC''" "- 7"] show ?thesis by simp
qed

end
