(* ===== verification/Like.thy ===== *)
theory Like
  imports Errors RustStd "HOL-Library.Product_Lexorder"
begin

text \<open>
  \<open>LIKE\<close> and \<open>ILIKE\<close>: \<open>like_match\<close> of \<open>executor/src/eval.rs\<close>, the matcher that scans subject and pattern
  with two indices and falls back to the last \<open>%\<close> on a mismatch. The loop is a partial function, so
  that not returning is the value \<open>None\<close>.

  The theorem: the loop always returns, and its answer is that of the declarative matcher \<open>lk\<close>.
\<close>

section \<open>Characters\<close>

text \<open>\<open>str::chars\<close> on valid UTF-8: the lead byte gives the number of bytes and the high bits.\<close>

definition seq_len :: "byte \<Rightarrow> nat" where
  "seq_len b = (if b < 0x80 then 1 else if b < 0xE0 then 2 else if b < 0xF0 then 3 else 4)"

definition lead_bits :: "byte \<Rightarrow> nat" where
  "lead_bits b = (if b < 0x80 then unat b else if b < 0xE0 then unat b mod 32 else if b < 0xF0 then unat b mod 16 else unat b mod 8)"

function utf8_chars :: "bytes \<Rightarrow> nat list" where
  "utf8_chars [] = []"
| "utf8_chars (b # r) =
     foldl (\<lambda>a c. a * 64 + unat c mod 64) (lead_bits b) (take (seq_len b - 1) r) # utf8_chars (drop (seq_len b - 1) r)"
  by pat_completeness auto
termination
  by (relation "measure length") auto

definition ascii_fold :: "nat \<Rightarrow> nat" where
  "ascii_fold c = (if 0x41 \<le> c \<and> c \<le> 0x5A then c + 0x20 else c)"

section \<open>The matcher\<close>

text \<open>
  The main loop: \<open>Inr None\<close> is a mismatch, \<open>Inr (Some pi)\<close> the pattern index when the subject is
  used up.
\<close>

partial_function (option) like_loop ::
  "(nat \<Rightarrow> nat) \<Rightarrow> nat list \<Rightarrow> nat list \<Rightarrow> nat \<Rightarrow> nat \<Rightarrow> nat option \<Rightarrow> nat \<Rightarrow> (exec_error + nat option) option" where
  "like_loop f sb pb si pi star star_si =
     (if si < length sb
      then (if pi < length pb \<and> pb ! pi = 0x5C \<and> pi + 1 \<ge> length pb then Some (Inl (EType InvalidEscape))
            else if pi < length pb \<and> pb ! pi = 0x5C \<and> sb ! si = f (pb ! (pi + 1))
            then like_loop f sb pb (si + 1) (pi + 2) star star_si
            else if pi < length pb \<and> pb ! pi = 0x25 then like_loop f sb pb si (pi + 1) (Some pi) si
            else if pi < length pb \<and> pb ! pi = 0x5F then like_loop f sb pb (si + 1) (pi + 1) star star_si
            else if pi < length pb \<and> pb ! pi \<noteq> 0x5C \<and> sb ! si = f (pb ! pi)
            then like_loop f sb pb (si + 1) (pi + 1) star star_si
            else (case star of
                    Some sp \<Rightarrow> like_loop f sb pb (star_si + 1) (sp + 1) star (star_si + 1)
                  | None \<Rightarrow> Some (Inr None)))
      else Some (Inr (Some pi)))"

fun like_tail :: "nat list \<Rightarrow> exec_error + bool" where
  "like_tail [] = Inr True"
| "like_tail (c # r) =
     (if c = 0x25 then like_tail r
      else if c = 0x5C then (if r = [] then Inl (EType InvalidEscape) else Inr False)
      else Inr False)"

definition like_match :: "bytes \<Rightarrow> bytes \<Rightarrow> bool \<Rightarrow> (exec_error + bool) option" where
  "like_match s p ci =
     (let f = (if ci then ascii_fold else id);
          sb = map f (utf8_chars s);
          pb = utf8_chars p
      in case like_loop f sb pb 0 0 None 0 of
           None \<Rightarrow> None
         | Some (Inl e) \<Rightarrow> Some (Inl e)
         | Some (Inr None) \<Rightarrow> Some (Inr False)
         | Some (Inr (Some pi)) \<Rightarrow> Some (like_tail (drop pi pb)))"

section \<open>What a pattern means\<close>

datatype tok = TAny | TOne | TLit nat | TBad

fun toks :: "(nat \<Rightarrow> nat) \<Rightarrow> nat list \<Rightarrow> tok list" where
  "toks f [] = []"
| "toks f [c] = [if c = 0x25 then TAny else if c = 0x5F then TOne else if c = 0x5C then TBad else TLit (f c)]"
| "toks f (c # d # r) =
     (if c = 0x25 then TAny # toks f (d # r)
      else if c = 0x5F then TOne # toks f (d # r)
      else if c = 0x5C then TLit (f d) # toks f r
      else TLit (f c) # toks f (d # r))"

fun tok1 :: "tok \<Rightarrow> nat \<Rightarrow> bool" where
  "tok1 TOne c = True"
| "tok1 (TLit d) c = (c = d)"
| "tok1 _ c = False"

function lk :: "tok list \<Rightarrow> nat list \<Rightarrow> bool" where
  "lk [] s = (s = [])"
| "lk (k # t) s =
     (if k = TAny then lk t s \<or> (case s of [] \<Rightarrow> False | c # s' \<Rightarrow> lk (k # t) s')
      else (case s of [] \<Rightarrow> False | c # s' \<Rightarrow> tok1 k c \<and> lk t s'))"
  by pat_completeness auto
termination
  by (relation "measure (\<lambda>(t, s). length t + length s)") auto

declare lk.simps [simp del]

lemma lk_Nil [simp]: "lk [] s \<longleftrightarrow> s = []"
  by (simp add: lk.simps)

lemma lk_any_Nil: "lk (TAny # t) [] = lk t []"
  and lk_any_Cons: "lk (TAny # t) (c # s) \<longleftrightarrow> lk t (c # s) \<or> lk (TAny # t) s"
  by (subst lk.simps; simp)+

lemma lk_one [simp]: "k \<noteq> TAny \<Longrightarrow> lk (k # t) [] \<longleftrightarrow> False"
  "k \<noteq> TAny \<Longrightarrow> lk (k # t) (c # s) \<longleftrightarrow> tok1 k c \<and> lk t s"
  by (simp_all add: lk.simps)

text \<open>An unescaped \<open>%\<close> stands for any string.\<close>

lemma lk_any: "lk (TAny # t) s \<longleftrightarrow> (\<exists>k \<le> length s. lk t (drop k s))"
proof (induction s)
  case (Cons c s)
  have "(\<exists>k \<le> length (c # s). lk t (drop k (c # s))) \<longleftrightarrow> lk t (c # s) \<or> (\<exists>k \<le> length s. lk t (drop k s))"
    by (metis (no_types, opaque_lifting) Suc_le_mono drop0 drop_Suc_Cons le0 length_Cons not0_implies_Suc)
  with Cons show ?case by (simp add: lk_any_Cons)
qed (simp add: lk_any_Nil)

lemma lk_any_drop: "lk (TAny # t) (drop k s) \<Longrightarrow> lk (TAny # t) s"
proof -
  assume "lk (TAny # t) (drop k s)"
  then obtain j where "j \<le> length (drop k s)" "lk t (drop j (drop k s))" by (auto simp: lk_any)
  then show ?thesis unfolding lk_any by (intro exI [of _ "min (length s) (k + j)"]) (auto simp: add.commute min_def)
qed

lemma tok1_not_any: "tok1 k c \<Longrightarrow> k \<noteq> TAny"
  by auto

lemma lk_seg: "list_all2 tok1 seg w \<Longrightarrow> lk (seg @ t) (w @ s) = lk t s"
  by (induction seg w rule: list_all2_induct) (auto simp: tok1_not_any)

lemma lk_seg_split:
  "list_all2 tok1 seg w \<Longrightarrow> lk (seg @ t) s \<Longrightarrow> length seg \<le> length s \<and> lk t (drop (length seg) s)"
proof (induction seg w arbitrary: s rule: list_all2_induct)
  case (Cons k c seg w)
  then show ?case by (cases s) (auto dest: tok1_not_any)
qed simp

lemma lk_new_star:
  assumes "list_all2 tok1 seg w"
  shows "lk (TAny # seg @ TAny # t) (w @ s) \<longleftrightarrow> lk (TAny # t) s"
proof
  assume "lk (TAny # t) s"
  with lk_seg [OF assms, of "TAny # t" s] show "lk (TAny # seg @ TAny # t) (w @ s)"
    unfolding lk_any [of "seg @ TAny # t"] by (intro exI [of _ 0]) simp
next
  assume "lk (TAny # seg @ TAny # t) (w @ s)"
  then obtain k where "lk (seg @ TAny # t) (drop k (w @ s))" by (auto simp: lk_any [of "seg @ TAny # t"])
  with lk_seg_split [OF assms] have "lk (TAny # t) (drop (length seg) (drop k (w @ s)))" by blast
  moreover have "length seg = length w" using assms by (rule list_all2_lengthD)
  then have "drop (length seg) (drop k (w @ s)) = drop k (drop (length w) (w @ s))"
    by (simp only: drop_drop add.commute)
  ultimately show "lk (TAny # t) s" by (intro lk_any_drop [of t k s]) simp
qed

lemma lk_backtrack:
  assumes "list_all2 tok1 seg w" and "\<not> lk t s" and "w @ s = c # r"
  shows "lk (TAny # seg @ t) (w @ s) \<longleftrightarrow> lk (TAny # seg @ t) r"
  using lk_seg [OF assms(1), of t s] assms(2,3) by (simp add: lk_any_Cons)

lemma lk_end:
  assumes "list_all2 tok1 seg w"
  shows "lk (TAny # seg @ t) w \<longleftrightarrow> lk t []"
proof
  assume "lk t []"
  then show "lk (TAny # seg @ t) w"
    using lk_seg [OF assms, of t "[]"] unfolding lk_any by (intro exI [of _ 0]) simp
next
  assume "lk (TAny # seg @ t) w"
  then obtain k where k: "k \<le> length w" "lk (seg @ t) (drop k w)" by (auto simp: lk_any)
  from lk_seg_split [OF assms k(2)] have "length seg \<le> length w - k" "lk t (drop (length seg) (drop k w))" by auto
  then show "lk t []" using list_all2_lengthD [OF assms] k(1) by simp
qed

lemma lk_bad: "TBad \<in> set ts \<Longrightarrow> \<not> lk ts s"
proof (induction ts s rule: lk.induct)
  case (2 k t s)
  then show ?case by (cases "k = TAny"; cases s) (auto simp: lk_any_Nil lk_any_Cons)
qed simp

section \<open>Correctness\<close>

lemma toks_drop:
  assumes "i < length pb"
  shows "pb ! i = 0x25 \<Longrightarrow> toks f (drop i pb) = TAny # toks f (drop (Suc i) pb)"
    and "pb ! i = 0x5F \<Longrightarrow> toks f (drop i pb) = TOne # toks f (drop (Suc i) pb)"
    and "pb ! i \<notin> {0x25, 0x5F, 0x5C} \<Longrightarrow> toks f (drop i pb) = TLit (f (pb ! i)) # toks f (drop (Suc i) pb)"
    and "pb ! i = 0x5C \<Longrightarrow> Suc i < length pb \<Longrightarrow> toks f (drop i pb) = TLit (f (pb ! Suc i)) # toks f (drop (Suc (Suc i)) pb)"
    and "pb ! i = 0x5C \<Longrightarrow> length pb \<le> Suc i \<Longrightarrow> toks f (drop i pb) = [TBad]"
proof -
  have d: "drop i pb = pb ! i # drop (Suc i) pb" using assms by (simp add: Cons_nth_drop_Suc)
  show "pb ! i = 0x25 \<Longrightarrow> toks f (drop i pb) = TAny # toks f (drop (Suc i) pb)"
    "pb ! i = 0x5F \<Longrightarrow> toks f (drop i pb) = TOne # toks f (drop (Suc i) pb)"
    "pb ! i \<notin> {0x25, 0x5F, 0x5C} \<Longrightarrow> toks f (drop i pb) = TLit (f (pb ! i)) # toks f (drop (Suc i) pb)"
    unfolding d by (cases "drop (Suc i) pb"; simp)+
  show "pb ! i = 0x5C \<Longrightarrow> length pb \<le> Suc i \<Longrightarrow> toks f (drop i pb) = [TBad]"
    unfolding d by simp
  show "toks f (drop i pb) = TLit (f (pb ! Suc i)) # toks f (drop (Suc (Suc i)) pb)" if "pb ! i = 0x5C" "Suc i < length pb"
    unfolding d using that by (simp add: Cons_nth_drop_Suc [symmetric])
qed

text \<open>What the loop's result stands for once the rest of the pattern is looked at.\<close>

definition outcome :: "nat list \<Rightarrow> exec_error + nat option \<Rightarrow> exec_error + bool" where
  "outcome pb r = (case r of Inl e \<Rightarrow> Inl e | Inr None \<Rightarrow> Inr False | Inr (Some pi) \<Rightarrow> like_tail (drop pi pb))"

text \<open>An answer \<open>b\<close>, or an invalid escape when the pattern has one.\<close>

definition answers :: "tok list \<Rightarrow> bool \<Rightarrow> exec_error + bool \<Rightarrow> bool" where
  "answers ts b r \<longleftrightarrow> r = Inr b \<or> TBad \<in> set ts \<and> r = Inl (EType InvalidEscape)"

lemma like_tail_answers: "answers (toks f r) (lk (toks f r) []) (like_tail r)"
proof (induction f r rule: toks.induct)
  case (2 f c)
  then show ?case by (auto simp: answers_def lk_any_Nil)
next
  case (3 f c d r)
  then show ?case by (auto simp: answers_def lk_any_Nil)
qed (simp add: answers_def)

text \<open>
  The loop's invariant: since the last \<open>%\<close>, at \<open>sp\<close>, the pattern up to \<open>pi\<close> matches the subject from
  \<open>star_si\<close> up to \<open>si\<close> character by character. What the loop still has to decide is \<open>goal\<close>.
\<close>

definition seg_ok :: "(nat \<Rightarrow> nat) \<Rightarrow> nat list \<Rightarrow> nat list \<Rightarrow> nat \<Rightarrow> nat \<Rightarrow> nat \<Rightarrow> nat \<Rightarrow> bool" where
  "seg_ok f sb pb si pi sp star_si \<longleftrightarrow> sp < pi \<and> star_si \<le> si
     \<and> (\<exists>seg. toks f (drop (Suc sp) pb) = seg @ toks f (drop pi pb) \<and> list_all2 tok1 seg (take (si - star_si) (drop star_si sb)))"

definition loop_inv :: "(nat \<Rightarrow> nat) \<Rightarrow> nat list \<Rightarrow> nat list \<Rightarrow> tok list \<Rightarrow> nat \<Rightarrow> nat \<Rightarrow> nat option \<Rightarrow> nat \<Rightarrow> bool" where
  "loop_inv f sb pb ts si pi star star_si \<longleftrightarrow> si \<le> length sb \<and> set (toks f (drop pi pb)) \<subseteq> set ts
     \<and> (case star of None \<Rightarrow> True
        | Some sp \<Rightarrow> seg_ok f sb pb si pi sp star_si \<and> set (toks f (drop (Suc sp) pb)) \<subseteq> set ts)"

definition goal :: "(nat \<Rightarrow> nat) \<Rightarrow> nat list \<Rightarrow> nat list \<Rightarrow> nat \<Rightarrow> nat \<Rightarrow> nat option \<Rightarrow> nat \<Rightarrow> bool" where
  "goal f sb pb si pi star star_si =
     (case star of
        None \<Rightarrow> lk (toks f (drop pi pb)) (drop si sb)
      | Some sp \<Rightarrow> lk (TAny # toks f (drop (Suc sp) pb)) (drop star_si sb))"

definition loop_measure :: "nat list \<Rightarrow> nat list \<Rightarrow> nat \<Rightarrow> nat option \<Rightarrow> nat \<Rightarrow> nat \<times> nat \<times> nat" where
  "loop_measure sb pb si star star_si =
     (length pb - (case star of None \<Rightarrow> 0 | Some sp \<Rightarrow> Suc sp), length sb - star_si, length sb - si)"

text \<open>One character matched by a token other than \<open>%\<close>.\<close>

lemma advance:
  assumes inv: "loop_inv f sb pb ts si pi star star_si" and si: "si < length sb"
    and tok: "toks f (drop pi pb) = k # toks f (drop pi' pb)" "tok1 k (sb ! si)" "pi < pi'"
  shows "loop_inv f sb pb ts (Suc si) pi' star star_si"
    and "goal f sb pb (Suc si) pi' star star_si = goal f sb pb si pi star star_si"
proof -
  have d: "drop si sb = sb ! si # drop (Suc si) sb" using si by (simp add: Cons_nth_drop_Suc)
  show "goal f sb pb (Suc si) pi' star star_si = goal f sb pb si pi star star_si"
    using tok tok1_not_any [OF tok(2)] by (cases star) (simp_all add: goal_def d)
  have "seg_ok f sb pb (Suc si) pi' sp star_si" if ok: "seg_ok f sb pb si pi sp star_si" for sp
  proof -
    from ok obtain seg where le: "sp < pi" "star_si \<le> si"
      and seg: "toks f (drop (Suc sp) pb) = seg @ toks f (drop pi pb)" "list_all2 tok1 seg (take (si - star_si) (drop star_si sb))"
      by (auto simp: seg_ok_def)
    have "take (Suc si - star_si) (drop star_si sb) = take (si - star_si) (drop star_si sb) @ [sb ! si]"
      using le(2) si by (simp add: Suc_diff_le take_Suc_conv_app_nth)
    with seg tok le show ?thesis
      unfolding seg_ok_def by (intro conjI exI [of _ "seg @ [k]"]) (auto intro: list_all2_appendI)
  qed
  with inv si tok(1) show "loop_inv f sb pb ts (Suc si) pi' star star_si"
    by (auto simp: loop_inv_def split: option.splits)
qed

text \<open>A new \<open>%\<close>.\<close>

lemma new_star:
  assumes inv: "loop_inv f sb pb ts si pi star star_si" and tok: "toks f (drop pi pb) = TAny # toks f (drop (Suc pi) pb)"
  shows "loop_inv f sb pb ts si (Suc pi) (Some pi) si"
    and "goal f sb pb si (Suc pi) (Some pi) si = goal f sb pb si pi star star_si"
proof -
  show "loop_inv f sb pb ts si (Suc pi) (Some pi) si"
    using inv tok by (auto simp: loop_inv_def seg_ok_def)
  show "goal f sb pb si (Suc pi) (Some pi) si = goal f sb pb si pi star star_si"
  proof (cases star)
    case None
    with tok show ?thesis by (simp add: goal_def)
  next
    case (Some sp)
    then obtain seg where le: "star_si \<le> si" and seg: "toks f (drop (Suc sp) pb) = seg @ toks f (drop pi pb)"
      "list_all2 tok1 seg (take (si - star_si) (drop star_si sb))"
      using inv by (auto simp: loop_inv_def seg_ok_def)
    have "drop star_si sb = take (si - star_si) (drop star_si sb) @ drop si sb"
      using le by (metis append_take_drop_id drop_drop le_add_diff_inverse2)
    with lk_new_star [OF seg(2), of "toks f (drop (Suc pi) pb)" "drop si sb"] seg(1) tok Some show ?thesis
      by (simp add: goal_def)
  qed
qed

text \<open>A mismatch after a \<open>%\<close>.\<close>

lemma backtrack:
  assumes inv: "loop_inv f sb pb ts si pi (Some sp) star_si" and si: "si < length sb"
    and no: "\<not> lk (toks f (drop pi pb)) (drop si sb)"
  shows "loop_inv f sb pb ts (Suc star_si) (Suc sp) (Some sp) (Suc star_si)"
    and "goal f sb pb (Suc star_si) (Suc sp) (Some sp) (Suc star_si) = goal f sb pb si pi (Some sp) star_si"
    and "star_si < length sb"
proof -
  from inv obtain seg where le: "star_si \<le> si" and seg: "toks f (drop (Suc sp) pb) = seg @ toks f (drop pi pb)"
    "list_all2 tok1 seg (take (si - star_si) (drop star_si sb))" and sub: "set (toks f (drop (Suc sp) pb)) \<subseteq> set ts"
    by (auto simp: loop_inv_def seg_ok_def)
  show lt: "star_si < length sb" using le si by simp
  show "loop_inv f sb pb ts (Suc star_si) (Suc sp) (Some sp) (Suc star_si)"
    using lt sub by (auto simp: loop_inv_def seg_ok_def)
  have d: "drop star_si sb = take (si - star_si) (drop star_si sb) @ drop si sb"
    using le by (metis append_take_drop_id drop_drop le_add_diff_inverse2)
  have c: "drop star_si sb = sb ! star_si # drop (Suc star_si) sb" using lt by (simp add: Cons_nth_drop_Suc)
  show "goal f sb pb (Suc star_si) (Suc sp) (Some sp) (Suc star_si) = goal f sb pb si pi (Some sp) star_si"
    using lk_backtrack [OF seg(2) no, of "sb ! star_si" "drop (Suc star_si) sb"] d c seg(1) by (simp add: goal_def)
qed

text \<open>The subject used up.\<close>

lemma at_end:
  assumes inv: "loop_inv f sb pb ts si pi star star_si" and si: "\<not> si < length sb"
  shows "goal f sb pb si pi star star_si = lk (toks f (drop pi pb)) []"
proof (cases star)
  case None
  with si show ?thesis by (simp add: goal_def)
next
  case (Some sp)
  with inv obtain seg where "toks f (drop (Suc sp) pb) = seg @ toks f (drop pi pb)"
    "list_all2 tok1 seg (take (si - star_si) (drop star_si sb))" by (auto simp: loop_inv_def seg_ok_def)
  moreover have "take (si - star_si) (drop star_si sb) = drop star_si sb" using si by simp
  ultimately show ?thesis using lk_end Some by (simp add: goal_def)
qed

lemma mismatch:
  assumes "si < length sb" and "pi < length pb \<longrightarrow> (\<exists>k t. toks f (drop pi pb) = k # t \<and> k \<noteq> TAny \<and> \<not> tok1 k (sb ! si))"
  shows "\<not> lk (toks f (drop pi pb)) (drop si sb)"
proof -
  have d: "drop si sb = sb ! si # drop (Suc si) sb" using assms(1) by (simp add: Cons_nth_drop_Suc)
  show ?thesis
  proof (cases "pi < length pb")
    case True
    with assms(2) show ?thesis by (auto simp: d)
  qed (simp add: d)
qed

lemma like_loop_answers:
  "loop_inv f sb pb ts si pi star star_si \<Longrightarrow>
   \<exists>r. like_loop f sb pb si pi star star_si = Some r \<and> answers ts (goal f sb pb si pi star star_si) (outcome pb r)"
proof (induction "loop_measure sb pb si star star_si" arbitrary: si pi star star_si rule: less_induct)
  case less
  note inv = less.prems
  let ?P = "\<lambda>si' pi' star' star_si'. \<exists>r. like_loop f sb pb si' pi' star' star_si' = Some r
      \<and> answers ts (goal f sb pb si pi star star_si) (outcome pb r)"
  have rec: "?P si' pi' star' star_si'"
    if "loop_measure sb pb si' star' star_si' < loop_measure sb pb si star star_si" "loop_inv f sb pb ts si' pi' star' star_si'"
      "goal f sb pb si' pi' star' star_si' = goal f sb pb si pi star star_si" for si' pi' star' star_si'
    using less.hyps [OF that(1,2)] that(3) by simp
  note step = like_loop.simps [of f sb pb si pi star star_si]
  show ?case
  proof (cases "si < length sb")
    case False
    have "answers (toks f (drop pi pb)) (lk (toks f (drop pi pb)) []) (like_tail (drop pi pb))" by (rule like_tail_answers)
    then have "answers ts (lk (toks f (drop pi pb)) []) (like_tail (drop pi pb))"
      using inv by (auto simp: answers_def loop_inv_def)
    then show ?thesis using at_end [OF inv False] False by (simp add: step outcome_def)
  next
    case si: True
    have adv: "?P (Suc si) pi' star star_si"
      if "toks f (drop pi pb) = k # toks f (drop pi' pb)" "tok1 k (sb ! si)" "pi < pi'" for k pi'
      by (rule rec) (use advance [OF inv si that] si in \<open>auto simp: loop_measure_def\<close>)
    have retry: "\<exists>r. (case star of Some sp \<Rightarrow> like_loop f sb pb (star_si + 1) (sp + 1) star (star_si + 1) | None \<Rightarrow> Some (Inr None)) = Some r
        \<and> answers ts (goal f sb pb si pi star star_si) (outcome pb r)"
      if no: "pi < length pb \<longrightarrow> (\<exists>k t. toks f (drop pi pb) = k # t \<and> k \<noteq> TAny \<and> \<not> tok1 k (sb ! si))"
    proof (cases star)
      case None
      with mismatch [OF si no] show ?thesis by (simp add: outcome_def answers_def goal_def)
    next
      case (Some sp)
      note bt = backtrack [OF inv [unfolded Some] si mismatch [OF si no]]
      have "?P (Suc star_si) (Suc sp) (Some sp) (Suc star_si)"
        by (rule rec) (use bt Some in \<open>auto simp: loop_measure_def\<close>)
      then show ?thesis by (simp add: Some)
    qed
    show ?thesis
    proof (cases "pi < length pb")
      case False
      with retry si show ?thesis by (simp add: step)
    next
      case pi: True
      note T = toks_drop [OF pi, of f]
      consider (esc) "pb ! pi = 0x5C" "Suc pi < length pb" | (bad) "pb ! pi = 0x5C" "length pb \<le> Suc pi"
        | (any) "pb ! pi = 0x25" | (one) "pb ! pi = 0x5F" | (lit) "pb ! pi \<notin> {0x25, 0x5F, 0x5C}" by fastforce
      then show ?thesis
      proof cases
        case esc
        show ?thesis
        proof (cases "sb ! si = f (pb ! Suc pi)")
          case True
          then show ?thesis using esc si pi adv [OF T(4) [OF esc]] by (simp add: step)
        next
          case False
          then show ?thesis using esc si pi retry T(4) [OF esc] by (simp add: step)
        qed
      next
        case bad
        have "TBad \<in> set ts" using inv T(5) [OF bad] by (simp add: loop_inv_def)
        with bad si pi show ?thesis by (simp add: step outcome_def answers_def)
      next
        case any
        have "sp < pi" if "star = Some sp" for sp using inv that by (simp add: loop_inv_def seg_ok_def)
        then have "?P si (Suc pi) (Some pi) si"
          by (intro rec) (use new_star [OF inv T(1) [OF any]] pi in \<open>auto simp: loop_measure_def split: option.splits\<close>)
        with any si pi show ?thesis by (simp add: step)
      next
        case one
        then show ?thesis using si pi adv [OF T(2) [OF one]] by (simp add: step)
      next
        case lit
        show ?thesis
        proof (cases "sb ! si = f (pb ! pi)")
          case True
          then show ?thesis using lit si pi adv [OF T(3) [OF lit]] by (simp add: step)
        next
          case False
          then show ?thesis using lit si pi retry T(3) [OF lit] by (simp add: step)
        qed
      qed
    qed
  qed
qed


end
