(* ===== verification/Eval.thy ===== *)
theory Eval
  imports Cast Like Session Catalog Ast
begin

text \<open>
  Expression evaluation and static typing: \<open>executor/src/scope.rs\<close> and \<open>executor/src/eval.rs\<close>. \<open>LIKE\<close>
  matching has its own theory. The evaluators and type rules of function calls (\<open>func.rs\<close>,
  \<open>datetime_fn.rs\<close>, \<open>format_fn.rs\<close> and the aggregates) are fields of the record \<open>eval_fns\<close>; they
  receive the call and the evaluator of its arguments. As in \<open>Ops\<close>, \<open>None\<close> is a panic.

  The theorems: evaluation ends whatever the functions do with the evaluator they are given, the type
  inferred for an expression is the type of its value where the branches of every CASE agree, and
  where they do not it need not be.
\<close>

section \<open>Scopes\<close>

record column_binding =
  cb_qualifier :: "bytes option"
  cb_name :: bytes
  cb_ty :: column_type

type_synonym scope = "column_binding list"

definition scope_empty :: scope where
  "scope_empty = []"

definition scope_single :: "table \<Rightarrow> bytes \<Rightarrow> scope" where
  "scope_single t q = map (\<lambda>c. \<lparr> cb_qualifier = Some q, cb_name = col_name c, cb_ty = col_ty c \<rparr>) (tb_columns t)"

fun resolve_from :: "bytes option \<Rightarrow> bytes \<Rightarrow> nat \<Rightarrow> nat option \<Rightarrow> scope \<Rightarrow> exec_error + nat" where
  "resolve_from q name i found [] = ok_or (EUndefinedColumn (chars_of name)) found"
| "resolve_from q name i found (c # cs) =
     (if (case q of None \<Rightarrow> True | Some q \<Rightarrow> cb_qualifier c = Some q) \<and> cb_name c = name
      then (if found \<noteq> None then Inl (EAmbiguousColumn (chars_of name)) else resolve_from q name (i + 1) (Some i) cs)
      else resolve_from q name (i + 1) found cs)"

definition resolve :: "scope \<Rightarrow> bytes option \<Rightarrow> bytes \<Rightarrow> exec_error + nat" where
  "resolve sc q name =
     (case q of
        Some t \<Rightarrow> if \<not> list_ex (\<lambda>c. cb_qualifier c = Some t) sc then Inl (EMissingFromEntry (chars_of t))
                  else resolve_from q name 0 None sc
      | None \<Rightarrow> resolve_from q name 0 None sc)"

section \<open>Results\<close>

type_synonym 'a xres = "(exec_error + 'a) option"

definition xbind :: "'a xres \<Rightarrow> ('a \<Rightarrow> 'b xres) \<Rightarrow> 'b xres" where
  "xbind m f = (case m of None \<Rightarrow> None | Some (Inl e) \<Rightarrow> Some (Inl e) | Some (Inr x) \<Rightarrow> f x)"

definition xlift :: "'a pres \<Rightarrow> 'a xres" where
  "xlift m = map_option (map_err EType) m"

lemma xbind_simps [simp]:
  "xbind None f = None" "xbind (Some (Inl e)) f = Some (Inl e)" "xbind (Some (Inr x)) f = f x"
  by (simp_all add: xbind_def)

lemma xbind_eq_Inr: "xbind m f = Some (Inr y) \<longleftrightarrow> (\<exists>x. m = Some (Inr x) \<and> f x = Some (Inr y))"
  by (cases m rule: option.exhaust, simp, rename_tac r, case_tac r) auto

lemma xlift_eq_Inr [simp]: "xlift m = Some (Inr y) \<longleftrightarrow> m = Some (Inr y)"
  by (cases m rule: option.exhaust, simp add: xlift_def, rename_tac r, case_tac r) (auto simp: xlift_def)

section \<open>Operators\<close>

text \<open>
  \<^item> \<open>v_tz_plus\<close>: \<open>datetime::timestamptz_plus_interval\<close>, calendar arithmetic in the session's zone;
  \<^item> \<open>is_scalar\<close>, \<open>is_datetime_func\<close>, \<open>is_format_func\<close>: whether a family knows a function's name;
  \<^item> \<open>call_scalar\<close>, \<open>call_datetime\<close>, \<open>call_format\<close>: its evaluator, \<open>func_error\<close> the error for other names;
  \<^item> \<open>ty_scalar\<close>, \<open>ty_datetime\<close>, \<open>ty_format\<close>, \<open>ty_agg\<close>: the type rules.
\<close>

type_synonym 'j call = "bytes \<times> bool \<times> 'j expr func_args"

record 'j eval_fns =
  v_lib :: "'j lib"
  v_texts :: "'j texts"
  v_tz_plus :: "'j \<Rightarrow> interval \<Rightarrow> string \<Rightarrow> 'j pres"
  is_scalar :: "bytes \<Rightarrow> bool"
  is_datetime_func :: "bytes \<Rightarrow> bool"
  is_format_func :: "bytes \<Rightarrow> bool"
  call_scalar :: "'j call \<Rightarrow> eval_ctx \<Rightarrow> ('j expr \<Rightarrow> 'j datum xres) \<Rightarrow> 'j datum xres"
  call_datetime :: "'j call \<Rightarrow> eval_ctx \<Rightarrow> ('j expr \<Rightarrow> 'j datum xres) \<Rightarrow> 'j datum xres"
  call_format :: "'j call \<Rightarrow> eval_ctx \<Rightarrow> ('j expr \<Rightarrow> 'j datum xres) \<Rightarrow> 'j datum xres"
  func_error :: "'j call \<Rightarrow> exec_error"
  ty_scalar :: "'j call \<Rightarrow> scope \<Rightarrow> exec_error + column_type"
  ty_datetime :: "'j call \<Rightarrow> scope \<Rightarrow> exec_error + column_type"
  ty_format :: "'j call \<Rightarrow> scope \<Rightarrow> exec_error + column_type"
  ty_agg :: "'j call \<Rightarrow> scope \<Rightarrow> exec_error + column_type"

definition apply_unary :: "'j eval_fns \<Rightarrow> unary_op \<Rightarrow> 'j datum \<Rightarrow> 'j datum xres" where
  "apply_unary V op v =
     (case op of
        UNot \<Rightarrow> xlift (Some (ops_not v))
      | UNeg \<Rightarrow> (case v of
                  Interval i \<Rightarrow> xlift (Some (rmap Interval (neg_interval i)))
                | _ \<Rightarrow> xlift (ops_sub (v_lib V) (Int4 0) v)))"

definition timestamptz_diff :: "'j ext \<Rightarrow> 'j \<Rightarrow> 'j \<Rightarrow> interval" where
  "timestamptz_diff E a b =
     (let total = sint (ts_as_micros E a - ts_as_micros E b)
      in \<lparr> months = 0, days = word_of_int (total sdiv USECS_PER_DAY), micros = word_of_int (total smod USECS_PER_DAY) \<rparr>)"

definition apply_timestamptz_arith ::
  "'j eval_fns \<Rightarrow> binary_op \<Rightarrow> 'j datum \<Rightarrow> 'j datum \<Rightarrow> eval_ctx \<Rightarrow> 'j datum option pres" where
  "apply_timestamptz_arith V op l r ctx =
     (if column_type_of l \<noteq> Some TTimestamptz \<and> column_type_of r \<noteq> Some TTimestamptz then Some (Inr None)
      else if is_null l \<or> is_null r then Some (Inr (Some Null))
      else (case (op, l, r) of
              (BAdd, Timestamptz ts, Interval iv) \<Rightarrow> pmap (Some \<circ> Timestamptz) (v_tz_plus V ts iv (ec_time_zone ctx))
            | (BAdd, Interval iv, Timestamptz ts) \<Rightarrow> pmap (Some \<circ> Timestamptz) (v_tz_plus V ts iv (ec_time_zone ctx))
            | (BSub, Timestamptz ts, Interval iv) \<Rightarrow>
                pbind (Some (neg_interval iv)) (\<lambda>neg. pmap (Some \<circ> Timestamptz) (v_tz_plus V ts neg (ec_time_zone ctx)))
            | (BSub, Timestamptz a, Timestamptz b) \<Rightarrow>
                Some (Inr (Some (Interval (timestamptz_diff (l_ext (v_lib V)) a b))))
            | _ \<Rightarrow> Some (Inr None)))"

fun cmp_holds :: "binary_op \<Rightarrow> cmp_ordering \<Rightarrow> bool option" where
  "cmp_holds BEq c = Some (c = OEqual)"
| "cmp_holds BNe c = Some (c \<noteq> OEqual)"
| "cmp_holds BLt c = Some (c = OLess)"
| "cmp_holds BLe c = Some (c \<noteq> OGreater)"
| "cmp_holds BGt c = Some (c = OGreater)"
| "cmp_holds BGe c = Some (c \<noteq> OLess)"
| "cmp_holds _ c = None"

definition cmp_result :: "binary_op \<Rightarrow> cmp_ordering option \<Rightarrow> 'j datum option" where
  "cmp_result op c = (case c of None \<Rightarrow> Some Null | Some c \<Rightarrow> map_option Bool (cmp_holds op c))"

definition plain_binary :: "'j eval_fns \<Rightarrow> binary_op \<Rightarrow> 'j datum \<Rightarrow> 'j datum \<Rightarrow> eval_ctx \<Rightarrow> 'j datum xres" where
  "plain_binary V op l r ctx =
     (case op of
        BAdd \<Rightarrow> xlift (ops_add (v_lib V) l r)
      | BSub \<Rightarrow> xlift (ops_sub (v_lib V) l r)
      | BMul \<Rightarrow> xlift (ops_mul (v_lib V) l r)
      | BDiv \<Rightarrow> xlift (ops_div (v_lib V) l r)
      | BAnd \<Rightarrow> xlift (Some (ops_and l r))
      | BOr \<Rightarrow> xlift (Some (ops_or l r))
      | BConcat \<Rightarrow> xlift (ops_concat (v_texts V) (ec_time_zone ctx) l r)
      | _ \<Rightarrow> xbind (xlift (Some (compare (v_lib V) l r))) (\<lambda>c. map_option Inr (cmp_result op c)))"

definition apply_binary :: "'j eval_fns \<Rightarrow> binary_op \<Rightarrow> 'j datum \<Rightarrow> 'j datum \<Rightarrow> eval_ctx \<Rightarrow> 'j datum xres" where
  "apply_binary V op l r ctx =
     (if op = BAdd \<or> op = BSub
      then xbind (xlift (apply_timestamptz_arith V op l r ctx)) (\<lambda>res.
             case res of Some v \<Rightarrow> Some (Inr v) | None \<Rightarrow> plain_binary V op l r ctx)
      else plain_binary V op l r ctx)"

section \<open>Predicates and CASE\<close>

fun eval_in_list ::
  "'j lib \<Rightarrow> 'j datum \<Rightarrow> bool \<Rightarrow> bool \<Rightarrow> ('j expr \<Rightarrow> 'j datum xres) \<Rightarrow> 'j expr list \<Rightarrow> 'j datum xres" where
  "eval_in_list L x negated saw_null ev [] = Some (Inr (if saw_null then Null else Bool negated))"
| "eval_in_list L x negated saw_null ev (item # items) =
     xbind (ev item) (\<lambda>v. xbind (xlift (Some (compare L x v))) (\<lambda>c.
       case c of
         Some OEqual \<Rightarrow> Some (Inr (Bool (\<not> negated)))
       | Some _ \<Rightarrow> eval_in_list L x negated saw_null ev items
       | None \<Rightarrow> eval_in_list L x negated True ev items))"

definition eval_between ::
  "'j eval_fns \<Rightarrow> 'j datum \<Rightarrow> 'j datum \<Rightarrow> 'j datum \<Rightarrow> bool \<Rightarrow> eval_ctx \<Rightarrow> 'j datum xres" where
  "eval_between V x lo hi negated ctx =
     xbind (apply_binary V BGe x lo ctx) (\<lambda>ge. xbind (apply_binary V BLe x hi ctx) (\<lambda>le.
     xbind (xlift (Some (ops_and ge le))) (\<lambda>res.
       if negated then xlift (Some (ops_not res)) else Some (Inr res))))"

fun as_text :: "'j datum \<Rightarrow> exec_error + bytes" where
  "as_text (Text s) = Inr s"
| "as_text _ = Inl (ETypeMismatch ''LIKE/ILIKE operands must be type text'')"

definition eval_like :: "'j datum \<Rightarrow> 'j datum \<Rightarrow> bool \<Rightarrow> bool \<Rightarrow> 'j datum xres" where
  "eval_like s pat negated ci =
     (if is_null s \<or> is_null pat then Some (Inr Null)
      else xbind (Some (as_text s)) (\<lambda>s. xbind (Some (as_text pat)) (\<lambda>p.
             xbind (like_match s p ci) (\<lambda>m. Some (Inr (Bool (m \<noteq> negated)))))))"

fun searched_case :: "('j expr \<Rightarrow> 'j datum xres) \<Rightarrow> ('j expr \<times> 'j expr) list \<Rightarrow> 'j datum xres \<Rightarrow> 'j datum xres" where
  "searched_case ev [] other = other"
| "searched_case ev ((cond, result) # whens) other =
     xbind (ev cond) (\<lambda>c.
       case c of
         Bool True \<Rightarrow> ev result
       | Bool False \<Rightarrow> searched_case ev whens other
       | Null \<Rightarrow> searched_case ev whens other
       | _ \<Rightarrow> Some (Inl (ETypeMismatch ''argument of CASE/WHEN must be type boolean'')))"

fun simple_case ::
  "'j lib \<Rightarrow> 'j datum \<Rightarrow> ('j expr \<Rightarrow> 'j datum xres) \<Rightarrow> ('j expr \<times> 'j expr) list \<Rightarrow> 'j datum xres \<Rightarrow> 'j datum xres" where
  "simple_case L ov ev [] other = other"
| "simple_case L ov ev ((val, result) # whens) other =
     xbind (ev val) (\<lambda>vv. xbind (xlift (Some (compare L ov vv))) (\<lambda>c.
       if c = Some OEqual then ev result else simple_case L ov ev whens other))"

definition eval_case ::
  "'j lib \<Rightarrow> 'j expr option \<Rightarrow> ('j expr \<times> 'j expr) list \<Rightarrow> 'j expr option \<Rightarrow> ('j expr \<Rightarrow> 'j datum xres) \<Rightarrow> 'j datum xres" where
  "eval_case L operand whens else_result ev =
     (let other = (case else_result of Some e \<Rightarrow> ev e | None \<Rightarrow> Some (Inr Null))
      in case operand of
           None \<Rightarrow> searched_case ev whens other
         | Some op \<Rightarrow> xbind (ev op) (\<lambda>ov. simple_case L ov ev whens other))"

section \<open>Evaluation\<close>

definition MAX_EVAL_DEPTH :: nat where
  "MAX_EVAL_DEPTH = 150"

function eval_depth :: "'j eval_fns \<Rightarrow> scope \<Rightarrow> 'j datum list \<Rightarrow> eval_ctx \<Rightarrow> nat \<Rightarrow> 'j expr \<Rightarrow> 'j datum xres" where
  "eval_depth V sc vals ctx depth expr =
     (if depth > MAX_EVAL_DEPTH then Some (Inl EStackDepthExceeded)
      else (let ev = eval_depth V sc vals ctx (depth + 1)
            in case expr of
                 IntLiteral s \<Rightarrow> xlift (Some (int_literal s))
               | NumericLiteral s \<Rightarrow>
                   Some (case parse (l_ext (v_lib V)) s of
                           Some d \<Rightarrow> Inr (Numeric d)
                         | None \<Rightarrow> Inl (EType (InvalidText ''numeric'' (chars_of s))))
               | StringLiteral s \<Rightarrow> Some (Inr (Text s))
               | BoolLiteral b \<Rightarrow> Some (Inr (Bool b))
               | NullLiteral \<Rightarrow> Some (Inr Null)
               | Param _ \<Rightarrow> Some (Inl (EUnsupported ''query parameters ($n) are not supported''))
               | Column t name \<Rightarrow>
                   xbind (Some (resolve sc t name)) (\<lambda>idx.
                     if idx < length vals then Some (Inr (vals ! idx)) else None)
               | Unary op e \<Rightarrow> xbind (ev e) (\<lambda>v. apply_unary V op v)
               | Binary op l r \<Rightarrow> xbind (ev l) (\<lambda>l. xbind (ev r) (\<lambda>r. apply_binary V op l r ctx))
               | Func name dist args \<Rightarrow>
                   (let fc = (name, dist, args)
                    in if is_scalar V name then call_scalar V fc ctx ev
                       else if is_datetime_func V name then call_datetime V fc ctx ev
                       else if is_format_func V name then call_format V fc ctx ev
                       else Some (Inl (func_error V fc)))
               | IsNull e negated \<Rightarrow> xbind (ev e) (\<lambda>v. Some (Inr (Bool (is_null v \<noteq> negated))))
               | InList e items negated \<Rightarrow>
                   xbind (ev e) (\<lambda>x. if is_null x then Some (Inr Null) else eval_in_list (v_lib V) x negated False ev items)
               | Between e low high negated \<Rightarrow>
                   xbind (ev e) (\<lambda>x. xbind (ev low) (\<lambda>lo. xbind (ev high) (\<lambda>hi. eval_between V x lo hi negated ctx)))
               | Like e pat negated ci \<Rightarrow> xbind (ev e) (\<lambda>s. xbind (ev pat) (\<lambda>p. eval_like s p negated ci))
               | Case operand whens else_result \<Rightarrow> eval_case (v_lib V) operand whens else_result ev
               | Cast e ty \<Rightarrow> xbind (ev e) (\<lambda>v. xlift (cast (v_lib V) (v_texts V) (ec_time_zone ctx) v ty))
               | Const v ty \<Rightarrow> Some (Inr v)
               | _ \<Rightarrow> Some (Inl (EUnsupported ''subqueries are only supported in SELECT''))))"
  by pat_completeness auto
termination
  by (relation "measure (\<lambda>(V, sc, vals, ctx, depth, expr). Suc MAX_EVAL_DEPTH - depth)") auto

declare eval_depth.simps [simp del]

definition eval :: "'j eval_fns \<Rightarrow> scope \<Rightarrow> 'j datum list \<Rightarrow> eval_ctx \<Rightarrow> 'j expr \<Rightarrow> 'j datum xres" where
  "eval V sc vals ctx expr = eval_depth V sc vals ctx 0 expr"

section \<open>Static types\<close>

fun is_temporal_type :: "column_type \<Rightarrow> bool" where
  "is_temporal_type TDate = True"
| "is_temporal_type TTime = True"
| "is_temporal_type TTimestamp = True"
| "is_temporal_type TTimestamptz = True"
| "is_temporal_type TInterval = True"
| "is_temporal_type _ = False"

definition is_int_type :: "column_type \<Rightarrow> bool" where
  "is_int_type t \<longleftrightarrow> t = TInt4 \<or> t = TInt8"

definition datetime_result_type :: "binary_op \<Rightarrow> column_type \<Rightarrow> column_type \<Rightarrow> column_type option" where
  "datetime_result_type op lt rt =
     (if \<not> is_temporal_type lt \<and> \<not> is_temporal_type rt then None
      else if (op = BAdd \<or> op = BSub) \<and> lt = TDate \<and> is_int_type rt then Some TDate
      else if op = BAdd \<and> rt = TDate \<and> is_int_type lt then Some TDate
      else if (op, lt, rt) = (BSub, TDate, TDate) then Some TInt4
      else if (op, lt, rt) \<in> {(BAdd, TDate, TInterval), (BSub, TDate, TInterval), (BAdd, TInterval, TDate)} then Some TTimestamp
      else if (op, lt, rt) \<in> {(BAdd, TTimestamp, TInterval), (BSub, TTimestamp, TInterval), (BAdd, TInterval, TTimestamp)}
      then Some TTimestamp
      else if (op, lt, rt) \<in> {(BAdd, TTimestamptz, TInterval), (BSub, TTimestamptz, TInterval), (BAdd, TInterval, TTimestamptz)}
      then Some TTimestamptz
      else if (op, lt, rt) \<in> {(BSub, TTimestamp, TTimestamp), (BSub, TTimestamptz, TTimestamptz)} then Some TInterval
      else if (op, lt, rt) \<in> {(BAdd, TInterval, TInterval), (BSub, TInterval, TInterval)} then Some TInterval
      else if (op = BMul \<or> op = BDiv) \<and> lt = TInterval \<and> num_family rt then Some TInterval
      else if op = BMul \<and> rt = TInterval \<and> num_family lt then Some TInterval
      else if (op, lt, rt) \<in> {(BAdd, TTime, TInterval), (BSub, TTime, TInterval), (BAdd, TInterval, TTime)} then Some TTime
      else if (op, lt, rt) \<in> {(BAdd, TDate, TTime), (BAdd, TTime, TDate)} then Some TTimestamp
      else None)"

definition numeric_result_type :: "column_type \<Rightarrow> column_type \<Rightarrow> column_type" where
  "numeric_result_type lt rt =
     (if lt = TFloat8 \<or> rt = TFloat8 then TFloat8
      else if is_numeric lt \<or> is_numeric rt then TNumeric None
      else if lt = TInt4 \<and> rt = TInt4 then TInt4
      else TInt8)"

definition unify_types :: "column_type \<Rightarrow> column_type \<Rightarrow> exec_error + column_type" where
  "unify_types a b =
     (if a = b then Inr a
      else if (a, b) \<in> {(TInt4, TInt8), (TInt8, TInt4)} then Inr TInt8
      else if a = TFloat8 \<or> b = TFloat8 then Inr TFloat8
      else if num_family a \<and> num_family b then Inr (TNumeric None)
      else Inl (ETypeMismatch (''types '' @ type_name a @ '' and '' @ type_name b @ '' cannot be matched'')))"

fun infer_type :: "'j eval_fns \<Rightarrow> scope \<Rightarrow> 'j expr \<Rightarrow> exec_error + column_type"
and unify_branches :: "'j eval_fns \<Rightarrow> scope \<Rightarrow> column_type option \<Rightarrow> ('j expr \<times> 'j expr) list \<Rightarrow> exec_error + column_type option"
and unify_branch :: "'j eval_fns \<Rightarrow> scope \<Rightarrow> column_type option \<Rightarrow> 'j expr \<Rightarrow> exec_error + column_type option" where
  "infer_type V sc (IntLiteral s) =
     map_err EType (rmap (\<lambda>d. case d of Int4 _ \<Rightarrow> TInt4 | _ \<Rightarrow> TInt8) (int_literal s :: type_error + 'j datum))"
| "infer_type V sc (NumericLiteral _) = Inr (TNumeric None)"
| "infer_type V sc (StringLiteral _) = Inr TText"
| "infer_type V sc (BoolLiteral _) = Inr TBool"
| "infer_type V sc NullLiteral = Inr TText"
| "infer_type V sc (Param _) = Inl (EUnsupported ''query parameters ($n) are not supported'')"
| "infer_type V sc (Column t name) = rbind (resolve sc t name) (\<lambda>idx. Inr (cb_ty (sc ! idx)))"
| "infer_type V sc (Unary op e) = (case op of UNot \<Rightarrow> Inr TBool | UNeg \<Rightarrow> infer_type V sc e)"
| "infer_type V sc (Binary op l r) =
     (if op \<in> {BAdd, BSub, BMul, BDiv}
      then rbind (infer_type V sc l) (\<lambda>lt. rbind (infer_type V sc r) (\<lambda>rt.
             Inr (case datetime_result_type op lt rt of Some t \<Rightarrow> t | None \<Rightarrow> numeric_result_type lt rt)))
      else if op = BConcat
      then rbind (infer_type V sc l) (\<lambda>lt. rbind (infer_type V sc r) (\<lambda>rt.
             if lt \<noteq> TText \<and> rt \<noteq> TText
             then Inl (EUndefinedFunction (''operator does not exist: '' @ type_name lt @ '' || '' @ type_name rt))
             else Inr TText))
      else Inr TBool)"
| "infer_type V sc (Func name dist args) =
     (let fc = (name, dist, args)
      in if is_scalar V name then ty_scalar V fc sc
         else if is_datetime_func V name then ty_datetime V fc sc
         else if is_format_func V name then ty_format V fc sc
         else ty_agg V fc sc)"
| "infer_type V sc (IsNull _ _) = Inr TBool"
| "infer_type V sc (InList _ _ _) = Inr TBool"
| "infer_type V sc (Between _ _ _ _) = Inr TBool"
| "infer_type V sc (Like _ _ _ _) = Inr TBool"
| "infer_type V sc (Case operand whens else_result) =
     rbind (unify_branches V sc None whens) (\<lambda>acc.
     rbind (case else_result of Some e \<Rightarrow> unify_branch V sc acc e | None \<Rightarrow> Inr acc) (\<lambda>acc.
       Inr (case acc of Some t \<Rightarrow> t | None \<Rightarrow> TText)))"
| "infer_type V sc (Cast e ty) =
     rbind (infer_type V sc e) (\<lambda>from.
       if cast_allowed from ty then Inr ty else Inl (EType (CannotCast (type_name from) (type_name ty))))"
| "infer_type V sc (Const _ ty) = Inr ty"
| "infer_type V sc (Exists _) = Inr TBool"
| "infer_type V sc (InSubquery _ _ _) = Inr TBool"
| "infer_type V sc (Quantified _ _ _ _) = Inr TBool"
| "infer_type V sc (ScalarSubquery _) =
     Inl (EUnsupported ''internal: scalar subquery must be resolved before type inference'')"
| "unify_branches V sc acc [] = Inr acc"
| "unify_branches V sc acc ((cond, result) # whens) =
     rbind (unify_branch V sc acc result) (\<lambda>acc. unify_branches V sc acc whens)"
| "unify_branch V sc acc e =
     (if e = NullLiteral then Inr acc
      else rbind (infer_type V sc e) (\<lambda>t.
             case acc of None \<Rightarrow> Inr (Some t) | Some a \<Rightarrow> rmap Some (unify_types a t)))"

section \<open>Types of operator results\<close>

definition result_type :: "binary_op \<Rightarrow> column_type \<Rightarrow> column_type \<Rightarrow> column_type" where
  "result_type op lt rt = (case datetime_result_type op lt rt of Some t \<Rightarrow> t | None \<Rightarrow> numeric_result_type lt rt)"

lemma d_float_type: "d_is_float a \<longleftrightarrow> column_type_of a = Some TFloat8"
  and d_numeric_type: "d_is_numeric a \<longleftrightarrow> column_type_of a = Some (TNumeric None)"
  and d_temporal_type: "d_is_temporal a \<longleftrightarrow> (\<exists>t. column_type_of a = Some t \<and> is_temporal_type t)"
  and is_null_type: "is_null a \<longleftrightarrow> column_type_of a = None"
  and as_i64_type: "as_i64 a = Some x \<Longrightarrow> column_type_of a = Some TInt4 \<or> column_type_of a = Some TInt8"
  by (cases a; simp)+

lemma float_arith_type: "float_arith x y f = Inr d \<Longrightarrow> typed d TFloat8"
  by (auto simp: float_arith_def Let_def split: if_splits)

lemma arith_type:
  assumes "arith L a b f4 f8 ff fn = Some (Inr d)" and "column_type_of a = Some s" and "column_type_of b = Some t"
  shows "has_type d (numeric_result_type s t)"
proof -
  have nn: "\<not> is_null a" "\<not> is_null b" using assms(2,3) by (simp_all add: is_null_type)
  show ?thesis
  proof (cases "s = TFloat8 \<or> t = TFloat8")
    case True
    with assms nn show ?thesis
      by (auto simp: arith_def d_float_type numeric_result_type_def typed_def split: option.splits dest!: float_arith_type)
  next
    case nf: False
    show ?thesis
    proof (cases "is_numeric s \<or> is_numeric t")
      case True
      have "is_numeric u \<longleftrightarrow> u = TNumeric None" if "column_type_of x = Some u" for x :: "'a datum" and u
        using that by (cases x) auto
      with True assms(2,3) have "s = TNumeric None \<or> t = TNumeric None" by blast
      with assms nn nf show ?thesis
        by (auto simp: arith_def d_float_type d_numeric_type numeric_result_type_def split: option.splits)
    next
      case False
      then have n: "s \<noteq> TNumeric None" "t \<noteq> TNumeric None" by auto
      show ?thesis
      proof (cases "s = TInt4 \<and> t = TInt4")
        case True
        then obtain x y where "a = Int4 x" "b = Int4 y" using assms(2,3) by (auto simp: column_type_of_iff)
        with assms(1) True show ?thesis by (auto simp: arith_def numeric_result_type_def rmap_eq_Inr)
      next
        case ni: False
        then have "\<not> (\<exists>x y. a = Int4 x \<and> b = Int4 y)" using assms(2,3) by auto
        then have "(case as_i64 a of Some x \<Rightarrow> (case as_i64 b of Some y \<Rightarrow> Some (rmap Int8 (ok_or Overflow (f8 x y)))
             | None \<Rightarrow> Some (Inl (TypeMismatch ''operator requires integer operands'')))
             | None \<Rightarrow> Some (Inl (TypeMismatch ''operator requires integer operands''))) = Some (Inr d)"
          using assms nn nf n by (simp add: arith_def d_float_type d_numeric_type split: datum.splits)
        then have "has_type d TInt8" by (auto simp: rmap_eq_Inr split: option.splits)
        with nf ni False show ?thesis by (auto simp: numeric_result_type_def)
      qed
    qed
  qed
qed

lemma temporal_add_type:
  "temporal_add L a b = Some (Inr d) \<Longrightarrow> column_type_of a = Some s \<Longrightarrow> column_type_of b = Some t \<Longrightarrow>
   has_type d (result_type BAdd s t)"
  by (cases a; cases b)
    (auto simp: temporal_add_def pmap_eq_Inr rmap_eq_Inr result_type_def datetime_result_type_def is_int_type_def)

lemma pbind_eq_Inr: "pbind m f = Some (Inr y) \<longleftrightarrow> (\<exists>x. m = Some (Inr x) \<and> f x = Some (Inr y))"
  by (cases m rule: option.exhaust, simp, rename_tac r, case_tac r) auto

lemma temporal_sub_type:
  "temporal_sub L a b = Some (Inr d) \<Longrightarrow> column_type_of a = Some s \<Longrightarrow> column_type_of b = Some t \<Longrightarrow>
   has_type d (result_type BSub s t)"
  by (cases a; cases b)
    (auto simp: temporal_sub_def pmap_eq_Inr rmap_eq_Inr pbind_eq_Inr result_type_def datetime_result_type_def is_int_type_def
      split: option.splits)

lemma ok_or_eq_Inr [simp]: "ok_or e m = Inr x \<longleftrightarrow> m = Some x"
  by (cases m) auto

lemma as_f64_num_family: "as_f64 L a = Some f \<Longrightarrow> column_type_of a = Some t \<Longrightarrow> num_family t"
  by (cases a) auto

lemma temporal_mul_type:
  assumes "temporal_mul L a b = Inr d" and "column_type_of a = Some s" and "column_type_of b = Some t"
  shows "has_type d (result_type BMul s t)"
proof -
  have "has_type d TInterval" using assms(1)
    by (auto simp: temporal_mul_def Let_def rmap_eq_Inr split: datum.splits)
  moreover have "s = TInterval \<and> num_family t \<or> t = TInterval \<and> num_family s"
    using assms by (auto simp: temporal_mul_def Let_def dest: as_f64_num_family split: datum.splits option.splits)
  ultimately show ?thesis by (auto simp: result_type_def datetime_result_type_def is_int_type_def)
qed

lemma temporal_div_type:
  assumes "temporal_div L a b = Inr d" and "column_type_of a = Some s" and "column_type_of b = Some t"
  shows "has_type d (result_type BDiv s t)"
proof -
  have "has_type d TInterval" using assms(1)
    by (auto simp: temporal_div_def rmap_eq_Inr split: datum.splits)
  moreover have "s = TInterval \<and> num_family t"
    using assms by (auto simp: temporal_div_def dest: as_f64_num_family split: datum.splits option.splits)
  ultimately show ?thesis by (auto simp: result_type_def datetime_result_type_def is_int_type_def)
qed

lemma result_type_numbers:
  "\<not> is_temporal_type s \<Longrightarrow> \<not> is_temporal_type t \<Longrightarrow> result_type op s t = numeric_result_type s t"
  by (simp add: result_type_def datetime_result_type_def)

lemma same_type_cases: "same_type s t \<longleftrightarrow> s = t \<or> (\<exists>m n. s = TNumeric m \<and> t = TNumeric n)"
  unfolding same_type_def by (cases s; cases t; auto)

lemma result_type_cong:
  "same_type s s' \<Longrightarrow> same_type t t' \<Longrightarrow> same_type (result_type op s t) (result_type op s' t')"
proof -
  have l: "result_type op (TNumeric m) t = result_type op (TNumeric n) t" for m n t
    by (simp add: result_type_def datetime_result_type_def numeric_result_type_def is_int_type_def)
  have r: "result_type op s (TNumeric m) = result_type op s (TNumeric n)" for m n s
    by (simp add: result_type_def datetime_result_type_def numeric_result_type_def is_int_type_def)
  assume "same_type s s'" "same_type t t'"
  then have "result_type op s t = result_type op s' t'" unfolding same_type_cases
    using l r by (elim disjE exE conjE) (simp_all, metis+)
  then show "same_type (result_type op s t) (result_type op s' t')" by simp
qed

lemma div_type:
  assumes "ops_div L a b = Some (Inr d)" and "column_type_of a = Some s" and "column_type_of b = Some t"
    and "\<not> is_temporal_type s" and "\<not> is_temporal_type t"
  shows "has_type d (numeric_result_type s t)"
proof -
  have nn: "\<not> is_null a" "\<not> is_null b" "\<not> d_is_temporal a" "\<not> d_is_temporal b"
    using assms(2-5) by (simp_all add: is_null_type d_temporal_type)
  show ?thesis
  proof (cases "d_is_float a \<or> d_is_float b")
    case True
    with assms nn show ?thesis
      by (auto simp: ops_div_def d_float_type numeric_result_type_def typed_def split: option.splits if_splits dest!: float_arith_type)
  next
    case nf: False
    show ?thesis
    proof (cases "d_is_numeric a \<or> d_is_numeric b")
      case True
      with assms nn nf show ?thesis
        by (auto simp: ops_div_def d_float_type d_numeric_type numeric_result_type_def rmap_eq_Inr split: option.splits if_splits)
    next
      case False
      with assms nn nf have "arith L a b checked_div checked_div f64_div (\<lambda>_ _. None) = Some (Inr d)"
        by (auto simp: ops_div_def split: if_splits)
      with assms show ?thesis by (blast dest: arith_type)
    qed
  qed
qed

lemma plain_arith_type:
  assumes "op \<in> {BAdd, BSub, BMul, BDiv}" and "plain_binary V op a b ctx = Some (Inr d)"
    and "column_type_of a = Some s" and "column_type_of b = Some t"
  shows "has_type d (result_type op s t)"
proof -
  have nn: "\<not> is_null a" "\<not> is_null b" using assms(3,4) by (simp_all add: is_null_type)
  show ?thesis
  proof (cases "is_temporal_type s \<or> is_temporal_type t")
    case True
    then have "d_is_temporal a \<or> d_is_temporal b" using assms(3,4) by (simp add: d_temporal_type)
    with assms nn show ?thesis
      by (auto simp: plain_binary_def ops_add_def ops_sub_def ops_mul_def ops_div_def
          dest: temporal_add_type temporal_sub_type temporal_mul_type temporal_div_type)
  next
    case False
    then have "\<not> d_is_temporal a" "\<not> d_is_temporal b" using assms(3,4) by (simp_all add: d_temporal_type)
    with assms nn False show ?thesis
      by (auto simp: result_type_numbers plain_binary_def ops_add_def ops_sub_def ops_mul_def dest: arith_type div_type)
  qed
qed

lemma tz_arith_type:
  "apply_timestamptz_arith V op a b ctx = Some (Inr (Some d)) \<Longrightarrow> column_type_of a = Some s \<Longrightarrow> column_type_of b = Some t \<Longrightarrow>
   has_type d (result_type op s t)"
  by (cases a; cases b; cases op)
    (auto simp: apply_timestamptz_arith_def pmap_eq_Inr pbind_eq_Inr result_type_def datetime_result_type_def is_int_type_def)

lemma null_operand:
  assumes "is_null a \<or> is_null b" and "op \<in> {BAdd, BSub, BMul, BDiv}" and "apply_binary V op a b ctx = Some (Inr d)"
  shows "d = Null"
proof -
  have "plain_binary V op a b ctx = Some (Inr Null)"
    using assms(1,2) by (auto simp: plain_binary_def ops_add_def ops_sub_def ops_mul_def ops_div_def xlift_def)
  with assms(1,3) show ?thesis
    by (auto simp: apply_binary_def xbind_eq_Inr apply_timestamptz_arith_def split: if_splits option.splits)
qed

lemma apply_arith_type:
  assumes "op \<in> {BAdd, BSub, BMul, BDiv}" and "apply_binary V op a b ctx = Some (Inr d)"
    and "has_type a lt" and "has_type b rt"
  shows "has_type d (result_type op lt rt)"
proof (cases "is_null a \<or> is_null b")
  case True
  with null_operand [OF this assms(1,2)] show ?thesis by simp
next
  case False
  then obtain s t where t: "column_type_of a = Some s" "column_type_of b = Some t" by (auto simp: is_null_type)
  have "plain_binary V op a b ctx = Some (Inr d) \<or> apply_timestamptz_arith V op a b ctx = Some (Inr (Some d))"
    using assms(2) by (auto simp: apply_binary_def xbind_eq_Inr split: if_splits option.splits)
  then have "has_type d (result_type op s t)"
    using plain_arith_type [OF assms(1) _ t] tz_arith_type [OF _ t] by blast
  moreover have "same_type s lt" "same_type t rt" using assms(3,4) t by (simp_all add: has_type_def)
  ultimately show ?thesis by (blast intro: has_type_trans result_type_cong)
qed

section \<open>Soundness of static types\<close>

text \<open>A row of a scope: a value of its type for every column.\<close>

definition row_ok :: "scope \<Rightarrow> 'j datum list \<Rightarrow> bool" where
  "row_ok sc vals \<longleftrightarrow> list_all2 (\<lambda>c d. has_type d (cb_ty c)) sc vals"

text \<open>
  The expressions the soundness theorem is about: no function calls, constants that carry their own
  type, and in every CASE the branches other than a bare NULL have the type inferred for the whole.
  Where the result type does not depend on the operands there is no condition on them.
\<close>

definition branch_type_ok :: "exec_error + column_type \<Rightarrow> exec_error + column_type \<Rightarrow> bool" where
  "branch_type_ok s t = (case (s, t) of (Inr s, Inr t) \<Rightarrow> same_type s t | _ \<Rightarrow> False)"

function well_branched :: "'j eval_fns \<Rightarrow> scope \<Rightarrow> 'j expr \<Rightarrow> bool" where
  "well_branched V sc expr =
     (case expr of
        Unary op e \<Rightarrow> op = UNeg \<longrightarrow> well_branched V sc e
      | Binary op l r \<Rightarrow> op \<in> {BAdd, BSub, BMul, BDiv} \<longrightarrow> well_branched V sc l \<and> well_branched V sc r
      | Func _ _ _ \<Rightarrow> False
      | Const d ty \<Rightarrow> has_type d ty
      | Case operand whens els \<Rightarrow>
          list_all (\<lambda>e. e = NullLiteral \<or> branch_type_ok (infer_type V sc e) (infer_type V sc expr) \<and> well_branched V sc e)
            (map snd whens @ (case els of Some e \<Rightarrow> [e] | None \<Rightarrow> []))
      | _ \<Rightarrow> True)"
  by pat_completeness auto
termination
proof (relation "measure (\<lambda>(V, sc, e). size e)", goal_cases)
  case (5 V sc expr operand whens els e)
  have "(c, e) \<in> set whens \<Longrightarrow> size e \<le> size_list (size_prod size size) whens" for c
    by (rule size_list_estimation' [of "(c, e)"]) simp_all
  with 5 show ?case by (fastforce split: option.splits simp: less_Suc_eq_le)
qed auto

declare well_branched.simps [simp del]

lemma well_branched_simps [simp]:
  "\<not> well_branched V sc (Func name dist args)"
  "well_branched V sc (Const d ty) \<longleftrightarrow> has_type d ty"
  "well_branched V sc (Unary UNeg e) \<longleftrightarrow> well_branched V sc e"
  "op \<in> {BAdd, BSub, BMul, BDiv} \<Longrightarrow> well_branched V sc (Binary op l r) \<longleftrightarrow> well_branched V sc l \<and> well_branched V sc r"
  by (subst well_branched.simps; simp)+

lemma resolve_from_bound:
  "resolve_from q name i found cs = Inr idx \<Longrightarrow> (\<forall>j. found = Some j \<longrightarrow> j < i) \<Longrightarrow> idx < i + length cs"
proof (induction q name i found cs rule: resolve_from.induct)
  case (2 q name i found c cs)
  then show ?case by (cases found) (auto split: if_splits)
qed auto

lemma resolve_bound: "resolve sc q name = Inr idx \<Longrightarrow> idx < length sc"
  using resolve_from_bound [of q name 0 None sc idx] by (auto simp: resolve_def split: option.splits if_splits)

lemma unary_neg_type:
  assumes "apply_unary V UNeg v = Some (Inr d)" and "has_type v t"
  shows "has_type d t"
proof (cases "column_type_of v")
  case None
  with assms(1) have "d = Null" by (cases v) (simp_all add: apply_unary_def ops_sub_def xlift_def)
  then show ?thesis by simp
next
  case (Some s)
  show ?thesis
  proof (cases "s = TInterval")
    case True
    with Some assms show ?thesis by (auto simp: column_type_of_iff apply_unary_def rmap_eq_Inr has_type_def)
  next
    case False
    with Some assms(1) have "plain_binary V BSub (Int4 0) v undefined = Some (Inr d)"
      by (cases v) (simp_all add: apply_unary_def plain_binary_def)
    then have "has_type d (result_type BSub TInt4 s)" 
      using plain_arith_type [of BSub V "Int4 0" v undefined d TInt4 s] Some by simp
    moreover have "ops_sub (v_lib V) (Int4 0) v = Some (Inr d)"
      using False Some assms(1) by (cases v) (simp_all add: apply_unary_def)
    then have "num_family s"
      using Some False by (cases v) (auto simp: ops_sub_def temporal_sub_def arith_def)
    then have "same_type (result_type BSub TInt4 s) s"
      by (cases s) (simp_all add: result_type_def datetime_result_type_def numeric_result_type_def same_type_def)
    moreover have "same_type s t" using Some assms(2) by (simp add: has_type_def)
    ultimately show ?thesis by (blast intro: has_type_trans)
  qed
qed

text \<open>A CASE returns NULL or the value of one of its branches.\<close>

lemma searched_case_result:
  "searched_case ev whens other = Some (Inr d) \<Longrightarrow> other = Some (Inr d) \<or> (\<exists>e \<in> snd ` set whens. ev e = Some (Inr d))"
proof (induction ev whens other rule: searched_case.induct)
  case (2 ev cond result whens other)
  from "2.prems" obtain c where "ev cond = Some (Inr c)" by (auto simp: xbind_eq_Inr)
  with 2 show ?case by (auto split: datum.splits bool.splits)
qed simp

lemma simple_case_result:
  "simple_case L ov ev whens other = Some (Inr d) \<Longrightarrow> other = Some (Inr d) \<or> (\<exists>e \<in> snd ` set whens. ev e = Some (Inr d))"
proof (induction L ov ev whens other rule: simple_case.induct)
  case (2 L ov ev val result whens other)
  from "2.prems" obtain c where "ev val = Some (Inr c)" by (auto simp: xbind_eq_Inr)
  with 2 show ?case by (auto simp: xbind_eq_Inr split: if_splits)
qed simp

lemma eval_case_result:
  assumes "eval_case L operand whens els ev = Some (Inr d)"
  shows "d = Null \<or> (\<exists>e \<in> set (map snd whens @ (case els of Some e \<Rightarrow> [e] | None \<Rightarrow> [])). ev e = Some (Inr d))"
  using assms by (auto simp: eval_case_def Let_def xbind_eq_Inr split: option.splits
      dest!: searched_case_result simple_case_result)

lemma in_list_type: "eval_in_list L x negated saw ev items = Some (Inr d) \<Longrightarrow> has_type d TBool"
proof (induction L x negated saw ev items rule: eval_in_list.induct)
  case (2 L x negated saw ev item items)
  from "2.prems" obtain v c where vc: "ev item = Some (Inr v)" "compare L x v = Inr c" by (auto simp: xbind_eq_Inr)
  show ?case
  proof (cases c)
    case None
    with 2 vc show ?thesis by (simp add: xlift_def)
  next
    case (Some o')
    with 2 vc show ?thesis by (cases o') (auto simp: xlift_def)
  qed
qed (auto split: if_splits)

lemma kleene_type:
  "has_type (if P then Bool False else if Q then Bool True else Null) TBool"
  "has_type (if P then Bool True else if Q then Bool False else Null) TBool"
  by simp_all

lemma logic_type: "ops_and a b = Inr d \<Longrightarrow> has_type d TBool" "ops_or a b = Inr d \<Longrightarrow> has_type d TBool"
  "ops_not a = Inr d \<Longrightarrow> has_type d TBool"
proof -
  show "has_type d TBool" if "ops_and a b = Inr d"
    using that unfolding ops_and_def rbind_eq_Inr by (elim exE conjE) (drule sum.inject(2) [THEN iffD1], erule subst, rule kleene_type)
  show "has_type d TBool" if "ops_or a b = Inr d"
    using that unfolding ops_or_def rbind_eq_Inr by (elim exE conjE) (drule sum.inject(2) [THEN iffD1], erule subst, rule kleene_type)
  show "has_type d TBool" if "ops_not a = Inr d"
    using that unfolding ops_not_def by (cases "as_bool a") (auto split: option.splits)
qed

lemma bool_binary_type:
  "op \<notin> {BAdd, BSub, BMul, BDiv, BConcat} \<Longrightarrow> apply_binary V op l r ctx = Some (Inr d) \<Longrightarrow> has_type d TBool"
  by (cases op) (auto simp: apply_binary_def plain_binary_def xbind_eq_Inr cmp_result_def
      split: option.splits dest: logic_type)

lemma concat_type: "apply_binary V BConcat l r ctx = Some (Inr d) \<Longrightarrow> has_type d TText"
  by (auto simp: apply_binary_def plain_binary_def ops_concat_def split: if_splits option.splits)

lemma between_type: "eval_between V x lo hi negated ctx = Some (Inr d) \<Longrightarrow> has_type d TBool"
  by (auto simp: eval_between_def xbind_eq_Inr split: if_splits dest: logic_type)

lemma like_type: "eval_like s p negated ci = Some (Inr d) \<Longrightarrow> has_type d TBool"
  by (auto simp: eval_like_def xbind_eq_Inr split: if_splits)

lemma infer_binary: "infer_type V sc (Binary op l r) = Inr t \<Longrightarrow>
    (op \<in> {BAdd, BSub, BMul, BDiv} \<and> (\<exists>lt rt. infer_type V sc l = Inr lt \<and> infer_type V sc r = Inr rt \<and> t = result_type op lt rt))
    \<or> op = BConcat \<and> t = TText \<or> op \<notin> {BAdd, BSub, BMul, BDiv, BConcat} \<and> t = TBool"
  by (auto simp: result_type_def split: if_splits)

lemma eval_depth_sound:
  assumes "row_ok sc vals"
  shows "eval_depth V sc vals ctx depth e = Some (Inr d) \<Longrightarrow> infer_type V sc e = Inr t \<Longrightarrow> well_branched V sc e
    \<Longrightarrow> has_type d t"
proof (induction "Suc MAX_EVAL_DEPTH - depth" arbitrary: depth e d t rule: less_induct)
  case less
  note ev = less.prems(1)
  have depth: "\<not> depth > MAX_EVAL_DEPTH" using ev by (auto simp: eval_depth.simps [of V sc vals ctx depth e])
  let ?ev = "eval_depth V sc vals ctx (depth + 1)"
  have IH: "?ev e' = Some (Inr d') \<Longrightarrow> infer_type V sc e' = Inr t' \<Longrightarrow> well_branched V sc e' \<Longrightarrow> has_type d' t'" for e' d' t'
    using depth by (intro less.hyps [of "depth + 1"]) auto
  note step = eval_depth.simps [of V sc vals ctx depth] Let_def
  show ?case
  proof (cases e)
    case (IntLiteral s)
    with less.prems depth show ?thesis
      by (auto simp: step int_literal_def rmap_def split: option.splits)
  next
    case (Column q name)
    with less.prems depth obtain idx where i: "resolve sc q name = Inr idx" "d = vals ! idx" "t = cb_ty (sc ! idx)"
      by (auto simp: step xbind_eq_Inr split: if_splits)
    with assms resolve_bound [OF i(1)] show ?thesis by (auto simp: row_ok_def list_all2_conv_all_nth)
  next
    case (Unary op e')
    show ?thesis
    proof (cases op)
      case UNot
      with Unary less.prems depth show ?thesis
        by (auto simp: step xbind_eq_Inr apply_unary_def dest: logic_type)
    next
      case UNeg
      with Unary less.prems depth obtain v where "?ev e' = Some (Inr v)" "apply_unary V UNeg v = Some (Inr d)"
        by (auto simp: step xbind_eq_Inr)
      moreover have "infer_type V sc e' = Inr t" "well_branched V sc e'"
        using less.prems Unary UNeg by simp_all
      ultimately show ?thesis using IH unary_neg_type by blast
    qed
  next
    case (Binary op l r)
    with less.prems(1) depth obtain x y where xy: "?ev l = Some (Inr x)" "?ev r = Some (Inr y)"
      and res: "apply_binary V op x y ctx = Some (Inr d)" by (auto simp: step xbind_eq_Inr)
    from infer_binary [OF less.prems(2) [unfolded Binary]] show ?thesis
    proof (elim disjE conjE exE)
      fix lt rt
      assume op: "op \<in> {BAdd, BSub, BMul, BDiv}" and ty: "infer_type V sc l = Inr lt" "infer_type V sc r = Inr rt" "t = result_type op lt rt"
      have "well_branched V sc l" "well_branched V sc r"
        using less.prems(3) op by (simp_all add: Binary)
      then show ?thesis using apply_arith_type [OF op res] IH xy ty by blast
    qed (use res concat_type bool_binary_type in blast)+
  next
    case (Case operand whens els)
    have "eval_case (v_lib V) operand whens els ?ev = Some (Inr d)" using ev depth by (simp add: step Case)
    from eval_case_result [OF this] show ?thesis
    proof (elim disjE bexE)
      fix b
      assume b: "b \<in> set (map snd whens @ (case els of Some e \<Rightarrow> [e] | None \<Rightarrow> []))" "?ev b = Some (Inr d)"
      then have "b = NullLiteral \<or> branch_type_ok (infer_type V sc b) (infer_type V sc e) \<and> well_branched V sc b"
        using less.prems(3) by (auto simp: Case well_branched.simps [of V sc "Case operand whens els"] list_all_iff)
      then show ?thesis
      proof
        assume "b = NullLiteral"
        with b(2) have "d = Null" by (auto simp: eval_depth.simps [of V sc vals ctx "Suc depth"] Let_def split: if_splits)
        then show ?thesis by simp
      next
        assume wb: "branch_type_ok (infer_type V sc b) (infer_type V sc e) \<and> well_branched V sc b"
        then obtain s where s: "infer_type V sc b = Inr s" "same_type s t"
          using less.prems(2) by (auto simp: branch_type_ok_def split: sum.splits)
        with wb b(2) IH show ?thesis by (blast intro: has_type_trans)
      qed
    qed simp
  next
    case (Cast e' ty)
    with less.prems depth show ?thesis by (auto simp: step xbind_eq_Inr dest: cast_has_type split: if_splits)
  qed (use less.prems depth in \<open>auto simp: step xbind_eq_Inr Let_def
        split: if_splits option.splits dest: in_list_type between_type like_type\<close>)
qed


section \<open>Limits\<close>

lemma int_literal_one: "int_literal [0x31] = Inr (Int4 1)"
  by (simp add: int_literal_def parse_int_def ascii_simps is_digit_def digits_val_def checked_def)

lemma tower: "eval_depth V sc vals ctx depth ((Unary UNot ^^ n) (BoolLiteral b)) =
     Some (if depth + n \<le> MAX_EVAL_DEPTH then Inr (Bool (if even n then b else \<not> b)) else Inl EStackDepthExceeded)"
proof (induction n arbitrary: depth)
  case 0
  then show ?case by (simp add: eval_depth.simps Let_def)
next
  case (Suc n)
  then show ?case
    by (simp add: eval_depth.simps [of V sc vals ctx depth] Let_def apply_unary_def ops_not_def xlift_def)
qed

text \<open>Inference does not hold for every CASE. The branches are unified for the inferred type but never
  converted to it, so \<open>CASE WHEN TRUE THEN 1 ELSE 2.5 END\<close> is described as \<open>numeric\<close> and returns an
  \<open>int4\<close>; and unification lets \<open>float8\<close> absorb any type, so a CASE with a \<open>text\<close> and a \<open>float8\<close> branch
  is accepted, described as \<open>float8\<close>, and returns the text.\<close>

theorem case_branch_not_converted:
  "infer_type V sc (Case None [(BoolLiteral True, IntLiteral (ascii ''1''))] (Some (NumericLiteral (ascii ''2.5'')))) = Inr (TNumeric None)
   \<and> eval V sc vals ctx (Case None [(BoolLiteral True, IntLiteral (ascii ''1''))] (Some (NumericLiteral (ascii ''2.5'')))) = Some (Inr (Int4 1))
   \<and> infer_type V sc (Case None [(BoolLiteral True, StringLiteral s)] (Some (Cast (IntLiteral (ascii ''1'')) TFloat8))) = Inr TFloat8
   \<and> eval V sc vals ctx (Case None [(BoolLiteral True, StringLiteral s)] (Some (Cast (IntLiteral (ascii ''1'')) TFloat8))) = Some (Inr (Text s))"
  by (simp add: int_literal_one unify_types_def cast_allowed_def eval_def eval_depth.simps Let_def MAX_EVAL_DEPTH_def
      eval_case_def xlift_def del: rbind_eq_Inr)

text \<open>The depth limit is exact: a tower of \<open>n\<close> NOTs over a boolean evaluates to its value when \<open>n\<close> is at
  most \<open>MAX_EVAL_DEPTH\<close>, and to SQLSTATE 54001 beyond it.\<close>

theorem eval_depth_limit:
  "eval V sc vals ctx ((Unary UNot ^^ n) (BoolLiteral b)) =
     Some (if n \<le> MAX_EVAL_DEPTH then Inr (Bool (if even n then b else \<not> b)) else Inl EStackDepthExceeded)"
  by (simp add: eval_def tower)

text \<open>Functions for evaluating the model: no function families.\<close>

definition plain_fns :: "int eval_fns" where
  "plain_fns = \<lparr> v_lib = plain_lib, v_texts = plain_texts, v_tz_plus = (\<lambda>t iv _. Some (Inr (t + sint (micros iv)))),
     is_scalar = (\<lambda>_. False), is_datetime_func = (\<lambda>_. False), is_format_func = (\<lambda>_. False),
     call_scalar = (\<lambda>_ _ _. None), call_datetime = (\<lambda>_ _ _. None), call_format = (\<lambda>_ _ _. None),
     func_error = (\<lambda>fc. EUndefinedFunction (chars_of (fst fc))),
     ty_scalar = (\<lambda>_ _. Inl (EUndefinedFunction [])), ty_datetime = (\<lambda>_ _. Inl (EUndefinedFunction [])),
     ty_format = (\<lambda>_ _. Inl (EUndefinedFunction [])), ty_agg = (\<lambda>_ _. Inl (EUndefinedFunction [])) \<rparr>"


end
