(* ===== verification/Spec2Isabelle.thy ===== *)
theory Spec2Isabelle
  imports KvStore Numeric Datetime RowEnc Version Visibility Errors ProcArray Gtm Seq LockMgr RangeMap Durable Catalog Session TwoPc Eval
begin

text \<open>
  A verification development of CrabgreSQL, a distributed SQL database in Rust.
\<close>

end
